(* ===== verification/Samba_Prelude.thy ===== *)
theory Samba_Prelude
  imports "HOL-Library.Word"
begin

text \<open>
  Shared vocabulary of the development: the machine integers of the C sources, the status
  codes the modelled functions return, the C idiom \<open>if (word & mask)\<close>, generic lemmas on
  words and lists, and the interface of a printer with its parser (a codec) that the
  components instantiate.
\<close>

unbundle bit_operations_syntax

section \<open>Machine integers and status codes\<close>

type_synonym u8 = "8 word"
type_synonym u16 = "16 word"
type_synonym u32 = "32 word"
type_synonym u64 = "64 word"

text \<open>The \<open>NTSTATUS\<close> values returned by the modelled functions
  (\<open>libcli/util/ntstatus.h\<close>). \<open>NT_STATUS_UNIX\<close> stands for the codes
  \<open>map_nt_error_from_unix\<close> computes from an \<open>errno\<close>.\<close>

datatype NTSTATUS =
    NT_STATUS_OK
  | NT_STATUS_ACCESS_DENIED
  | NT_STATUS_PRIVILEGE_NOT_HELD
  | NT_STATUS_INVALID_PARAMETER
  | NT_STATUS_NO_MEMORY
  | NT_STATUS_INVALID_LOCK_RANGE
  | NT_STATUS_FILE_LOCK_CONFLICT
  | NT_STATUS_LOCK_NOT_GRANTED
  | NT_STATUS_OBJECT_NAME_NOT_FOUND
  | NT_STATUS_INVALID_DEVICE_REQUEST
  | NT_STATUS_INVALID_HANDLE
  | NT_STATUS_RANGE_NOT_LOCKED
  | NT_STATUS_DOS_ERRcancelviolation
  | NT_STATUS_SHARING_VIOLATION
  | NT_STATUS_UNIX nat

text \<open>\<open>talloc\<close>: the \<open>k\<close>-th allocation a function makes either fails (\<open>None\<close>) or
  returns memory whose previous contents, as far as they stay visible, are the given words.\<close>

type_synonym talloc = "nat \<Rightarrow> u32 list option"

abbreviation talloc_fails :: "talloc \<Rightarrow> nat \<Rightarrow> bool" where
  "talloc_fails mem k \<equiv> mem k = None"

section \<open>Collections of rewrite rules\<close>

named_theorems flag_simps \<open>rules for testing and changing bits of a mask\<close>
named_theorems codec_simps \<open>rules for parsing what a printer wrote\<close>

section \<open>Testing bits: the C condition \<open>if (w & m)\<close>\<close>

definition flag :: "'a::len word \<Rightarrow> 'a word \<Rightarrow> bool" where
  "flag w m \<longleftrightarrow> w AND m \<noteq> 0"

lemma flag_iff_bit: "flag w m \<longleftrightarrow> (\<exists>n. bit w n \<and> bit m n)"
  for w m :: "'a::len word"
proof -
  have "w AND m = 0 \<longleftrightarrow> (\<forall>n. \<not> bit (w AND m) n)"
    by (metis bit_word_eqI bit_0_eq bot_apply bot_bool_def)
  then show ?thesis by (auto simp: flag_def bit_and_iff)
qed

lemma flag_0 [simp]: "\<not> flag 0 m" "\<not> flag w 0"
  by (simp_all add: flag_def)

lemma flag_or: "flag (v OR w) m \<longleftrightarrow> flag v m \<or> flag w m"
  for v w m :: "'a::len word"
  by (auto simp: flag_iff_bit bit_or_iff)

lemma flag_or_mask: "flag w (m OR n) \<longleftrightarrow> flag w m \<or> flag w n"
  for w m n :: "'a::len word"
  by (auto simp: flag_iff_bit bit_or_iff)

lemma word_neq_0_iff_bit: "w \<noteq> 0 \<longleftrightarrow> (\<exists>n. bit w n)"
  for w :: "'a::len word"
  by (metis bit_0_eq bit_word_eqI bot_apply bot_bool_def)

lemma word_eq_0_iff_bit: "w = 0 \<longleftrightarrow> (\<forall>n. \<not> bit w n)"
  for w :: "'a::len word"
  using word_neq_0_iff_bit by blast

text \<open>A mask all of whose bits are accounted for: the word form of a subset.\<close>

definition mask_le :: "'a::len word \<Rightarrow> 'a word \<Rightarrow> bool" where
  "mask_le v w \<longleftrightarrow> v AND NOT w = 0"

lemma mask_le_iff_bit: "mask_le v w \<longleftrightarrow> (\<forall>n. bit v n \<longrightarrow> bit w n)"
  for v w :: "'a::len word"
  unfolding mask_le_def word_eq_0_iff_bit
  by (auto simp: bit_and_iff bit_not_iff dest: bit_imp_le_length)

lemma bit_and_not: "bit (w AND NOT m) n \<longleftrightarrow> bit w n \<and> \<not> bit m n"
  for w m :: "'a::len word"
  by (auto simp: bit_and_iff bit_not_iff dest: bit_imp_le_length)

text \<open>Masks of a single bit.\<close>

lemma and_single_bit: "w AND 2 ^ n = (if bit w n then 2 ^ n else 0)" for w :: "'a::len word"
  by (rule bit_word_eqI) (auto simp: bit_simps)

lemma flag_single_bit: "n < LENGTH('a) \<Longrightarrow> flag w (2 ^ n) \<longleftrightarrow> bit w n" for w :: "'a::len word"
  by (auto simp: flag_iff_bit bit_simps)

lemma not_flag_not: "\<not> flag v (NOT w) \<longleftrightarrow> mask_le v w" for v w :: "'a::len word"
  by (simp add: flag_def mask_le_def)

lemmas bit_mask_simps = bit_and_iff bit_or_iff bit_and_not

section \<open>Lists\<close>

lemma sorted_wrt_weaken:
  "sorted_wrt P as \<Longrightarrow> (\<And>x y. x \<in> set as \<Longrightarrow> y \<in> set as \<Longrightarrow> P x y \<Longrightarrow> Q x y) \<Longrightarrow> sorted_wrt Q as"
  by (induction as) auto

section \<open>Codecs: a printer and its parser\<close>

text \<open>
  The interface of every encode/decode pair of the development. \<open>wf\<close> says which values
  the program writes, \<open>enc\<close> writes one and \<open>dec\<close> reads it back, \<open>None\<close> on malformed
  input. The one law is that reading back what was written gives the value again.
\<close>

locale codec =
  fixes enc :: "'a \<Rightarrow> 'b"
    and dec :: "'b \<Rightarrow> 'a option"
    and wf :: "'a \<Rightarrow> bool"
  assumes dec_enc: "wf x \<Longrightarrow> dec (enc x) = Some x"
begin

lemma enc_inj: "wf x \<Longrightarrow> wf y \<Longrightarrow> enc x = enc y \<longleftrightarrow> x = y"
  using dec_enc by (metis option.inject)

lemma dec_not_None: "wf x \<Longrightarrow> dec (enc x) \<noteq> None"
  by (simp add: dec_enc)

end

end
