(* ===== verification/C_Library.thy ===== *)
theory C_Library
  imports Samba_Prelude
begin

text \<open>
  What the modelled sources use of the C library on strings: \<open>isdigit\<close>, the conversions
  \<open>%u\<close> and \<open>%x\<close> of \<open>snprintf\<close>, and \<open>strtoul\<close>/\<open>strtoull\<close> with bases 10, 16 and 0
  on input that starts with a digit (every call site tests \<open>isdigit\<close> first, so leading
  blanks and signs never reach them). A C string is a \<open>string\<close> without NUL bytes, and the
  pointer to the first unparsed character is the rest of the string.
\<close>

section \<open>Digits\<close>

definition digit_chars :: string where
  "digit_chars = ''0123456789abcdef''"

definition digit_char :: "nat \<Rightarrow> char" where
  "digit_char d = digit_chars ! d"

text \<open>The value of a digit in bases up to 16; letters in either case, as in C.\<close>

definition digit_val :: "char \<Rightarrow> nat option" where
  "digit_val c =
     (let n = (of_char c :: nat) in
      if 48 \<le> n \<and> n \<le> 57 then Some (n - 48)
      else if 97 \<le> n \<and> n \<le> 102 then Some (n - 87)
      else if 65 \<le> n \<and> n \<le> 70 then Some (n - 55)
      else None)"

definition is_base_digit :: "nat \<Rightarrow> char \<Rightarrow> bool" where
  "is_base_digit b c = (case digit_val c of None \<Rightarrow> False | Some d \<Rightarrow> d < b)"

definition isdigit :: "char \<Rightarrow> bool" where
  "isdigit c = is_base_digit 10 c"

text \<open>\<open>isdigit(*p)\<close> on the first character of a string; the terminating NUL is no digit.\<close>

definition isdigit_at :: "string \<Rightarrow> bool" where
  "isdigit_at s = (case s of [] \<Rightarrow> False | c # _ \<Rightarrow> isdigit c)"

section \<open>Printing\<close>

fun print_base :: "nat \<Rightarrow> nat \<Rightarrow> string" where
  "print_base b n =
     (if b < 2 \<or> n < b then [digit_char n] else print_base b (n div b) @ [digit_char (n mod b)])"

declare print_base.simps [simp del]

definition print_dec :: "nat \<Rightarrow> string" where
  "print_dec = print_base 10"

definition print_hex :: "nat \<Rightarrow> string" where
  "print_hex = print_base 16"

section \<open>\<open>strtoull\<close>\<close>

text \<open>The value of a run of digits, most significant first.\<close>

definition digits_value :: "nat \<Rightarrow> string \<Rightarrow> nat" where
  "digits_value b s = foldl (\<lambda>acc c. acc * b + the (digit_val c)) 0 s"

definition ULLONG_MAX :: nat where
  "ULLONG_MAX = 2 ^ 64 - 1"

text \<open>The longest run of digits is converted and overflow gives \<open>ULLONG_MAX\<close>
  (\<open>unsigned long\<close> is 64 bits wide on the platforms of the source tree).\<close>

definition strtoull_digits :: "nat \<Rightarrow> string \<Rightarrow> nat \<times> string" where
  "strtoull_digits b s =
     (min ULLONG_MAX (digits_value b (takeWhile (is_base_digit b) s)),
      dropWhile (is_base_digit b) s)"

text \<open>Base 0 reads the prefix: \<open>0x\<close> before a hexadecimal digit is base 16, any other
  leading \<open>0\<close> is base 8, everything else is base 10.\<close>

definition strtoull :: "nat \<Rightarrow> string \<Rightarrow> nat \<times> string" where
  "strtoull base s =
     (if base = 0 then
        (case s of
           c # x # d # t \<Rightarrow>
             if c = CHR ''0'' \<and> (x = CHR ''x'' \<or> x = CHR ''X'') \<and> is_base_digit 16 d
             then strtoull_digits 16 (d # t)
             else if c = CHR ''0'' then strtoull_digits 8 s else strtoull_digits 10 s
         | c # t \<Rightarrow> if c = CHR ''0'' then strtoull_digits 8 s else strtoull_digits 10 s
         | [] \<Rightarrow> strtoull_digits 10 s)
      else strtoull_digits base s)"

section \<open>\<open>sscanf\<close>\<close>

text \<open>The formats the modelled sources use consist of decimal conversions of a given width and of
  single characters. A conversion skips blanks and takes an optional sign, as \<open>strtoull\<close>
  does. The result is the list of the values that were assigned; its length is the return value of
  \<open>sscanf\<close> (which is \<open>EOF\<close> instead of 0 at the end of the input; no call site tells them
  apart). A value too large for a \<open>uint32_t\<close> is truncated, as glibc does.\<close>

datatype scan_item = Scan_U nat | Scan_Lit char

definition isspace :: "char \<Rightarrow> bool" where
  "isspace c = (let n = (of_char c :: nat) in n = 32 \<or> (9 \<le> n \<and> n \<le> 13))"

definition scan_number :: "string \<Rightarrow> (nat \<times> string) option" where
  "scan_number s =
     (let s1 = dropWhile isspace s;
          neg = (s1 \<noteq> [] \<and> hd s1 = CHR ''-'');
          s2 = (if s1 \<noteq> [] \<and> (hd s1 = CHR ''-'' \<or> hd s1 = CHR ''+'') then tl s1 else s1);
          v = digits_value 10 (takeWhile (is_base_digit 10) s2)
      in if isdigit_at s2
         then Some (if v > ULLONG_MAX then ULLONG_MAX else if neg then (2 ^ 64 - v) mod 2 ^ 64 else v,
                    dropWhile (is_base_digit 10) s2)
         else None)"

fun sscanf :: "scan_item list \<Rightarrow> string \<Rightarrow> nat list" where
  "sscanf [] s = []"
| "sscanf (Scan_Lit c # fs) s = (if s \<noteq> [] \<and> hd s = c then sscanf fs (tl s) else [])"
| "sscanf (Scan_U w # fs) s =
     (case scan_number s of None \<Rightarrow> [] | Some (n, r) \<Rightarrow> n mod 2 ^ w # sscanf fs r)"

section \<open>Lemmas\<close>

lemma digit_val_digit_char: "d < 16 \<Longrightarrow> digit_val (digit_char d) = Some d"
proof -
  have "\<forall>d \<in> set [0..<16]. digit_val (digit_char d) = Some d" by code_simp
  then show "d < 16 \<Longrightarrow> digit_val (digit_char d) = Some d" by simp
qed

lemma is_base_digit_digit_char: "d < b \<Longrightarrow> b \<le> 16 \<Longrightarrow> is_base_digit b (digit_char d)"
  by (simp add: is_base_digit_def digit_val_digit_char)

lemma isdigit_digit_char: "d < 10 \<Longrightarrow> isdigit (digit_char d)"
  by (simp add: isdigit_def is_base_digit_digit_char)

lemma digits_value_append:
  "digits_value b (s @ [c]) = digits_value b s * b + the (digit_val c)"
  by (simp add: digits_value_def)

lemma print_base_not_Nil [simp]: "print_base b n \<noteq> []"
  by (subst print_base.simps) simp

lemma print_base_digits:
  assumes "2 \<le> b" "b \<le> 16"
  shows "\<forall>c \<in> set (print_base b n). is_base_digit b c"
  using assms
proof (induction b n rule: print_base.induct)
  case (1 b n)
  show ?case
  proof (cases "n < b")
    case True
    with "1.prems" show ?thesis
      by (subst print_base.simps) (simp add: is_base_digit_digit_char)
  next
    case False
    with "1.prems" "1.IH" have "\<forall>c \<in> set (print_base b (n div b)). is_base_digit b c"
      by simp
    moreover have "is_base_digit b (digit_char (n mod b))"
      using "1.prems" by (intro is_base_digit_digit_char) simp_all
    ultimately show ?thesis using False "1.prems" by (subst print_base.simps) auto
  qed
qed

lemma digits_value_print_base:
  assumes "2 \<le> b" "b \<le> 16"
  shows "digits_value b (print_base b n) = n"
  using assms
proof (induction b n rule: print_base.induct)
  case (1 b n)
  show ?case
  proof (cases "n < b")
    case True
    with "1.prems" show ?thesis
      by (subst print_base.simps) (simp add: digits_value_def digit_val_digit_char)
  next
    case False
    have "n mod b < 16" using "1.prems" by (meson less_le_trans mod_less_divisor zero_less_numeral order_less_le_trans)
    with False "1.prems" "1.IH" show ?thesis
      by (subst print_base.simps) (simp add: digits_value_append digit_val_digit_char)
  qed
qed

text \<open>What follows a printed number must not continue it.\<close>

definition no_digit_ahead :: "nat \<Rightarrow> string \<Rightarrow> bool" where
  "no_digit_ahead b s = (case s of [] \<Rightarrow> True | c # _ \<Rightarrow> \<not> is_base_digit b c)"

lemma takeWhile_dropWhile_no_digit:
  assumes "\<forall>c \<in> set p. is_base_digit b c" "no_digit_ahead b s"
  shows "takeWhile (is_base_digit b) (p @ s) = p" "dropWhile (is_base_digit b) (p @ s) = s"
proof -
  have "takeWhile (is_base_digit b) s = []" "dropWhile (is_base_digit b) s = s"
    using assms(2) by (cases s; simp add: no_digit_ahead_def)+
  with assms(1) show "takeWhile (is_base_digit b) (p @ s) = p"
      "dropWhile (is_base_digit b) (p @ s) = s"
    by (simp_all add: takeWhile_append dropWhile_append)
qed

lemma strtoull_digits_print_base [codec_simps]:
  assumes "2 \<le> b" "b \<le> 16" "n \<le> ULLONG_MAX" "no_digit_ahead b s"
  shows "strtoull_digits b (print_base b n @ s) = (n, s)"
proof -
  note d = takeWhile_dropWhile_no_digit [OF print_base_digits [OF assms(1,2)] assms(4)]
  show ?thesis
    unfolding strtoull_digits_def d digits_value_print_base [OF assms(1,2)]
    using assms(3) by simp
qed

text \<open>The conversion of a string that starts with a digit consumes something.\<close>

lemma strtoull_10_consumes:
  assumes "isdigit_at s"
  shows "length (snd (strtoull 10 s)) < length s"
  using assms
  by (auto simp: strtoull_def strtoull_digits_def isdigit_at_def isdigit_def
      less_Suc_eq_le length_dropWhile_le split: list.splits)

lemma print_base_length_le:
  assumes "2 \<le> b" "n < b ^ k" "0 < k"
  shows "length (print_base b n) \<le> k"
  using assms
proof (induction b n arbitrary: k rule: print_base.induct)
  case (1 b n)
  show ?case
  proof (cases "n < b")
    case True
    with "1.prems" show ?thesis by (subst print_base.simps) simp
  next
    case False
    with "1.prems" have k: "k \<noteq> 1" by (cases "k = 1") auto
    with "1.prems" obtain j where j: "k = Suc j" "0 < j" by (cases k) auto
    have "n div b < b ^ j"
      using "1.prems" j by (simp add: less_mult_imp_div_less mult.commute)
    with False "1.prems" "1.IH" [of j] j show ?thesis
      by (subst print_base.simps) simp
  qed
qed

text \<open>A scanned conversion reads a printed number.\<close>

lemma base_digit_code: "is_base_digit 10 c \<longleftrightarrow> 48 \<le> (of_char c :: nat) \<and> (of_char c :: nat) \<le> 57"
  by (simp add: is_base_digit_def digit_val_def Let_def) linarith

lemma base_digit_no_blank:
  assumes "is_base_digit 10 c"
  shows "\<not> isspace c" "c \<noteq> CHR ''-''" "c \<noteq> CHR ''+''"
  using assms by (auto simp: base_digit_code isspace_def Let_def)

lemma scan_number_print_dec [codec_simps]:
  assumes "n \<le> ULLONG_MAX" "no_digit_ahead 10 s"
  shows "scan_number (print_dec n @ s) = Some (n, s)"
proof -
  have d: "\<forall>c \<in> set (print_base 10 n). is_base_digit 10 c" by (rule print_base_digits) simp_all
  obtain c p where p: "print_base 10 n = c # p"
    using print_base_not_Nil [of 10 n] by (cases "print_base 10 n") auto
  then have c: "is_base_digit 10 c" using d by simp
  have t: "takeWhile (is_base_digit 10) (p @ s) = p" "dropWhile (is_base_digit 10) (p @ s) = s"
    using takeWhile_dropWhile_no_digit [OF d assms(2)] c by (simp_all add: p)
  have v: "digits_value 10 (c # p) = n" using digits_value_print_base [of 10 n] by (simp add: p)
  show ?thesis
    unfolding scan_number_def Let_def print_dec_def p append_Cons
    using c base_digit_no_blank [OF c] assms(1)
    by (simp add: t v isdigit_at_def isdigit_def)
qed

end
