(* ===== verification/Dom_Sid.thy ===== *)
theory Dom_Sid
  imports C_Library
begin

text \<open>
  Security identifiers, from \<open>libcli/security/dom_sid.c\<close> and the well known SIDs of
  \<open>libcli/security/util_sid.c\<close>: comparison, appending and splitting off a RID, domain
  membership, and the string form with its parser. A \<open>const struct dom_sid *\<close> that may
  be \<open>NULL\<close> is a \<open>dom_sid option\<close>. The shortcut \<open>if (sid1 == sid2) return 0\<close> on equal
  pointers is not a case of its own: lemma \<open>dom_sid_compare_refl\<close> shows that comparing
  the contents gives the same answer.
\<close>

section \<open>The structure\<close>

text \<open>\<open>num_auths\<close> is an \<open>int8_t\<close> with range 0 to 15; the arrays have 6 and 15 entries.\<close>

record dom_sid =
  sid_rev_num :: u8
  num_auths :: int
  id_auth :: "u8 list"
  sub_auths :: "u32 list"

definition sid_wf :: "dom_sid \<Rightarrow> bool" where
  "sid_wf s \<longleftrightarrow> 0 \<le> num_auths s \<and> num_auths s \<le> 15 \<and>
     length (id_auth s) = 6 \<and> length (sub_auths s) = 15"

text \<open>The used sub-authorities.\<close>

abbreviation n_auths :: "dom_sid \<Rightarrow> nat" where
  "n_auths s \<equiv> nat (num_auths s)"

text \<open>\<open>ZERO_STRUCTP(sidout)\<close>.\<close>

definition zero_sid :: dom_sid where
  "zero_sid = \<lparr>sid_rev_num = 0, num_auths = 0, id_auth = replicate 6 0, sub_auths = replicate 15 0\<rparr>"

text \<open>The SIDs of \<open>util_sid.c\<close> that the access checks use, as initialised there.\<close>

definition const_sid :: "u8 \<Rightarrow> u32 list \<Rightarrow> dom_sid" where
  "const_sid auth subs =
     \<lparr>sid_rev_num = 1, num_auths = int (length subs), id_auth = [0, 0, 0, 0, 0, auth],
      sub_auths = subs @ replicate (15 - length subs) 0\<rparr>"

definition global_sid_System :: dom_sid where
  "global_sid_System = const_sid 5 [18]"

definition global_sid_World :: dom_sid where
  "global_sid_World = const_sid 1 [0]"

definition global_sid_Authenticated_Users :: dom_sid where
  "global_sid_Authenticated_Users = const_sid 5 [11]"

definition global_sid_Creator_Owner :: dom_sid where
  "global_sid_Creator_Owner = const_sid 3 [0]"

definition global_sid_Creator_Group :: dom_sid where
  "global_sid_Creator_Group = const_sid 3 [1]"

definition global_sid_Owner_Rights :: dom_sid where
  "global_sid_Owner_Rights = const_sid 3 [4]"

definition global_sid_Anonymous :: dom_sid where
  "global_sid_Anonymous = const_sid 5 [7]"

definition global_sid_Enterprise_DCs :: dom_sid where
  "global_sid_Enterprise_DCs = const_sid 5 [9]"

definition global_sid_Builtin_Administrators :: dom_sid where
  "global_sid_Builtin_Administrators = const_sid 5 [32, 544]"

definition global_sid_Builtin_Guests :: dom_sid where
  "global_sid_Builtin_Guests = const_sid 5 [32, 546]"

definition global_sid_Unix_NFS :: dom_sid where
  "global_sid_Unix_NFS = const_sid 5 [88]"

section \<open>Comparison\<close>

text \<open>The loops over array entries that return at the first difference: the indices in the
  order the loop visits them, and how the C expression turns two entries into an \<open>int\<close>.\<close>

fun first_diff :: "('a \<Rightarrow> 'a \<Rightarrow> int) \<Rightarrow> 'a list \<Rightarrow> 'a list \<Rightarrow> nat list \<Rightarrow> int option" where
  "first_diff d xs ys [] = None"
| "first_diff d xs ys (i # is) =
     (if xs ! i \<noteq> ys ! i then Some (d (xs ! i) (ys ! i)) else first_diff d xs ys is)"

text \<open>\<open>uint8_t\<close> operands are promoted to \<open>int\<close>; the difference of two \<open>uint32_t\<close> is taken
  modulo \<open>2 ^ 32\<close> and then converted to \<open>int\<close>.\<close>

definition diff_u8 :: "u8 \<Rightarrow> u8 \<Rightarrow> int" where
  "diff_u8 a b = uint a - uint b"

definition diff_u32 :: "u32 \<Rightarrow> u32 \<Rightarrow> int" where
  "diff_u32 a b = sint (a - b)"

definition dom_sid_compare_auth :: "dom_sid option \<Rightarrow> dom_sid option \<Rightarrow> int" where
  "dom_sid_compare_auth sid1 sid2 =
     (case (sid1, sid2) of
        (None, None) \<Rightarrow> 0
      | (None, Some _) \<Rightarrow> -1
      | (Some _, None) \<Rightarrow> 1
      | (Some s1, Some s2) \<Rightarrow>
          if sid_rev_num s1 \<noteq> sid_rev_num s2
          then diff_u8 (sid_rev_num s1) (sid_rev_num s2)
          else (case first_diff diff_u8 (id_auth s1) (id_auth s2) [0..<6] of
                  Some r \<Rightarrow> r
                | None \<Rightarrow> 0))"

definition dom_sid_compare :: "dom_sid option \<Rightarrow> dom_sid option \<Rightarrow> int" where
  "dom_sid_compare sid1 sid2 =
     (case (sid1, sid2) of
        (None, None) \<Rightarrow> 0
      | (None, Some _) \<Rightarrow> -1
      | (Some _, None) \<Rightarrow> 1
      | (Some s1, Some s2) \<Rightarrow>
          if num_auths s1 \<noteq> num_auths s2
          then num_auths s1 - num_auths s2
          else (case first_diff diff_u32 (sub_auths s1) (sub_auths s2) (rev [0..<n_auths s1]) of
                  Some r \<Rightarrow> r
                | None \<Rightarrow> dom_sid_compare_auth sid1 sid2))"

definition dom_sid_equal :: "dom_sid option \<Rightarrow> dom_sid option \<Rightarrow> bool" where
  "dom_sid_equal sid1 sid2 \<longleftrightarrow> dom_sid_compare sid1 sid2 = 0"

definition dom_sid_compare_domain :: "dom_sid \<Rightarrow> dom_sid \<Rightarrow> int" where
  "dom_sid_compare_domain s1 s2 =
     (let n = nat (min (num_auths s1) (num_auths s2)) in
      case first_diff diff_u32 (sub_auths s1) (sub_auths s2) (rev [0..<n]) of
        Some r \<Rightarrow> r
      | None \<Rightarrow> dom_sid_compare_auth (Some s1) (Some s2))"

section \<open>RIDs and domains\<close>

text \<open>The comparison with \<open>ARRAY_SIZE\<close> is unsigned, so a negative \<open>num_auths\<close> is refused.
  The result is the return value and the structure afterwards.\<close>

definition sid_append_rid :: "dom_sid \<Rightarrow> u32 \<Rightarrow> bool \<times> dom_sid" where
  "sid_append_rid sid rid =
     (if 0 \<le> num_auths sid \<and> num_auths sid < 15
      then (True, sid\<lparr>sub_auths := (sub_auths sid)[n_auths sid := rid],
                      num_auths := num_auths sid + 1\<rparr>)
      else (False, sid))"

text \<open>\<open>talloc\<close> either fails or returns uninitialised memory: \<open>mem\<close> is \<open>None\<close> or the
  contents of the fresh \<open>sub_auths\<close> array, of which the copy overwrites the used part.\<close>

definition dom_sid_dup :: "u32 list option \<Rightarrow> dom_sid option \<Rightarrow> dom_sid option" where
  "dom_sid_dup mem sid =
     (case (sid, mem) of
        (None, _) \<Rightarrow> None
      | (Some s, None) \<Rightarrow> None
      | (Some s, Some junk) \<Rightarrow>
          Some \<lparr>sid_rev_num = sid_rev_num s, num_auths = num_auths s,
                id_auth = map (\<lambda>i. id_auth s ! i) [0..<6],
                sub_auths = map (\<lambda>i. sub_auths s ! i) [0..<n_auths s] @ drop (n_auths s) junk\<rparr>)"

definition dom_sid_add_rid :: "u32 list option \<Rightarrow> dom_sid option \<Rightarrow> u32 \<Rightarrow> dom_sid option" where
  "dom_sid_add_rid mem domain_sid rid =
     (case dom_sid_dup mem domain_sid of
        None \<Rightarrow> None
      | Some s \<Rightarrow> (case sid_append_rid s rid of (ok, s') \<Rightarrow> if ok then Some s' else None))"

text \<open>The out parameters are the second and third component; \<open>None\<close> where the caller
  passed no pointer (\<open>want_domain\<close>, \<open>want_rid\<close>) or nothing was written.\<close>

definition dom_sid_split_rid ::
    "u32 list option \<Rightarrow> dom_sid \<Rightarrow> bool \<Rightarrow> bool \<Rightarrow> NTSTATUS \<times> dom_sid option \<times> u32 option" where
  "dom_sid_split_rid mem sid want_domain want_rid =
     (if num_auths sid = 0 then (NT_STATUS_INVALID_PARAMETER, None, None)
      else
        let rid = (if want_rid then Some (sub_auths sid ! nat (num_auths sid - 1)) else None) in
        if want_domain then
          (case dom_sid_dup mem (Some sid) of
             None \<Rightarrow> (NT_STATUS_NO_MEMORY, None, None)
           | Some d \<Rightarrow> (NT_STATUS_OK, Some (d\<lparr>num_auths := num_auths d - 1\<rparr>), rid))
        else (NT_STATUS_OK, None, rid))"

text \<open>Here the loop's result is only that some pair differs.\<close>

definition dom_sid_in_domain :: "dom_sid option \<Rightarrow> dom_sid option \<Rightarrow> bool" where
  "dom_sid_in_domain domain_sid sid =
     (case (domain_sid, sid) of
        (Some d, Some s) \<Rightarrow>
          if num_auths s < 2 then False
          else if num_auths d \<noteq> num_auths s - 1 then False
          else if first_diff diff_u32 (sub_auths d) (sub_auths s) (rev [0..<n_auths d]) \<noteq> None
          then False
          else dom_sid_compare_auth domain_sid sid = 0
      | _ \<Rightarrow> False)"

definition dom_sid_is_valid_account_domain :: "dom_sid option \<Rightarrow> bool" where
  "dom_sid_is_valid_account_domain sid =
     (case sid of
        None \<Rightarrow> False
      | Some s \<Rightarrow>
          if sid_rev_num s \<noteq> 1 then False
          else if num_auths s \<noteq> 4 then False
          else if id_auth s ! 5 \<noteq> 5 then False
          else if id_auth s ! 4 \<noteq> 0 then False
          else if id_auth s ! 3 \<noteq> 0 then False
          else if id_auth s ! 2 \<noteq> 0 then False
          else if id_auth s ! 1 \<noteq> 0 then False
          else if id_auth s ! 0 \<noteq> 0 then False
          else if sub_auths s ! 0 \<noteq> 21 then False
          else if sub_auths s ! 1 = 0 then False
          else if sub_auths s ! 2 = 0 then False
          else if sub_auths s ! 3 = 0 then False
          else True)"

section \<open>The string form\<close>

definition UINT32_MAX :: nat where
  "UINT32_MAX = 2 ^ 32 - 1"

text \<open>The identifier authority as one number, big-endian (\<open>uint64_t ia\<close>).\<close>

definition sid_ia :: "dom_sid \<Rightarrow> u64" where
  "sid_ia sid =
     ucast (id_auth sid ! 5)
     + push_bit 8 (ucast (id_auth sid ! 4))
     + push_bit 16 (ucast (id_auth sid ! 3))
     + push_bit 24 (ucast (id_auth sid ! 2))
     + push_bit 32 (ucast (id_auth sid ! 1))
     + push_bit 40 (ucast (id_auth sid ! 0))"

definition sub_auths_string :: "dom_sid \<Rightarrow> string" where
  "sub_auths_string sid =
     concat (map (\<lambda>i. ''-'' @ print_dec (unat (sub_auths sid ! i))) [0..<n_auths sid])"

text \<open>Everything the calls of \<open>snprintf\<close> would write into a buffer without limit.\<close>

definition dom_sid_full_string :: "dom_sid option \<Rightarrow> string" where
  "dom_sid_full_string sid =
     (case sid of
        None \<Rightarrow> ''(NULL SID)''
      | Some s \<Rightarrow>
          ''S-'' @ print_dec (unat (sid_rev_num s)) @ ''-''
          @ (if unat (sid_ia s) \<ge> UINT32_MAX then ''0x'' @ print_hex (unat (sid_ia s))
             else print_dec (unat (sid_ia s)))
          @ sub_auths_string s)"

text \<open>What ends up in the buffer, and the returned length of the untruncated string.\<close>

definition dom_sid_string_buf :: "dom_sid option \<Rightarrow> nat \<Rightarrow> string \<times> nat" where
  "dom_sid_string_buf sid buflen =
     (take (buflen - 1) (dom_sid_full_string sid), length (dom_sid_full_string sid))"

definition DOM_SID_STR_BUFLEN :: nat where
  "DOM_SID_STR_BUFLEN = 15 * 11 + 25"

definition dom_sid_string :: "dom_sid option \<Rightarrow> string" where
  "dom_sid_string sid =
     (let (buf, len) = dom_sid_string_buf sid DOM_SID_STR_BUFLEN in
      if len + 1 > DOM_SID_STR_BUFLEN then ''(SID ERR)'' else take len buf)"

definition dom_sid_str_buf :: "dom_sid option \<Rightarrow> string" where
  "dom_sid_str_buf sid =
     (let (buf, ret) = dom_sid_string_buf sid DOM_SID_STR_BUFLEN in
      if ret \<ge> DOM_SID_STR_BUFLEN then ''(INVALID SID)'' else buf)"

section \<open>The parser\<close>

text \<open>The loop over \<open>-rid\<close>, with \<open>None\<close> for \<open>format_error\<close> and for too many RIDs.\<close>

function parse_sub_auths :: "dom_sid \<Rightarrow> string \<Rightarrow> (dom_sid \<times> string) option" where
  "parse_sub_auths sid q =
     (if \<not> isdigit_at q then None
      else if snd (strtoull 10 q) = q \<or> fst (strtoull 10 q) > UINT32_MAX then None
      else if \<not> fst (sid_append_rid sid (of_nat (fst (strtoull 10 q)))) then None
      else
        (case snd (strtoull 10 q) of
           [] \<Rightarrow> Some (snd (sid_append_rid sid (of_nat (fst (strtoull 10 q)))), [])
         | c # t \<Rightarrow>
             if c = CHR ''-''
             then parse_sub_auths (snd (sid_append_rid sid (of_nat (fst (strtoull 10 q))))) t
             else Some (snd (sid_append_rid sid (of_nat (fst (strtoull 10 q)))), c # t)))"
  by pat_completeness auto
termination
proof (relation "measure (\<lambda>(sid, q). length q)")
  fix sid :: dom_sid and q c t
  assume "\<not> \<not> isdigit_at q" "snd (strtoull 10 q) = c # t"
  then show "((snd (sid_append_rid sid (of_nat (fst (strtoull 10 q)))), t), sid, q)
      \<in> measure (\<lambda>(sid, q). length q)"
    using strtoull_10_consumes [of q] by simp
qed simp

declare parse_sub_auths.simps [simp del]

text \<open>\<open>conv & mask >> shift\<close>, converted to \<open>uint8_t\<close>.\<close>

definition id_auth_of :: "u64 \<Rightarrow> u8 list" where
  "id_auth_of conv =
     [ucast (drop_bit 40 (conv AND 0xff0000000000)),
      ucast (drop_bit 32 (conv AND 0x00ff00000000)),
      ucast (drop_bit 24 (conv AND 0x0000ff000000)),
      ucast (drop_bit 16 (conv AND 0x000000ff0000)),
      ucast (drop_bit 8 (conv AND 0x00000000ff00)),
      ucast (conv AND 0x0000000000ff)]"

definition AUTHORITY_MASK :: u64 where
  "AUTHORITY_MASK = NOT 0xffffffffffff"

text \<open>The part after the revision number.\<close>

definition parse_identauth :: "dom_sid \<Rightarrow> string \<Rightarrow> (dom_sid \<times> string) option" where
  "parse_identauth sid q =
     (if \<not> isdigit_at q then None
      else
        let (conv, q') = strtoull 0 q in
        if flag (of_nat conv) AUTHORITY_MASK then None
        else
          let sid' = sid\<lparr>id_auth := id_auth_of (of_nat conv), num_auths := 0\<rparr> in
          (case q' of
             c # t \<Rightarrow> if c = CHR ''-'' then parse_sub_auths sid' t else Some (sid', q')
           | [] \<Rightarrow> Some (sid', q')))"

definition dom_sid_parse_endp :: "string \<Rightarrow> (dom_sid \<times> string) option" where
  "dom_sid_parse_endp sidstr =
     (case sidstr of
        c0 # c1 # p \<Rightarrow>
          if (c0 \<noteq> CHR ''S'' \<and> c0 \<noteq> CHR ''s'') \<or> c1 \<noteq> CHR ''-'' then None
          else if \<not> isdigit_at p then None
          else
            let (conv, q) = strtoull 10 p in
            (case q of
               [] \<Rightarrow> None
             | d # q' \<Rightarrow>
                 if d \<noteq> CHR ''-'' \<or> conv > 255 then None
                 else parse_identauth (zero_sid\<lparr>sid_rev_num := of_nat conv\<rparr>) q')
      | _ \<Rightarrow> None)"

definition dom_sid_parse :: "string \<Rightarrow> dom_sid option" where
  "dom_sid_parse sidstr = map_option fst (dom_sid_parse_endp sidstr)"

definition dom_sid_parse_talloc :: "u32 list option \<Rightarrow> string \<Rightarrow> dom_sid option" where
  "dom_sid_parse_talloc mem sidstr = (if mem = None then None else dom_sid_parse sidstr)"

text \<open>The blob is copied into a terminated buffer, where the C string ends at the first zero
  byte.\<close>

definition dom_sid_parse_length :: "u32 list option \<Rightarrow> string \<Rightarrow> dom_sid option" where
  "dom_sid_parse_length mem blob = dom_sid_parse_talloc mem (takeWhile (\<lambda>c. c \<noteq> CHR 0x00) blob)"

section \<open>Comparison: lemmas\<close>

lemma diff_u8_eq_0 [simp]: "diff_u8 a b = 0 \<longleftrightarrow> a = b"
  by (simp add: diff_u8_def word_uint_eq_iff)

lemma diff_u32_eq_0 [simp]: "diff_u32 a b = 0 \<longleftrightarrow> a = b"
  by (simp add: diff_u32_def signed_eq_0_iff)

lemma first_diff_None: "first_diff d xs ys is = None \<longleftrightarrow> (\<forall>i \<in> set is. xs ! i = ys ! i)"
  by (induction "is") auto

lemma first_diff_neq_0:
  assumes "\<And>a b. d a b = 0 \<longleftrightarrow> a = b"
  shows "first_diff d xs ys is \<noteq> Some 0"
  by (induction "is") (auto simp: assms)

text \<open>Two SIDs with the same used contents.\<close>

definition sid_same :: "dom_sid \<Rightarrow> dom_sid \<Rightarrow> bool" where
  "sid_same s1 s2 \<longleftrightarrow>
     sid_rev_num s1 = sid_rev_num s2 \<and> num_auths s1 = num_auths s2 \<and>
     (\<forall>i < 6. id_auth s1 ! i = id_auth s2 ! i) \<and>
     (\<forall>i < n_auths s1. sub_auths s1 ! i = sub_auths s2 ! i)"

lemma dom_sid_compare_auth_eq_0:
  "dom_sid_compare_auth (Some s1) (Some s2) = 0 \<longleftrightarrow>
     sid_rev_num s1 = sid_rev_num s2 \<and> (\<forall>i < 6. id_auth s1 ! i = id_auth s2 ! i)"
  using first_diff_neq_0 [of diff_u8 "id_auth s1" "id_auth s2" "[0..<6]"]
    first_diff_None [of diff_u8 "id_auth s1" "id_auth s2" "[0..<6]"]
  by (auto simp: dom_sid_compare_auth_def split: option.splits)

lemma dom_sid_compare_eq_0:
  "dom_sid_compare (Some s1) (Some s2) = 0 \<longleftrightarrow> sid_same s1 s2"
  using first_diff_neq_0 [of diff_u32 "sub_auths s1" "sub_auths s2" "rev [0..<n_auths s1]"]
    first_diff_None [of diff_u32 "sub_auths s1" "sub_auths s2" "rev [0..<n_auths s1]"]
  by (auto simp: dom_sid_compare_def sid_same_def dom_sid_compare_auth_eq_0 split: option.splits)

lemma dom_sid_compare_refl [simp]: "dom_sid_compare s s = 0"
  by (cases s) (simp_all add: dom_sid_compare_eq_0 sid_same_def, simp add: dom_sid_compare_def)

lemma dom_sid_equal_Some [simp]: "dom_sid_equal (Some s1) (Some s2) \<longleftrightarrow> sid_same s1 s2"
  by (simp add: dom_sid_equal_def dom_sid_compare_eq_0)

lemma dom_sid_equal_None [simp]:
  "dom_sid_equal None None" "\<not> dom_sid_equal None (Some s)" "\<not> dom_sid_equal (Some s) None"
  by (simp_all add: dom_sid_equal_def dom_sid_compare_def)

lemma dom_sid_equal_refl [simp]: "dom_sid_equal s s"
  by (simp add: dom_sid_equal_def)

lemma sid_same_sym: "sid_same s1 s2 \<Longrightarrow> sid_same s2 s1"
  by (auto simp: sid_same_def)

lemma sid_same_trans: "sid_same s1 s2 \<Longrightarrow> sid_same s2 s3 \<Longrightarrow> sid_same s1 s3"
  by (auto simp: sid_same_def)

lemma dom_sid_equal_sym: "dom_sid_equal s1 s2 \<longleftrightarrow> dom_sid_equal s2 s1"
  by (cases s1; cases s2) (auto dest: sid_same_sym)

lemma dom_sid_equal_trans: "dom_sid_equal s1 s2 \<Longrightarrow> dom_sid_equal s2 s3 \<Longrightarrow> dom_sid_equal s1 s3"
  by (cases s1; cases s2; cases s3) (auto dest: sid_same_trans)

text \<open>Nothing is left in the unused sub-authorities.\<close>

definition sid_canonical :: "dom_sid \<Rightarrow> bool" where
  "sid_canonical s \<longleftrightarrow> sid_wf s \<and> (\<forall>i. n_auths s \<le> i \<and> i < 15 \<longrightarrow> sub_auths s ! i = 0)"

lemma sid_same_canonical:
  assumes "sid_canonical s1" "sid_canonical s2"
  shows "sid_same s1 s2 \<longleftrightarrow> s1 = s2"
proof
  assume same: "sid_same s1 s2"
  have "sub_auths s1 ! i = sub_auths s2 ! i" if "i < 15" for i
    using same assms that by (cases "i < n_auths s1") (auto simp: sid_same_def sid_canonical_def)
  then have "sub_auths s1 = sub_auths s2"
    using assms by (intro nth_equalityI) (auto simp: sid_canonical_def sid_wf_def)
  moreover have "id_auth s1 = id_auth s2"
    using same assms by (intro nth_equalityI) (auto simp: sid_same_def sid_canonical_def sid_wf_def)
  ultimately show "s1 = s2" using same by (simp add: sid_same_def)
qed (simp add: sid_same_def)

lemma const_sid_canonical:
  "length subs \<le> 15 \<Longrightarrow> sid_canonical (const_sid auth subs)"
  by (auto simp: sid_canonical_def sid_wf_def const_sid_def nth_append)

section \<open>RIDs: lemmas\<close>

lemma sid_append_rid_wf:
  "sid_wf s \<Longrightarrow> sid_append_rid s rid = (ok, s') \<Longrightarrow> sid_wf s'"
  by (auto simp: sid_append_rid_def sid_wf_def split: if_splits)

lemma sid_append_rid_canonical:
  "sid_canonical s \<Longrightarrow> sid_append_rid s rid = (ok, s') \<Longrightarrow> sid_canonical s'"
  by (auto simp: sid_append_rid_def sid_canonical_def sid_wf_def nth_list_update nat_add_distrib
      split: if_splits)

lemma dom_sid_dup_same:
  assumes "sid_wf s" "length junk = 15"
  shows "\<exists>s'. dom_sid_dup (Some junk) (Some s) = Some s' \<and> sid_wf s' \<and> sid_same s' s"
  using assms
  by (auto simp: dom_sid_dup_def sid_wf_def sid_same_def nth_append)

section \<open>The string form: lemmas\<close>

text \<open>Text that may follow a SID without being taken for a part of it.\<close>

definition sid_end_ahead :: "string \<Rightarrow> bool" where
  "sid_end_ahead s = (case s of [] \<Rightarrow> True
     | c # _ \<Rightarrow> \<not> is_base_digit 16 c \<and> c \<noteq> CHR ''-'' \<and> c \<noteq> CHR ''x'' \<and> c \<noteq> CHR ''X'')"

lemma is_base_digit_mono: "is_base_digit b c \<Longrightarrow> b \<le> b' \<Longrightarrow> is_base_digit b' c"
  by (auto simp: is_base_digit_def split: option.splits)

lemma sid_end_ahead_digit: "sid_end_ahead s \<Longrightarrow> b \<le> 16 \<Longrightarrow> no_digit_ahead b s"
  by (auto simp: sid_end_ahead_def no_digit_ahead_def dest: is_base_digit_mono split: list.splits)

lemma no_digit_ahead_minus: "b \<le> 16 \<Longrightarrow> no_digit_ahead b (CHR ''-'' # s)"
  by (simp add: no_digit_ahead_def is_base_digit_def digit_val_def)

lemma print_dec_digits: "\<forall>c \<in> set (print_dec n). is_base_digit 10 c"
  unfolding print_dec_def by (rule print_base_digits) simp_all

lemma isdigit_at_print_dec [simp]: "isdigit_at (print_dec n @ s)"
  using print_dec_digits [of n]
  by (cases "print_dec n") (auto simp: isdigit_at_def isdigit_def print_dec_def)

lemma strtoull_10_print_dec [codec_simps]:
  "n \<le> ULLONG_MAX \<Longrightarrow> no_digit_ahead 10 s \<Longrightarrow> strtoull 10 (print_dec n @ s) = (n, s)"
  by (simp add: strtoull_def print_dec_def strtoull_digits_print_base)

lemma unat_u32_le: "unat (u :: u32) \<le> UINT32_MAX"
proof -
  have "unat u < 2 ^ LENGTH(32)" by (rule unsigned_less)
  then show ?thesis by (simp add: UINT32_MAX_def)
qed

lemma unat_u32_ull: "unat (u :: u32) \<le> ULLONG_MAX"
  using unat_u32_le [of u] by (simp add: UINT32_MAX_def ULLONG_MAX_def)

text \<open>The sub-authorities the loop appends, one after the other.\<close>

definition append_rids :: "dom_sid \<Rightarrow> u32 list \<Rightarrow> dom_sid" where
  "append_rids s us = foldl (\<lambda>s u. snd (sid_append_rid s u)) s us"

lemma append_rids_eq:
  assumes "sid_wf s" "n_auths s + length us \<le> 15"
  shows "append_rids s us =
    s\<lparr>sub_auths := take (n_auths s) (sub_auths s) @ us @ drop (n_auths s + length us) (sub_auths s),
      num_auths := num_auths s + int (length us)\<rparr>"
  using assms
proof (induction us arbitrary: s)
  case Nil
  then show ?case by (simp add: append_rids_def)
next
  case (Cons u us)
  let ?s = "snd (sid_append_rid s u)"
  have app: "?s = s\<lparr>sub_auths := (sub_auths s)[n_auths s := u], num_auths := num_auths s + 1\<rparr>"
    using Cons.prems by (auto simp: sid_append_rid_def sid_wf_def)
  have wf: "sid_wf ?s" using Cons.prems by (auto simp: app sid_wf_def)
  have n: "n_auths ?s = Suc (n_auths s)" using Cons.prems by (auto simp: app sid_wf_def)
  have take: "take (Suc (n_auths s)) (sub_auths ?s) = take (n_auths s) (sub_auths s) @ [u]"
    using Cons.prems by (auto simp: app take_Suc_conv_app_nth sid_wf_def)
  have drop: "drop (Suc (n_auths s) + length us) (sub_auths ?s)
      = drop (Suc (n_auths s + length us)) (sub_auths s)"
    by (simp add: app)
  have "append_rids s (u # us) = append_rids ?s us" by (simp add: append_rids_def)
  also have "\<dots> = ?s\<lparr>sub_auths := take (n_auths ?s) (sub_auths ?s) @ us
      @ drop (n_auths ?s + length us) (sub_auths ?s), num_auths := num_auths ?s + int (length us)\<rparr>"
    using Cons.prems n by (intro Cons.IH wf) simp
  finally show ?case by (simp only: n take drop) (simp add: app)
qed

lemma parse_sub_auths_step:
  assumes "unat u \<le> UINT32_MAX" "no_digit_ahead 10 s" "sid_wf sid" "n_auths sid < 15"
  shows "parse_sub_auths sid (print_dec (unat (u :: u32)) @ s) =
    (case s of [] \<Rightarrow> Some (snd (sid_append_rid sid u), [])
     | c # t \<Rightarrow> if c = CHR ''-'' then parse_sub_auths (snd (sid_append_rid sid u)) t
               else Some (snd (sid_append_rid sid u), c # t))"
proof -
  have "print_dec (unat u) @ s \<noteq> s" by (simp add: print_dec_def)
  moreover have "fst (sid_append_rid sid u)"
    using assms by (simp add: sid_append_rid_def sid_wf_def)
  moreover have st: "strtoull 10 (print_dec (unat u) @ s) = (unat u, s)"
    using assms(2) unat_u32_ull by (rule strtoull_10_print_dec [rotated])
  moreover have u: "of_nat (unat u) = u" by simp
  ultimately show ?thesis
    using assms(1)
    unfolding parse_sub_auths.simps [of sid "print_dec (unat u) @ s"] st fst_conv snd_conv u
    by simp
qed

abbreviation dash_rids :: "u32 list \<Rightarrow> string" where
  "dash_rids us \<equiv> concat (map (\<lambda>u. CHR ''-'' # print_dec (unat u)) us)"

lemma parse_sub_auths_print [codec_simps]:
  assumes "sid_wf sid" "n_auths sid + length us < 15" "sid_end_ahead s"
  shows "parse_sub_auths sid (print_dec (unat u) @ dash_rids us @ s)
    = Some (append_rids sid (u # us), s)"
  using assms
proof (induction us arbitrary: sid u)
  case Nil
  then show ?case
    by (auto simp: parse_sub_auths_step sid_end_ahead_digit unat_u32_le append_rids_def
        sid_end_ahead_def split: list.splits)
next
  case (Cons v us)
  let ?sid = "snd (sid_append_rid sid u)"
  have wf: "sid_wf ?sid"
    using Cons.prems(1) by (metis prod.collapse sid_append_rid_wf)
  have n: "n_auths ?sid = Suc (n_auths sid)"
    using Cons.prems by (auto simp: sid_append_rid_def sid_wf_def)
  have "parse_sub_auths sid (print_dec (unat u) @ dash_rids (v # us) @ s)
      = parse_sub_auths ?sid (print_dec (unat v) @ dash_rids us @ s)"
    using Cons.prems by (simp add: parse_sub_auths_step no_digit_ahead_minus unat_u32_le)
  also have "\<dots> = Some (append_rids ?sid (v # us), s)"
    using Cons.prems n by (intro Cons.IH wf) simp_all
  finally show ?case by (simp add: append_rids_def)
qed

lemma sub_auths_string_eq:
  assumes "sid_wf s"
  shows "sub_auths_string s = dash_rids (take (n_auths s) (sub_auths s))"
proof -
  have "take (n_auths s) (sub_auths s) = map (\<lambda>i. sub_auths s ! i) [0..<n_auths s]"
    using assms by (intro nth_equalityI) (auto simp: sid_wf_def)
  then show ?thesis by (simp add: sub_auths_string_def comp_def)
qed

text \<open>The six bytes of the identifier authority survive the trip through a number.\<close>

lemma byte_masks:
  "(0xff0000000000 :: u64) = push_bit 40 (mask 8)"
  "(0x00ff00000000 :: u64) = push_bit 32 (mask 8)"
  "(0x0000ff000000 :: u64) = push_bit 24 (mask 8)"
  "(0x000000ff0000 :: u64) = push_bit 16 (mask 8)"
  "(0x00000000ff00 :: u64) = push_bit 8 (mask 8)"
  "(0x0000000000ff :: u64) = mask 8"
  by (simp_all add: mask_eq_exp_minus_1 push_bit_eq_mult)

lemma sid_ia_or:
  "sid_ia sid =
     ((((ucast (id_auth sid ! 5) OR push_bit 8 (ucast (id_auth sid ! 4)))
     OR push_bit 16 (ucast (id_auth sid ! 3))) OR push_bit 24 (ucast (id_auth sid ! 2)))
     OR push_bit 32 (ucast (id_auth sid ! 1))) OR push_bit 40 (ucast (id_auth sid ! 0))"
  unfolding sid_ia_def
  by (subst disjunctive_add, force simp: bit_simps dest: bit_imp_le_length)+ (rule refl)

lemma id_auth_of_bytes:
  fixes a b c d e f :: u8
  defines "ia \<equiv> ((((ucast f OR push_bit 8 (ucast e)) OR push_bit 16 (ucast d))
     OR push_bit 24 (ucast c)) OR push_bit 32 (ucast b)) OR (push_bit 40 (ucast a) :: u64)"
  shows "id_auth_of ia = [a, b, c, d, e, f]"
proof -
  have "ucast (drop_bit 40 (ia AND push_bit 40 (mask 8))) = a"
      "ucast (drop_bit 32 (ia AND push_bit 32 (mask 8))) = b"
      "ucast (drop_bit 24 (ia AND push_bit 24 (mask 8))) = c"
      "ucast (drop_bit 16 (ia AND push_bit 16 (mask 8))) = d"
      "ucast (drop_bit 8 (ia AND push_bit 8 (mask 8))) = e"
      "ucast (ia AND mask 8) = f"
    unfolding ia_def by (rule bit_word_eqI, force simp: bit_simps dest: bit_imp_le_length)+
  then show ?thesis unfolding id_auth_of_def byte_masks by simp
qed

lemma id_auth_of_sid_ia:
  assumes "sid_wf sid"
  shows "id_auth_of (sid_ia sid) = id_auth sid"
proof -
  have "id_auth sid = map (\<lambda>i. id_auth sid ! i) [0..<6]"
    using assms by (intro nth_equalityI) (auto simp: sid_wf_def)
  also have "[0..<6] = [0, 1, 2, 3, 4, 5]" by (simp add: upt_rec)
  finally show ?thesis unfolding sid_ia_or id_auth_of_bytes list.map by (rule sym)
qed

lemma sid_ia_bit: "bit (sid_ia sid) n \<Longrightarrow> n < 48"
  unfolding sid_ia_or by (auto simp: bit_simps dest: bit_imp_le_length)

lemma sid_ia_mask: "\<not> flag (sid_ia sid) AUTHORITY_MASK"
proof -
  have m: "AUTHORITY_MASK = NOT (mask 48)" by (simp add: AUTHORITY_MASK_def mask_eq_exp_minus_1)
  show ?thesis
    unfolding flag_iff_bit m by (auto simp: bit_not_iff bit_mask_iff dest: sid_ia_bit)
qed

lemma sid_ia_less: "unat (sid_ia sid) < 2 ^ 48"
proof -
  have "take_bit 48 (sid_ia sid) = sid_ia sid"
    by (rule bit_word_eqI) (auto simp: bit_take_bit_iff dest: sid_ia_bit)
  then have "unat (sid_ia sid) = unat (take_bit 48 (sid_ia sid))" by (simp only:)
  also have "\<dots> = take_bit 48 (unat (sid_ia sid))" by (rule unsigned_take_bit_eq)
  also have "\<dots> < 2 ^ 48" by (rule take_bit_nat_less_exp)
  finally show ?thesis .
qed

text \<open>Base 0 recovers both notations of the identifier authority.\<close>

lemma print_base_first:
  assumes "2 \<le> b" "0 < n"
  shows "\<exists>d t. print_base b n = digit_char d # t \<and> 0 < d \<and> d < b"
  using assms
proof (induction b n rule: print_base.induct)
  case (1 b n)
  show ?case
  proof (cases "n < b")
    case True
    with "1.prems" show ?thesis by (subst print_base.simps) auto
  next
    case False
    with "1.prems" have "0 < n div b" by (simp add: div_greater_zero_iff)
    with False "1.prems" "1.IH" obtain d t
      where "print_base b (n div b) = digit_char d # t \<and> 0 < d \<and> d < b" by auto
    with False "1.prems" show ?thesis by (subst print_base.simps) auto
  qed
qed

lemma digit_char_eq_0: "d < 16 \<Longrightarrow> digit_char d = CHR ''0'' \<longleftrightarrow> d = 0"
proof -
  have "\<forall>d \<in> set [0..<16]. digit_char d = CHR ''0'' \<longleftrightarrow> d = 0" by code_simp
  then show "d < 16 \<Longrightarrow> digit_char d = CHR ''0'' \<longleftrightarrow> d = 0" by simp
qed

lemma strtoull_0_dec [codec_simps]:
  assumes "n \<le> ULLONG_MAX" "no_digit_ahead 10 s"
    and "n = 0 \<longrightarrow> no_digit_ahead 8 s \<and> (\<forall>t. s \<noteq> CHR ''x'' # t \<and> s \<noteq> CHR ''X'' # t)"
  shows "strtoull 0 (print_dec n @ s) = (n, s)"
proof (cases "n = 0")
  case True
  have "print_dec 0 = ''0''" by (simp add: print_dec_def print_base.simps digit_char_def digit_chars_def)
  moreover have "print_base 8 0 = ''0''" by (simp add: print_base.simps digit_char_def digit_chars_def)
  ultimately show ?thesis
    using True assms strtoull_digits_print_base [of 8 0 s]
    by (auto simp: strtoull_def split: list.splits)
next
  case False
  then obtain d t where p: "print_dec n = digit_char d # t" "0 < d" "d < 10"
    using print_base_first [of 10 n] by (auto simp: print_dec_def)
  then have "strtoull 0 (print_dec n @ s) = strtoull_digits 10 (print_dec n @ s)"
    by (auto simp: strtoull_def digit_char_eq_0 split: list.splits)
  then show ?thesis using assms by (simp add: print_dec_def strtoull_digits_print_base)
qed

lemma strtoull_0_hex [codec_simps]:
  assumes "n \<le> ULLONG_MAX" "no_digit_ahead 16 s"
  shows "strtoull 0 (CHR ''0'' # CHR ''x'' # print_hex n @ s) = (n, s)"
proof -
  obtain c t where p: "print_hex n @ s = c # t" "is_base_digit 16 c"
    using print_base_digits [of 16 n] print_base_not_Nil [of 16 n]
    by (cases "print_base 16 n") (auto simp: print_hex_def)
  then have "strtoull 0 (CHR ''0'' # CHR ''x'' # print_hex n @ s)
      = strtoull_digits 16 (print_hex n @ s)"
    by (simp add: strtoull_def)
  then show ?thesis using assms by (simp add: print_hex_def strtoull_digits_print_base)
qed

text \<open>The string fits the buffer with room to spare, so the error texts never appear.\<close>

lemma print_dec_length: "n < 10 ^ k \<Longrightarrow> 0 < k \<Longrightarrow> length (print_dec n) \<le> k"
  unfolding print_dec_def by (rule print_base_length_le) simp_all

lemma print_hex_length: "n < 16 ^ k \<Longrightarrow> 0 < k \<Longrightarrow> length (print_hex n) \<le> k"
  unfolding print_hex_def by (rule print_base_length_le) simp_all

lemma dash_rids_length: "length (dash_rids us) \<le> 11 * length us"
proof (induction us)
  case (Cons u us)
  have "length (print_dec (unat u)) \<le> 10"
    using unat_u32_le [of u] by (intro print_dec_length) (simp_all add: UINT32_MAX_def)
  with Cons.IH show ?case by simp
qed simp

lemma dom_sid_full_string_length:
  assumes "sid_wf s"
  shows "length (dom_sid_full_string (Some s)) \<le> 185"
proof -
  have "unat (sid_rev_num s) < 2 ^ LENGTH(8)" by (rule unsigned_less)
  then have rev: "length (print_dec (unat (sid_rev_num s))) \<le> 3"
    by (intro print_dec_length) simp_all
  have hex: "length (print_hex (unat (sid_ia s))) \<le> 12"
    using sid_ia_less [of s] by (intro print_hex_length) simp_all
  have dec: "length (print_dec (unat (sid_ia s))) \<le> 10" if "\<not> unat (sid_ia s) \<ge> UINT32_MAX"
    using that by (intro print_dec_length) (simp_all add: UINT32_MAX_def)
  have "length (sub_auths_string s) \<le> 11 * 15"
    using dash_rids_length [of "take (n_auths s) (sub_auths s)"] assms
    by (simp add: sub_auths_string_eq sid_wf_def)
  with rev hex dec show ?thesis by (auto simp: dom_sid_full_string_def)
qed

lemma dom_sid_string_eq:
  assumes "sid_wf s"
  shows "dom_sid_string (Some s) = dom_sid_full_string (Some s)"
  using dom_sid_full_string_length [OF assms]
  by (simp add: dom_sid_string_def dom_sid_string_buf_def DOM_SID_STR_BUFLEN_def)

lemma append_rids_canonical:
  assumes "sid_canonical s" "t = zero_sid\<lparr>sid_rev_num := sid_rev_num s, id_auth := id_auth s\<rparr>"
  shows "append_rids t (take (n_auths s) (sub_auths s)) = s"
proof -
  let ?us = "take (n_auths s) (sub_auths s)"
  have wf: "sid_wf s" "sid_wf t" and len: "length ?us = n_auths s"
    using assms by (auto simp: sid_canonical_def sid_wf_def zero_sid_def)
  have "append_rids t ?us = t\<lparr>sub_auths := ?us @ replicate (15 - n_auths s) 0, num_auths := num_auths s\<rparr>"
    using wf assms(2) by (subst append_rids_eq) (auto simp: zero_sid_def sid_wf_def min_def)
  moreover have "?us @ replicate (15 - n_auths s) 0 = sub_auths s"
    using assms(1) len
    by (intro nth_equalityI) (auto simp: sid_canonical_def sid_wf_def nth_append)
  ultimately show ?thesis using assms(2) by (simp add: zero_sid_def)
qed

lemma parse_identauth_print:
  assumes "sid_canonical s" "sid_end_ahead rest"
    and sid: "sid = zero_sid\<lparr>sid_rev_num := sid_rev_num s\<rparr>"
  shows "parse_identauth sid
      ((if unat (sid_ia s) \<ge> UINT32_MAX then ''0x'' @ print_hex (unat (sid_ia s))
        else print_dec (unat (sid_ia s))) @ sub_auths_string s @ rest) = Some (s, rest)"
    (is "parse_identauth sid (?ia @ ?subs @ rest) = _")
proof -
  have wf: "sid_wf s" using assms by (simp add: sid_canonical_def)
  define us where "us = take (n_auths s) (sub_auths s)"
  have subs: "?subs = dash_rids us" using wf by (simp add: sub_auths_string_eq us_def)
  have ahead: "no_digit_ahead b (?subs @ rest)" if "b \<le> 16" for b
    using that assms(2) unfolding subs
    by (cases us) (auto simp: sid_end_ahead_digit no_digit_ahead_minus)
  have x: "\<forall>t. ?subs @ rest \<noteq> CHR ''x'' # t \<and> ?subs @ rest \<noteq> CHR ''X'' # t"
    using assms(2) unfolding subs by (cases us) (auto simp: sid_end_ahead_def)
  have max: "unat (sid_ia s) \<le> ULLONG_MAX"
    using sid_ia_less [of s] by (simp add: ULLONG_MAX_def)
  have conv: "strtoull 0 (?ia @ ?subs @ rest) = (unat (sid_ia s), ?subs @ rest)"
    using max ahead x by (simp add: strtoull_0_hex strtoull_0_dec)
  have "isdigit_at (''0x'' @ t)" for t
    by (simp add: isdigit_at_def isdigit_def is_base_digit_def digit_val_def)
  then have digit: "isdigit_at (?ia @ ?subs @ rest)" by simp
  let ?t = "zero_sid\<lparr>sid_rev_num := sid_rev_num s, id_auth := id_auth s\<rparr>"
  have t: "sid\<lparr>id_auth := id_auth_of (sid_ia s), num_auths := 0\<rparr> = ?t"
    using wf by (simp add: sid id_auth_of_sid_ia zero_sid_def)
  have app: "append_rids ?t us = s"
    using append_rids_canonical [OF assms(1)] by (simp add: us_def)
  have w: "of_nat (unat (sid_ia s)) = sid_ia s" by simp
  have "parse_identauth sid (?ia @ ?subs @ rest)
      = (case ?subs @ rest of
           c # t \<Rightarrow> if c = CHR ''-'' then parse_sub_auths ?t t else Some (?t, ?subs @ rest)
         | [] \<Rightarrow> Some (?t, ?subs @ rest))"
    unfolding parse_identauth_def conv Let_def prod.case w t
    using digit sid_ia_mask [of s] by simp
  also have "\<dots> = Some (append_rids ?t us, rest)"
  proof (cases us)
    case Nil
    with assms(2) show ?thesis
      by (auto simp: subs sid_end_ahead_def append_rids_def split: list.splits)
  next
    case (Cons u vs)
    have "length us \<le> 15" "sid_wf ?t" "n_auths ?t = 0"
      using wf by (auto simp: us_def sid_wf_def zero_sid_def)
    with Cons assms(2) show ?thesis by (simp add: subs parse_sub_auths_print)
  qed
  finally show ?thesis by (simp add: app)
qed

lemma dom_sid_parse_endp_print:
  assumes "sid_canonical s" "sid_end_ahead rest"
  shows "dom_sid_parse_endp (dom_sid_string (Some s) @ rest) = Some (s, rest)"
proof -
  have rev: "unat (sid_rev_num s) \<le> 255"
  proof -
    have "unat (sid_rev_num s) < 2 ^ LENGTH(8)" by (rule unsigned_less)
    then show ?thesis by simp
  qed
  have w: "of_nat (unat (sid_rev_num s)) = sid_rev_num s" by simp
  let ?tail = "(if unat (sid_ia s) \<ge> UINT32_MAX then ''0x'' @ print_hex (unat (sid_ia s))
     else print_dec (unat (sid_ia s))) @ sub_auths_string s @ rest"
  have conv: "strtoull 10 (print_dec (unat (sid_rev_num s)) @ CHR ''-'' # ?tail)
      = (unat (sid_rev_num s), CHR ''-'' # ?tail)"
    using rev by (intro strtoull_10_print_dec no_digit_ahead_minus) (simp_all add: ULLONG_MAX_def)
  have "dom_sid_parse_endp (dom_sid_string (Some s) @ rest)
      = dom_sid_parse_endp (CHR ''S'' # CHR ''-'' #
          print_dec (unat (sid_rev_num s)) @ CHR ''-'' # ?tail)"
    using assms(1) by (simp add: dom_sid_string_eq dom_sid_full_string_def sid_canonical_def)
  also have "\<dots> = parse_identauth (zero_sid\<lparr>sid_rev_num := sid_rev_num s\<rparr>) ?tail"
    unfolding dom_sid_parse_endp_def list.case conv Let_def prod.case w using rev by simp
  also have "\<dots> = Some (s, rest)"
    using assms by (intro parse_identauth_print) simp_all
  finally show ?thesis .
qed

text \<open>The string form and its parser are a codec on canonical SIDs.\<close>

interpretation sid_codec: codec "\<lambda>s. dom_sid_string (Some s)" dom_sid_parse sid_canonical
proof unfold_locales
  fix s assume "sid_canonical s"
  then have "dom_sid_parse_endp (dom_sid_string (Some s) @ []) = Some (s, [])"
    by (rule dom_sid_parse_endp_print) (simp add: sid_end_ahead_def)
  then show "dom_sid_parse (dom_sid_string (Some s)) = Some s"
    by (simp add: dom_sid_parse_def)
qed

text \<open>Whatever the parser accepts is a well-formed SID with nothing in its unused part.\<close>

lemma parse_sub_auths_canonical:
  "sid_canonical sid \<Longrightarrow> parse_sub_auths sid q = Some (s, rest) \<Longrightarrow> sid_canonical s"
proof (induction sid q rule: parse_sub_auths.induct)
  case (1 sid q)
  let ?sid = "snd (sid_append_rid sid (of_nat (fst (strtoull 10 q))))"
  have c: "sid_canonical ?sid"
    using "1.prems"(1) by (metis prod.collapse sid_append_rid_canonical)
  show ?case
    using "1.prems"(2) c "1.IH"
    by (subst (asm) parse_sub_auths.simps) (auto split: if_splits list.splits)
qed

lemma parse_identauth_canonical:
  assumes "sid_canonical sid" "parse_identauth sid q = Some (s, rest)" "sub_auths sid = replicate 15 0"
  shows "sid_canonical s"
proof -
  have "sid_canonical (sid\<lparr>id_auth := id_auth_of conv, num_auths := 0\<rparr>)" for conv
    using assms by (auto simp: sid_canonical_def sid_wf_def id_auth_of_def)
  with assms(2) show ?thesis
    by (auto simp: parse_identauth_def Let_def split: if_splits list.splits prod.splits
        dest: parse_sub_auths_canonical)
qed

lemma dom_sid_parse_canonical:
  assumes "dom_sid_parse str = Some s"
  shows "sid_canonical s"
proof -
  have "sid_canonical s" if "parse_identauth (zero_sid\<lparr>sid_rev_num := r\<rparr>) q = Some (s, rest)"
    for r q rest
    using that
    by (rule parse_identauth_canonical [rotated])
      (auto simp: sid_canonical_def sid_wf_def zero_sid_def)
  with assms show ?thesis
    by (auto simp: dom_sid_parse_def dom_sid_parse_endp_def Let_def
        split: if_splits list.splits prod.splits)
qed

section \<open>Domains: lemmas\<close>

lemma dom_sid_add_rid_eq:
  assumes "sid_wf d" "num_auths d < 15" "length junk = 15"
  shows "\<exists>s. dom_sid_add_rid (Some junk) (Some d) rid = Some s \<and> sid_wf s \<and>
    num_auths s = num_auths d + 1 \<and> sub_auths s ! n_auths d = rid \<and>
    sid_same (s\<lparr>num_auths := num_auths d\<rparr>) d"
proof -
  obtain t where t: "dom_sid_dup (Some junk) (Some d) = Some t" "sid_wf t" "sid_same t d"
    using dom_sid_dup_same [OF assms(1,3)] by blast
  define s where "s = t\<lparr>sub_auths := (sub_auths t)[n_auths t := rid], num_auths := num_auths t + 1\<rparr>"
  have app: "sid_append_rid t rid = (True, s)"
    using t assms by (auto simp: sid_append_rid_def sid_same_def sid_wf_def s_def)
  then have "dom_sid_add_rid (Some junk) (Some d) rid = Some s"
    by (simp add: dom_sid_add_rid_def t)
  moreover have "sid_wf s" using sid_append_rid_wf [OF t(2) app] .
  moreover have "sid_same (s\<lparr>num_auths := num_auths d\<rparr>) d"
    using t(3) by (auto simp: sid_same_def s_def)
  moreover have "num_auths s = num_auths d + 1" "sub_auths s ! n_auths d = rid"
    using t assms by (auto simp: s_def sid_same_def sid_wf_def)
  ultimately show ?thesis by blast
qed

lemma dom_sid_split_rid_eq:
  assumes "sid_wf s" "0 < num_auths s" "length junk = 15"
  shows "\<exists>d. dom_sid_split_rid (Some junk) s True True
      = (NT_STATUS_OK, Some d, Some (sub_auths s ! (n_auths s - 1))) \<and>
    sid_same d (s\<lparr>num_auths := num_auths s - 1\<rparr>)"
proof -
  obtain t where t: "dom_sid_dup (Some junk) (Some s) = Some t" "sid_same t s"
    using dom_sid_dup_same [OF assms(1,3)] by blast
  have "sid_same (t\<lparr>num_auths := num_auths t - 1\<rparr>) (s\<lparr>num_auths := num_auths s - 1\<rparr>)"
    using t(2) by (auto simp: sid_same_def)
  moreover have "nat (num_auths s - 1) = n_auths s - 1" by simp
  ultimately show ?thesis using assms(2) t by (simp add: dom_sid_split_rid_def)
qed

lemma dom_sid_in_domain_iff:
  "dom_sid_in_domain (Some d) (Some s) \<longleftrightarrow>
     2 \<le> num_auths s \<and> sid_same (s\<lparr>num_auths := num_auths s - 1\<rparr>) d"
proof -
  have "dom_sid_compare_auth (Some d) (Some s) = 0 \<longleftrightarrow>
      sid_rev_num d = sid_rev_num s \<and> (\<forall>i < 6. id_auth d ! i = id_auth s ! i)"
    by (rule dom_sid_compare_auth_eq_0)
  then show ?thesis
    using first_diff_None [of diff_u32 "sub_auths d" "sub_auths s" "rev [0..<n_auths d]"]
    by (auto simp: dom_sid_in_domain_def sid_same_def)
qed

section \<open>Properties\<close>

text \<open>C31: printing a SID and parsing the result gives the SID back, whatever text follows it
  as long as that text cannot continue the last number; the parser stops exactly there.\<close>

theorem dom_sid_string_parse_roundtrip:
  assumes "sid_canonical s" "sid_end_ahead rest"
  shows "dom_sid_parse_endp (dom_sid_string (Some s) @ rest) = Some (s, rest)"
  using assms by (rule dom_sid_parse_endp_print)

theorem dom_sid_string_parse_roundtrip_witness:
  "dom_sid_parse_endp (dom_sid_string (Some (const_sid 5 [21, 9, 8, 7, 500])) @ '';D'')
     = Some (const_sid 5 [21, 9, 8, 7, 500], '';D'')"
proof -
  have "sid_canonical (const_sid 5 [21, 9, 8, 7, 500])" by (rule const_sid_canonical) simp
  moreover have "sid_end_ahead '';D''"
    by (simp add: sid_end_ahead_def is_base_digit_def digit_val_def)
  ultimately show ?thesis by (rule dom_sid_string_parse_roundtrip)
qed

text \<open>Every SID the parser accepts is well formed, leaves nothing in its unused
  sub-authorities, and is the SID that parsing its own string form yields again.\<close>

lemma dom_sid_parse_well_formed:
  assumes "dom_sid_parse str = Some s"
  shows "sid_wf s \<and> sid_canonical s \<and> dom_sid_parse (dom_sid_string (Some s)) = Some s"
proof -
  have "sid_canonical s" using assms by (rule dom_sid_parse_canonical)
  then show ?thesis using sid_codec.dec_enc by (simp add: sid_canonical_def)
qed

lemma dom_sid_parse_well_formed_witness:
  "sid_wf (const_sid 5 [32, 544])
   \<and> dom_sid_parse (dom_sid_string (Some (const_sid 5 [32, 544]))) = Some (const_sid 5 [32, 544])"
proof -
  have "dom_sid_parse (dom_sid_string (Some (const_sid 5 [32, 544]))) = Some (const_sid 5 [32, 544])"
    by (rule sid_codec.dec_enc) (rule const_sid_canonical, simp)
  from dom_sid_parse_well_formed [OF this] show ?thesis by simp
qed

text \<open>C33: \<open>dom_sid_equal\<close> holds exactly for SIDs with the same revision, authority and used
  sub-authorities, is an equivalence, and on canonical SIDs is equality of their strings.\<close>

theorem dom_sid_equal_characterisation:
  "(dom_sid_equal (Some s1) (Some s2) \<longleftrightarrow> sid_same s1 s2)
   \<and> (dom_sid_equal a b \<longleftrightarrow> dom_sid_equal b a)
   \<and> (dom_sid_equal a b \<and> dom_sid_equal b c \<longrightarrow> dom_sid_equal a c)
   \<and> (sid_canonical s1 \<and> sid_canonical s2 \<longrightarrow>
       (dom_sid_equal (Some s1) (Some s2) \<longleftrightarrow> dom_sid_string (Some s1) = dom_sid_string (Some s2)))"
  using sid_codec.enc_inj [of s1 s2] sid_same_canonical [of s1 s2]
  by (auto simp: dom_sid_equal_sym [of a b] dest: dom_sid_equal_trans [of a b c]
      intro: dom_sid_equal_trans [of a b c] dom_sid_equal_sym [THEN iffD1])

theorem dom_sid_equal_characterisation_witness:
  "dom_sid_equal (Some global_sid_System) (Some (const_sid 5 [18]))
   \<and> (dom_sid_string (Some global_sid_System) = dom_sid_string (Some (const_sid 5 [18])))"
proof -
  have c: "sid_canonical (const_sid 5 [18])" by (rule const_sid_canonical) simp
  show ?thesis
    using dom_sid_equal_characterisation [of global_sid_System "const_sid 5 [18]" None None None] c
    by (simp add: global_sid_System_def)
qed

text \<open>C32: appending a RID to a domain SID and splitting it off again gives back the RID and a
  domain equal to the original one, and the composed SID lies in that domain.\<close>

theorem dom_sid_add_split_rid:
  assumes "sid_wf d" "num_auths d < 15" "length mem1 = 15" "length mem2 = 15"
  shows "\<exists>s dom. dom_sid_add_rid (Some mem1) (Some d) rid = Some s \<and> sid_wf s
    \<and> dom_sid_split_rid (Some mem2) s True True = (NT_STATUS_OK, Some dom, Some rid)
    \<and> dom_sid_equal (Some dom) (Some d)
    \<and> (1 \<le> num_auths d \<longrightarrow> dom_sid_in_domain (Some d) (Some s))"
proof -
  obtain s where s: "dom_sid_add_rid (Some mem1) (Some d) rid = Some s" "sid_wf s"
      "num_auths s = num_auths d + 1" "sub_auths s ! n_auths d = rid"
      "sid_same (s\<lparr>num_auths := num_auths d\<rparr>) d"
    using dom_sid_add_rid_eq [OF assms(1-3)] by blast
  have n: "0 < num_auths s" "n_auths s - 1 = n_auths d" "num_auths s - 1 = num_auths d"
    using s(3) assms(1) by (auto simp: sid_wf_def)
  obtain dom where dom: "dom_sid_split_rid (Some mem2) s True True = (NT_STATUS_OK, Some dom, Some rid)"
      "sid_same dom (s\<lparr>num_auths := num_auths d\<rparr>)"
    using dom_sid_split_rid_eq [OF s(2) n(1) assms(4)] n s(4) by auto
  from dom(2) s(5) have "sid_same dom d" by (rule sid_same_trans)
  then show ?thesis using s n dom by (auto simp: dom_sid_in_domain_iff)
qed

theorem dom_sid_add_split_rid_witness:
  "\<exists>s dom. dom_sid_add_rid (Some (replicate 15 7)) (Some (const_sid 5 [21, 1, 2, 3])) 500 = Some s
    \<and> dom_sid_split_rid (Some (replicate 15 9)) s True True = (NT_STATUS_OK, Some dom, Some 500)
    \<and> dom_sid_in_domain (Some (const_sid 5 [21, 1, 2, 3])) (Some s)"
proof -
  have "sid_wf (const_sid 5 [21, 1, 2, 3])" "num_auths (const_sid 5 [21, 1, 2, 3]) < 15"
      "1 \<le> num_auths (const_sid 5 [21, 1, 2, 3])"
    by (simp_all add: const_sid_def sid_wf_def)
  with dom_sid_add_split_rid [of "const_sid 5 [21, 1, 2, 3]" "replicate 15 7" "replicate 15 9" 500]
  show ?thesis by auto
qed

text \<open>\<open>dom_sid_compare\<close> is zero only on equal SIDs, but its sign is not an order: the
  difference of two 32 bit sub-authorities is converted to a signed \<open>int\<close>, so there are SIDs
  each of which compares below the other.\<close>

lemma dom_sid_compare_not_an_order:
  "(\<forall>s1 s2. dom_sid_compare (Some s1) (Some s2) = 0 \<longleftrightarrow> sid_same s1 s2)
   \<and> (\<exists>s1 s2. sid_wf s1 \<and> sid_wf s2
        \<and> dom_sid_compare (Some s1) (Some s2) < 0 \<and> dom_sid_compare (Some s2) (Some s1) < 0)"
proof -
  let ?a = "const_sid 5 [0]" and ?b = "const_sid 5 [0x80000000]"
  have "sid_wf ?a" "sid_wf ?b" by (simp_all add: const_sid_def sid_wf_def)
  moreover have "dom_sid_compare (Some ?a) (Some ?b) < 0" "dom_sid_compare (Some ?b) (Some ?a) < 0"
    by (simp_all add: dom_sid_compare_def const_sid_def diff_u32_def)
  ultimately show ?thesis using dom_sid_compare_eq_0 by blast
qed

end
