(* ===== verification/Security_Token.thy ===== *)
theory Security_Token
  imports Dom_Sid
begin

text \<open>
  Security tokens and privileges, from \<open>libcli/security/security_token.c\<close> and
  \<open>libcli/security/privileges.c\<close>. A token holds the SIDs of a user (the user's own first),
  a bit mask of privileges and a mask of logon rights. A privilege is known by a LUID, a bit
  of the mask and a name; the table \<open>privs\<close> relates the three.
\<close>

section \<open>The token\<close>

text \<open>\<open>num_sids\<close> is the length of \<open>sids\<close>, and a \<open>NULL\<close> array is the empty list.\<close>

record security_token =
  sids :: "dom_sid list"
  privilege_mask :: u64
  rights_mask :: u32

definition security_token_initialise :: "talloc \<Rightarrow> security_token option" where
  "security_token_initialise mem =
     (if talloc_fails mem 0 then None else Some \<lparr>sids = [], privilege_mask = 0, rights_mask = 0\<rparr>)"

definition PRIMARY_USER_SID_INDEX :: nat where
  "PRIMARY_USER_SID_INDEX = 0"

definition PRIMARY_GROUP_SID_INDEX :: nat where
  "PRIMARY_GROUP_SID_INDEX = 1"

definition security_token_is_sid :: "security_token \<Rightarrow> dom_sid option \<Rightarrow> bool" where
  "security_token_is_sid token sid =
     (sids token \<noteq> [] \<and> dom_sid_equal (Some (sids token ! PRIMARY_USER_SID_INDEX)) sid)"

definition security_token_is_sid_string :: "security_token \<Rightarrow> string \<Rightarrow> bool" where
  "security_token_is_sid_string token sid_string =
     (case dom_sid_parse sid_string of
        None \<Rightarrow> False
      | Some sid \<Rightarrow> security_token_is_sid token (Some sid))"

definition security_token_is_system :: "security_token \<Rightarrow> bool" where
  "security_token_is_system token = security_token_is_sid token (Some global_sid_System)"

definition security_token_is_anonymous :: "security_token \<Rightarrow> bool" where
  "security_token_is_anonymous token = security_token_is_sid token (Some global_sid_Anonymous)"

fun has_sid_loop :: "dom_sid list \<Rightarrow> dom_sid option \<Rightarrow> bool" where
  "has_sid_loop [] sid = False"
| "has_sid_loop (s # ss) sid = (if dom_sid_equal (Some s) sid then True else has_sid_loop ss sid)"

definition security_token_has_sid :: "security_token \<Rightarrow> dom_sid option \<Rightarrow> bool" where
  "security_token_has_sid token sid = has_sid_loop (sids token) sid"

definition security_token_has_sid_string :: "security_token \<Rightarrow> string \<Rightarrow> bool" where
  "security_token_has_sid_string token sid_string =
     (case dom_sid_parse sid_string of
        None \<Rightarrow> False
      | Some sid \<Rightarrow> security_token_has_sid token (Some sid))"

definition security_token_has_builtin_guests :: "security_token \<Rightarrow> bool" where
  "security_token_has_builtin_guests token =
     security_token_has_sid token (Some global_sid_Builtin_Guests)"

definition security_token_has_builtin_administrators :: "security_token \<Rightarrow> bool" where
  "security_token_has_builtin_administrators token =
     security_token_has_sid token (Some global_sid_Builtin_Administrators)"

definition security_token_has_nt_authenticated_users :: "security_token \<Rightarrow> bool" where
  "security_token_has_nt_authenticated_users token =
     security_token_has_sid token (Some global_sid_Authenticated_Users)"

definition security_token_has_enterprise_dcs :: "security_token \<Rightarrow> bool" where
  "security_token_has_enterprise_dcs token =
     security_token_has_sid token (Some global_sid_Enterprise_DCs)"

section \<open>Privileges\<close>

text \<open>\<open>enum sec_privilege\<close>: the low 32 bits of a LUID (the conversions pass arbitrary
  numbers from the wire, so the type is the number).\<close>

type_synonym sec_privilege = u32

definition SEC_PRIV_INVALID :: sec_privilege where "SEC_PRIV_INVALID = 0"
definition SEC_PRIV_SECURITY :: sec_privilege where "SEC_PRIV_SECURITY = 0x8"
definition SEC_PRIV_TAKE_OWNERSHIP :: sec_privilege where "SEC_PRIV_TAKE_OWNERSHIP = 0x09"
definition SEC_PRIV_BACKUP :: sec_privilege where "SEC_PRIV_BACKUP = 0x11"
definition SEC_PRIV_RESTORE :: sec_privilege where "SEC_PRIV_RESTORE = 0x12"

record priv_entry =
  priv_luid :: sec_privilege
  priv_mask :: u64
  priv_name :: string
  priv_description :: string

definition privs :: "priv_entry list" where
  "privs =
     [\<lparr>priv_luid = 0x6, priv_mask = 0x10, priv_name = ''SeMachineAccountPrivilege'',
       priv_description = ''Add machines to domain''\<rparr>,
      \<lparr>priv_luid = 0x9, priv_mask = 0x800, priv_name = ''SeTakeOwnershipPrivilege'',
       priv_description = ''Take ownership of files or other objects''\<rparr>,
      \<lparr>priv_luid = 0x11, priv_mask = 0x200, priv_name = ''SeBackupPrivilege'',
       priv_description = ''Back up files and directories''\<rparr>,
      \<lparr>priv_luid = 0x12, priv_mask = 0x400, priv_name = ''SeRestorePrivilege'',
       priv_description = ''Restore files and directories''\<rparr>,
      \<lparr>priv_luid = 0x18, priv_mask = 0x100, priv_name = ''SeRemoteShutdownPrivilege'',
       priv_description = ''Force shutdown from a remote system''\<rparr>,
      \<lparr>priv_luid = 0x1001, priv_mask = 0x20, priv_name = ''SePrintOperatorPrivilege'',
       priv_description = ''Manage printers''\<rparr>,
      \<lparr>priv_luid = 0x1002, priv_mask = 0x40, priv_name = ''SeAddUsersPrivilege'',
       priv_description = ''Add users and groups to the domain''\<rparr>,
      \<lparr>priv_luid = 0x1003, priv_mask = 0x80, priv_name = ''SeDiskOperatorPrivilege'',
       priv_description = ''Manage disk shares''\<rparr>,
      \<lparr>priv_luid = 0x8, priv_mask = 0x2000, priv_name = ''SeSecurityPrivilege'',
       priv_description = ''System security''\<rparr>,
      \<lparr>priv_luid = 0xc, priv_mask = 0x10000, priv_name = ''SeSystemtimePrivilege'',
       priv_description = ''Set the system clock''\<rparr>,
      \<lparr>priv_luid = 0x13, priv_mask = 0x100000, priv_name = ''SeShutdownPrivilege'',
       priv_description = ''Shutdown the system''\<rparr>,
      \<lparr>priv_luid = 0x14, priv_mask = 0x200000, priv_name = ''SeDebugPrivilege'',
       priv_description = ''Debug processes''\<rparr>,
      \<lparr>priv_luid = 0x16, priv_mask = 0x400000, priv_name = ''SeSystemEnvironmentPrivilege'',
       priv_description = ''Modify system environment''\<rparr>,
      \<lparr>priv_luid = 0xb, priv_mask = 0x8000, priv_name = ''SeSystemProfilePrivilege'',
       priv_description = ''Profile the system''\<rparr>,
      \<lparr>priv_luid = 0xd, priv_mask = 0x20000, priv_name = ''SeProfileSingleProcessPrivilege'',
       priv_description = ''Profile one process''\<rparr>,
      \<lparr>priv_luid = 0xe, priv_mask = 0x40000, priv_name = ''SeIncreaseBasePriorityPrivilege'',
       priv_description = ''Increase base priority''\<rparr>,
      \<lparr>priv_luid = 0xa, priv_mask = 0x4000, priv_name = ''SeLoadDriverPrivilege'',
       priv_description = ''Load drivers''\<rparr>,
      \<lparr>priv_luid = 0xf, priv_mask = 0x80000, priv_name = ''SeCreatePagefilePrivilege'',
       priv_description = ''Create page files''\<rparr>,
      \<lparr>priv_luid = 0x5, priv_mask = 0x1000, priv_name = ''SeIncreaseQuotaPrivilege'',
       priv_description = ''Increase quota''\<rparr>,
      \<lparr>priv_luid = 0x17, priv_mask = 0x800000, priv_name = ''SeChangeNotifyPrivilege'',
       priv_description = ''Register for change notify''\<rparr>,
      \<lparr>priv_luid = 0x19, priv_mask = 0x1000000, priv_name = ''SeUndockPrivilege'',
       priv_description = ''Undock devices''\<rparr>,
      \<lparr>priv_luid = 0x1c, priv_mask = 0x4000000, priv_name = ''SeManageVolumePrivilege'',
       priv_description = ''Manage system volumes''\<rparr>,
      \<lparr>priv_luid = 0x1d, priv_mask = 0x8000000, priv_name = ''SeImpersonatePrivilege'',
       priv_description = ''Impersonate users''\<rparr>,
      \<lparr>priv_luid = 0x1e, priv_mask = 0x10000000, priv_name = ''SeCreateGlobalPrivilege'',
       priv_description = ''Create global''\<rparr>,
      \<lparr>priv_luid = 0x1b, priv_mask = 0x2000000, priv_name = ''SeEnableDelegationPrivilege'',
       priv_description = ''Enable Delegation''\<rparr>]"

record right_entry =
  right_mask :: u32
  right_name :: string
  right_description :: string

definition rights :: "right_entry list" where
  "rights =
     [\<lparr>right_mask = 0x1, right_name = ''SeInteractiveLogonRight'',
       right_description = ''Interactive logon''\<rparr>,
      \<lparr>right_mask = 0x2, right_name = ''SeNetworkLogonRight'',
       right_description = ''Network logon''\<rparr>,
      \<lparr>right_mask = 0x400, right_name = ''SeRemoteInteractiveLogonRight'',
       right_description = ''Remote Interactive logon''\<rparr>]"

text \<open>The loops over a table return at the first match: \<open>List.find\<close>.\<close>

definition sec_privilege_mask :: "sec_privilege \<Rightarrow> u64" where
  "sec_privilege_mask privilege =
     (case find (\<lambda>p. priv_luid p = privilege) privs of Some p \<Rightarrow> priv_mask p | None \<Rightarrow> 0)"

definition se_priv_put_all_privileges :: u64 where
  "se_priv_put_all_privileges = foldl (\<lambda>m p. m OR priv_mask p) 0 privs"

text \<open>\<open>strequal\<close> is the case insensitive comparison of the charset library, a parameter here.\<close>

definition se_priv_from_name :: "(string \<Rightarrow> string \<Rightarrow> bool) \<Rightarrow> string \<Rightarrow> u64 option" where
  "se_priv_from_name strequal name =
     map_option priv_mask (find (\<lambda>p. strequal (priv_name p) name) privs)"

definition get_privilege_dispname ::
    "(string \<Rightarrow> string \<Rightarrow> bool) \<Rightarrow> string option \<Rightarrow> string option" where
  "get_privilege_dispname strequal name =
     (case name of
        None \<Rightarrow> None
      | Some n \<Rightarrow> map_option priv_description (find (\<lambda>p. strequal (priv_name p) n) privs))"

text \<open>\<open>struct lsa_LUIDAttribute\<close>; a privilege set is the array of them.\<close>

record lsa_LUIDAttribute =
  luid_low :: u32
  luid_high :: u32
  luid_attribute :: u32

text \<open>\<open>mem\<close> says which calls of \<open>talloc_realloc\<close> succeed, by the new element count.\<close>

definition privilege_set_add ::
    "(nat \<Rightarrow> bool) \<Rightarrow> lsa_LUIDAttribute list \<Rightarrow> lsa_LUIDAttribute \<Rightarrow> lsa_LUIDAttribute list option" where
  "privilege_set_add mem priv_set luid =
     (if mem (length priv_set + 1) then Some (priv_set @ [luid]) else None)"

fun priv_to_set_loop ::
    "(nat \<Rightarrow> bool) \<Rightarrow> u64 \<Rightarrow> priv_entry list \<Rightarrow> lsa_LUIDAttribute list \<Rightarrow> bool \<times> lsa_LUIDAttribute list" where
  "priv_to_set_loop mem m [] pset = (True, pset)"
| "priv_to_set_loop mem m (p # ps) pset =
     (if m AND priv_mask p = 0 then priv_to_set_loop mem m ps pset
      else
        (case privilege_set_add mem pset \<lparr>luid_low = priv_luid p, luid_high = 0, luid_attribute = 0\<rparr> of
           None \<Rightarrow> (False, pset)
         | Some pset' \<Rightarrow> priv_to_set_loop mem m ps pset'))"

definition se_priv_to_privilege_set ::
    "(nat \<Rightarrow> bool) \<Rightarrow> lsa_LUIDAttribute list \<Rightarrow> u64 \<Rightarrow> bool \<times> lsa_LUIDAttribute list" where
  "se_priv_to_privilege_set mem pset m = priv_to_set_loop mem m privs pset"

fun set_to_priv_loop :: "lsa_LUIDAttribute list \<Rightarrow> u64 \<Rightarrow> bool \<times> u64" where
  "set_to_priv_loop [] m = (True, m)"
| "set_to_priv_loop (e # es) m =
     (if luid_high e \<noteq> 0 then (False, m)
      else
        let r = sec_privilege_mask (luid_low e) in
        set_to_priv_loop es (if r \<noteq> 0 then m OR r else m))"

definition privilege_set_to_se_priv :: "lsa_LUIDAttribute list \<Rightarrow> bool \<times> u64" where
  "privilege_set_to_se_priv privset = set_to_priv_loop privset 0"

definition sec_privilege_name :: "sec_privilege \<Rightarrow> string option" where
  "sec_privilege_name privilege = map_option priv_name (find (\<lambda>p. priv_luid p = privilege) privs)"

definition sec_privilege_display_name :: "sec_privilege \<Rightarrow> string option" where
  "sec_privilege_display_name privilege =
     map_option priv_description (find (\<lambda>p. priv_luid p = privilege) privs)"

text \<open>C's \<open>strcasecmp\<close> on the ASCII names of the table.\<close>

definition tolower :: "char \<Rightarrow> char" where
  "tolower c = (let n = (of_char c :: nat) in if 65 \<le> n \<and> n \<le> 90 then char_of (n + 32) else c)"

definition strcasecmp_eq :: "string \<Rightarrow> string \<Rightarrow> bool" where
  "strcasecmp_eq s t = (map tolower s = map tolower t)"

definition sec_privilege_id :: "string \<Rightarrow> sec_privilege" where
  "sec_privilege_id name =
     (case find (\<lambda>p. strcasecmp_eq (priv_name p) name) privs of
        Some p \<Rightarrow> priv_luid p | None \<Rightarrow> SEC_PRIV_INVALID)"

definition sec_right_bit :: "string \<Rightarrow> u32" where
  "sec_right_bit name =
     (case find (\<lambda>r. strcasecmp_eq (right_name r) name) rights of
        Some r \<Rightarrow> right_mask r | None \<Rightarrow> 0)"

definition sec_privilege_from_index :: "int \<Rightarrow> sec_privilege" where
  "sec_privilege_from_index idx =
     (if 0 \<le> idx \<and> idx < int (length privs) then priv_luid (privs ! nat idx) else SEC_PRIV_INVALID)"

definition sec_privilege_name_from_index :: "int \<Rightarrow> string option" where
  "sec_privilege_name_from_index idx =
     (if 0 \<le> idx \<and> idx < int (length privs) then Some (priv_name (privs ! nat idx)) else None)"

definition security_token_has_privilege :: "security_token option \<Rightarrow> sec_privilege \<Rightarrow> bool" where
  "security_token_has_privilege token privilege =
     (case token of
        None \<Rightarrow> False
      | Some t \<Rightarrow>
          let mask = sec_privilege_mask privilege in
          if mask = 0 then False else flag (privilege_mask t) mask)"

definition security_token_system_privilege :: "security_token option \<Rightarrow> bool" where
  "security_token_system_privilege token =
     (case token of None \<Rightarrow> False | Some t \<Rightarrow> privilege_mask t = NOT 0)"

definition security_token_set_privilege :: "security_token \<Rightarrow> sec_privilege \<Rightarrow> security_token" where
  "security_token_set_privilege token privilege =
     token\<lparr>privilege_mask := privilege_mask token OR sec_privilege_mask privilege\<rparr>"

definition security_token_set_right_bit :: "security_token \<Rightarrow> u32 \<Rightarrow> security_token" where
  "security_token_set_right_bit token right_bit =
     token\<lparr>rights_mask := rights_mask token OR right_bit\<rparr>"

section \<open>Lemmas\<close>

lemma security_token_has_sid_iff:
  "security_token_has_sid token sid \<longleftrightarrow> (\<exists>s \<in> set (sids token). dom_sid_equal (Some s) sid)"
proof -
  have "has_sid_loop ss sid \<longleftrightarrow> (\<exists>s \<in> set ss. dom_sid_equal (Some s) sid)" for ss
    by (induction ss) auto
  then show ?thesis by (simp add: security_token_has_sid_def)
qed

text \<open>The interface between tokens and the access checks: membership of a token does not
  distinguish equal SIDs.\<close>

locale sid_membership =
  fixes has_sid :: "'tok \<Rightarrow> dom_sid option \<Rightarrow> bool"
  assumes has_sid_equal: "dom_sid_equal s s' \<Longrightarrow> has_sid t s = has_sid t s'"
begin

lemma has_sid_same: "sid_same s s' \<Longrightarrow> has_sid t (Some s) = has_sid t (Some s')"
  by (rule has_sid_equal) simp

end

interpretation token_sids: sid_membership security_token_has_sid
proof unfold_locales
  fix s s' t assume "dom_sid_equal s s'"
  then show "security_token_has_sid t s = security_token_has_sid t s'"
    using dom_sid_equal_trans dom_sid_equal_sym unfolding security_token_has_sid_iff by blast
qed

text \<open>Facts of the table, by evaluation: distinct LUIDs and names, one bit of its own each.\<close>

lemma privs_distinct: "distinct (map priv_luid privs)"
  by (simp add: privs_def)

definition priv_bits :: "nat list" where
  "priv_bits = [4, 11, 9, 10, 8, 5, 6, 7, 13, 16, 20, 21, 22, 15, 17, 18, 14, 19, 12, 23, 24,
     26, 27, 28, 25]"

lemma privs_single_bits: "map priv_mask privs = map (\<lambda>k. 2 ^ k) priv_bits"
  by (simp add: privs_def priv_bits_def)

lemma privs_masks_distinct: "distinct (map priv_mask privs)"
  by (simp add: privs_def)

lemma find_distinct_key:
  assumes "distinct (map f xs)" "x \<in> set xs"
  shows "find (\<lambda>y. f y = f x) xs = Some x"
  using assms by (induction xs) (auto simp: image_iff)

lemma sec_privilege_mask_priv:
  "p \<in> set privs \<Longrightarrow> sec_privilege_mask (priv_luid p) = priv_mask p"
  by (simp add: sec_privilege_mask_def find_distinct_key [OF privs_distinct])

lemma priv_mask_bit:
  assumes "p \<in> set privs"
  shows "\<exists>k. \<forall>n. bit (priv_mask p) n \<longleftrightarrow> n = k"
proof -
  have "priv_mask p \<in> set (map priv_mask privs)" using assms by simp
  then obtain k where k: "k \<in> set priv_bits" "priv_mask p = 2 ^ k"
    unfolding privs_single_bits by auto
  from k(1) have "k < 64" by (auto simp: priv_bits_def)
  with k(2) have "\<forall>n. bit (priv_mask p) n \<longleftrightarrow> n = k" by (auto simp: bit_exp_iff)
  then show ?thesis ..
qed

lemma priv_mask_not_0: "p \<in> set privs \<Longrightarrow> priv_mask p \<noteq> 0"
  using priv_mask_bit by (auto simp: word_neq_0_iff_bit)

lemma priv_to_set_loop_eq:
  "priv_to_set_loop (\<lambda>_. True) m ps pset =
     (True, pset @ map (\<lambda>p. \<lparr>luid_low = priv_luid p, luid_high = 0, luid_attribute = 0\<rparr>)
        (filter (\<lambda>p. m AND priv_mask p \<noteq> 0) ps))"
  by (induction ps arbitrary: pset) (auto simp: privilege_set_add_def)

lemma foldl_or_bit:
  fixes m :: "'a::len word"
  shows "bit (foldl (\<lambda>m p. m OR f p) m ps) n \<longleftrightarrow> bit m n \<or> (\<exists>p \<in> set ps. bit (f p) n)"
  by (induction ps arbitrary: m) (auto simp: bit_or_iff)

lemma set_to_priv_loop_eq:
  assumes "set ps \<subseteq> set privs"
  shows "set_to_priv_loop (map (\<lambda>p. \<lparr>luid_low = priv_luid p, luid_high = 0, luid_attribute = 0\<rparr>) ps) m
    = (True, foldl (\<lambda>m p. m OR priv_mask p) m ps)"
  using assms
  by (induction ps arbitrary: m) (auto simp: sec_privilege_mask_priv priv_mask_not_0)

lemma privilege_set_roundtrip_mask:
  "foldl (\<lambda>m p. m OR priv_mask p) 0 (filter (\<lambda>p. m AND priv_mask p \<noteq> 0) privs)
     = m AND se_priv_put_all_privileges"
proof (rule bit_word_eqI)
  fix n
  have "(m AND priv_mask p \<noteq> 0 \<and> bit (priv_mask p) n) \<longleftrightarrow> (bit m n \<and> bit (priv_mask p) n)"
    if "p \<in> set privs" for p
    using priv_mask_bit [OF that] by (auto simp: word_neq_0_iff_bit bit_and_iff)
  then show "bit (foldl (\<lambda>m p. m OR priv_mask p) 0 (filter (\<lambda>p. m AND priv_mask p \<noteq> 0) privs)) n
      = bit (m AND se_priv_put_all_privileges) n"
    by (auto simp: foldl_or_bit se_priv_put_all_privileges_def bit_and_iff)
qed

lemma sec_privilege_mask_bit:
  assumes "sec_privilege_mask q \<noteq> 0"
  shows "\<exists>p \<in> set privs. priv_luid p = q \<and> sec_privilege_mask q = priv_mask p"
proof -
  obtain p where p: "find (\<lambda>p. priv_luid p = q) privs = Some p"
    using assms by (auto simp: sec_privilege_mask_def split: option.splits)
  then have "p \<in> set privs" "priv_luid p = q" by (auto simp: find_Some_iff)
  moreover have "sec_privilege_mask q = priv_mask p" by (simp add: sec_privilege_mask_def p)
  ultimately show ?thesis by blast
qed

lemma privs_masks_disjoint:
  assumes "p \<in> set privs" "q \<in> set privs"
  shows "flag (priv_mask p) (priv_mask q) \<longleftrightarrow> p = q"
proof -
  from priv_mask_bit [OF assms(1)] obtain k where k: "\<forall>n. bit (priv_mask p) n \<longleftrightarrow> n = k" ..
  from priv_mask_bit [OF assms(2)] obtain l where l: "\<forall>n. bit (priv_mask q) n \<longleftrightarrow> n = l" ..
  note kl = k l
  have "priv_mask p = priv_mask q \<longleftrightarrow> p = q"
    using privs_masks_distinct assms unfolding distinct_map inj_on_def by blast
  moreover have "priv_mask p = priv_mask q \<longleftrightarrow> k = l"
  proof
    assume "priv_mask p = priv_mask q"
    with kl show "k = l" by simp
  next
    assume "k = l"
    with kl show "priv_mask p = priv_mask q" by (intro bit_word_eqI) simp
  qed
  moreover have "flag (priv_mask p) (priv_mask q) \<longleftrightarrow> k = l"
    using kl by (simp add: flag_iff_bit)
  ultimately show ?thesis by blast
qed

section \<open>Properties\<close>

text \<open>C34: converting a privilege mask to a set of LUIDs and back keeps exactly the known
  privileges of the mask; memory permitting, neither direction fails.\<close>

theorem privilege_set_roundtrip:
  "fst (se_priv_to_privilege_set (\<lambda>_. True) [] m)
   \<and> privilege_set_to_se_priv (snd (se_priv_to_privilege_set (\<lambda>_. True) [] m))
       = (True, m AND se_priv_put_all_privileges)"
  by (simp add: se_priv_to_privilege_set_def priv_to_set_loop_eq privilege_set_to_se_priv_def
      set_to_priv_loop_eq privilege_set_roundtrip_mask)

text \<open>Setting a privilege in a token gives the token that privilege and no other one; an
  unknown privilege changes nothing and is never held.\<close>

lemma set_privilege_has_privilege:
  "security_token_has_privilege (Some (security_token_set_privilege t p)) q
     \<longleftrightarrow> security_token_has_privilege (Some t) q \<or> (q = p \<and> sec_privilege_mask p \<noteq> 0)"
proof -
  have "flag (sec_privilege_mask p) (sec_privilege_mask q) \<longleftrightarrow> p = q"
    if pq: "sec_privilege_mask p \<noteq> 0" "sec_privilege_mask q \<noteq> 0"
  proof -
    obtain x where x: "x \<in> set privs" "priv_luid x = p" "sec_privilege_mask p = priv_mask x"
      using sec_privilege_mask_bit [OF pq(1)] by blast
    obtain y where y: "y \<in> set privs" "priv_luid y = q" "sec_privilege_mask q = priv_mask y"
      using sec_privilege_mask_bit [OF pq(2)] by blast
    have "x = y \<longleftrightarrow> p = q"
      using privs_distinct x y unfolding distinct_map inj_on_def by blast
    then show ?thesis using privs_masks_disjoint [OF x(1) y(1)] x y by simp
  qed
  then show ?thesis
    by (cases "sec_privilege_mask p = 0"; cases "sec_privilege_mask q = 0")
      (auto simp: security_token_has_privilege_def security_token_set_privilege_def flag_or)
qed

end
