(* ===== verification/Security_Desc.thy ===== *)
theory Security_Desc
  imports Security_Token "HOL-Library.Multiset"
begin

text \<open>
  Access control entries, lists and security descriptors: the structures of
  \<open>librpc/idl/security.idl\<close>, GUID comparison (\<open>librpc/ndr/uuid.c\<close>), wire sizes
  (\<open>librpc/ndr/ndr_sec_helper.c\<close>), canonical ACE order (\<open>libcli/security/secace.c\<close>,
  \<open>secacl.c\<close>), and copying, editing and comparing descriptors
  (\<open>libcli/security/security_descriptor.c\<close> and \<open>secdesc.c\<close>).
\<close>

section \<open>GUIDs\<close>

record GUID =
  time_low :: u32
  time_mid :: u16
  time_hi_and_version :: u16
  clock_seq :: "u8 \<times> u8"
  node :: "u8 list"

definition GUID_wf :: "GUID \<Rightarrow> bool" where
  "GUID_wf u \<longleftrightarrow> length (node u) = 6"

definition GUID_all_zero :: "GUID \<Rightarrow> bool" where
  "GUID_all_zero u =
     (if time_low u \<noteq> 0 \<or> time_mid u \<noteq> 0 \<or> time_hi_and_version u \<noteq> 0 \<or>
         fst (clock_seq u) \<noteq> 0 \<or> snd (clock_seq u) \<noteq> 0 \<or>
         \<not> (\<forall>i \<in> set [0..<6]. node u ! i = 0)
      then False else True)"

text \<open>\<open>memcmp\<close> of the six node bytes; only its sign is specified.\<close>

definition GUID_compare :: "GUID \<Rightarrow> GUID \<Rightarrow> int" where
  "GUID_compare u1 u2 =
     (if time_low u1 \<noteq> time_low u2 then (if time_low u1 > time_low u2 then 1 else -1)
      else if time_mid u1 \<noteq> time_mid u2 then (if time_mid u1 > time_mid u2 then 1 else -1)
      else if time_hi_and_version u1 \<noteq> time_hi_and_version u2
      then (if time_hi_and_version u1 > time_hi_and_version u2 then 1 else -1)
      else if fst (clock_seq u1) \<noteq> fst (clock_seq u2)
      then (if fst (clock_seq u1) > fst (clock_seq u2) then 1 else -1)
      else if snd (clock_seq u1) \<noteq> snd (clock_seq u2)
      then (if snd (clock_seq u1) > snd (clock_seq u2) then 1 else -1)
      else (case first_diff diff_u8 (node u1) (node u2) [0..<6] of None \<Rightarrow> 0 | Some r \<Rightarrow> r))"

definition GUID_equal :: "GUID \<Rightarrow> GUID \<Rightarrow> bool" where
  "GUID_equal u1 u2 \<longleftrightarrow> GUID_compare u1 u2 = 0"

section \<open>ACEs, ACLs and descriptors\<close>

text \<open>The type field is an 8 bit enumeration; a value without a name is \<open>OTHER\<close>.\<close>

datatype security_ace_type =
    SEC_ACE_TYPE_ACCESS_ALLOWED
  | SEC_ACE_TYPE_ACCESS_DENIED
  | SEC_ACE_TYPE_SYSTEM_AUDIT
  | SEC_ACE_TYPE_SYSTEM_ALARM
  | SEC_ACE_TYPE_ALLOWED_COMPOUND
  | SEC_ACE_TYPE_ACCESS_ALLOWED_OBJECT
  | SEC_ACE_TYPE_ACCESS_DENIED_OBJECT
  | SEC_ACE_TYPE_SYSTEM_AUDIT_OBJECT
  | SEC_ACE_TYPE_SYSTEM_ALARM_OBJECT
  | SEC_ACE_TYPE_OTHER u8

record security_ace_object =
  object_flags :: u32
  object_type :: GUID
  inherited_type :: GUID

record security_ace =
  ace_type :: security_ace_type
  ace_flags :: u8
  ace_size :: u16
  access_mask :: u32
  ace_object :: security_ace_object
  trustee :: dom_sid

text \<open>\<open>num_aces\<close> is the length of \<open>aces\<close>.\<close>

record security_acl =
  acl_revision :: nat
  acl_size :: u16
  aces :: "security_ace list"

record security_descriptor =
  sd_revision :: nat
  sd_type :: u16
  owner_sid :: "dom_sid option"
  group_sid :: "dom_sid option"
  sacl :: "security_acl option"
  dacl :: "security_acl option"

definition SEC_ACE_FLAG_OBJECT_INHERIT :: u8 where "SEC_ACE_FLAG_OBJECT_INHERIT = 0x01"
definition SEC_ACE_FLAG_CONTAINER_INHERIT :: u8 where "SEC_ACE_FLAG_CONTAINER_INHERIT = 0x02"
definition SEC_ACE_FLAG_NO_PROPAGATE_INHERIT :: u8 where "SEC_ACE_FLAG_NO_PROPAGATE_INHERIT = 0x04"
definition SEC_ACE_FLAG_INHERIT_ONLY :: u8 where "SEC_ACE_FLAG_INHERIT_ONLY = 0x08"
definition SEC_ACE_FLAG_INHERITED_ACE :: u8 where "SEC_ACE_FLAG_INHERITED_ACE = 0x10"

definition SEC_ACE_OBJECT_TYPE_PRESENT :: u32 where "SEC_ACE_OBJECT_TYPE_PRESENT = 1"
definition SEC_ACE_INHERITED_OBJECT_TYPE_PRESENT :: u32 where
  "SEC_ACE_INHERITED_OBJECT_TYPE_PRESENT = 2"

definition SEC_DESC_OWNER_DEFAULTED :: u16 where "SEC_DESC_OWNER_DEFAULTED = 0x0001"
definition SEC_DESC_GROUP_DEFAULTED :: u16 where "SEC_DESC_GROUP_DEFAULTED = 0x0002"
definition SEC_DESC_DACL_PRESENT :: u16 where "SEC_DESC_DACL_PRESENT = 0x0004"
definition SEC_DESC_DACL_DEFAULTED :: u16 where "SEC_DESC_DACL_DEFAULTED = 0x0008"
definition SEC_DESC_SACL_PRESENT :: u16 where "SEC_DESC_SACL_PRESENT = 0x0010"
definition SEC_DESC_SACL_DEFAULTED :: u16 where "SEC_DESC_SACL_DEFAULTED = 0x0020"
definition SEC_DESC_DACL_TRUSTED :: u16 where "SEC_DESC_DACL_TRUSTED = 0x0040"
definition SEC_DESC_SERVER_SECURITY :: u16 where "SEC_DESC_SERVER_SECURITY = 0x0080"
definition SEC_DESC_DACL_AUTO_INHERIT_REQ :: u16 where "SEC_DESC_DACL_AUTO_INHERIT_REQ = 0x0100"
definition SEC_DESC_SACL_AUTO_INHERIT_REQ :: u16 where "SEC_DESC_SACL_AUTO_INHERIT_REQ = 0x0200"
definition SEC_DESC_DACL_AUTO_INHERITED :: u16 where "SEC_DESC_DACL_AUTO_INHERITED = 0x0400"
definition SEC_DESC_SACL_AUTO_INHERITED :: u16 where "SEC_DESC_SACL_AUTO_INHERITED = 0x0800"
definition SEC_DESC_DACL_PROTECTED :: u16 where "SEC_DESC_DACL_PROTECTED = 0x1000"
definition SEC_DESC_SACL_PROTECTED :: u16 where "SEC_DESC_SACL_PROTECTED = 0x2000"
definition SEC_DESC_SELF_RELATIVE :: u16 where "SEC_DESC_SELF_RELATIVE = 0x8000"

definition SECINFO_OWNER :: u32 where "SECINFO_OWNER = 1"
definition SECINFO_GROUP :: u32 where "SECINFO_GROUP = 2"
definition SECINFO_DACL :: u32 where "SECINFO_DACL = 4"
definition SECINFO_SACL :: u32 where "SECINFO_SACL = 8"
definition SECINFO_UNPROTECTED_SACL :: u32 where "SECINFO_UNPROTECTED_SACL = 0x10000000"
definition SECINFO_UNPROTECTED_DACL :: u32 where "SECINFO_UNPROTECTED_DACL = 0x20000000"
definition SECINFO_PROTECTED_SACL :: u32 where "SECINFO_PROTECTED_SACL = 0x40000000"
definition SECINFO_PROTECTED_DACL :: u32 where "SECINFO_PROTECTED_DACL = 0x80000000"

definition SEC_FLAG_SYSTEM_SECURITY :: u32 where "SEC_FLAG_SYSTEM_SECURITY = 0x01000000"
definition SEC_FLAG_MAXIMUM_ALLOWED :: u32 where "SEC_FLAG_MAXIMUM_ALLOWED = 0x02000000"
definition SEC_STD_DELETE :: u32 where "SEC_STD_DELETE = 0x00010000"
definition SEC_STD_READ_CONTROL :: u32 where "SEC_STD_READ_CONTROL = 0x00020000"
definition SEC_STD_WRITE_DAC :: u32 where "SEC_STD_WRITE_DAC = 0x00040000"
definition SEC_STD_WRITE_OWNER :: u32 where "SEC_STD_WRITE_OWNER = 0x00080000"
definition SEC_STD_SYNCHRONIZE :: u32 where "SEC_STD_SYNCHRONIZE = 0x00100000"

definition SD_REVISION :: nat where "SD_REVISION = 1"
definition SECURITY_ACL_REVISION_NT4 :: nat where "SECURITY_ACL_REVISION_NT4 = 2"
definition SECURITY_ACL_REVISION_ADS :: nat where "SECURITY_ACL_REVISION_ADS = 4"

section \<open>Wire sizes\<close>

text \<open>\<open>size_t\<close> values; \<open>num_auths\<close> is promoted from \<open>int8_t\<close>, so the model uses \<open>int\<close>.\<close>

definition ndr_size_dom_sid :: "dom_sid option \<Rightarrow> int" where
  "ndr_size_dom_sid sid = (case sid of None \<Rightarrow> 0 | Some s \<Rightarrow> 8 + 4 * num_auths s)"

definition sec_ace_object :: "security_ace_type \<Rightarrow> bool" where
  "sec_ace_object type =
     (if type = SEC_ACE_TYPE_ACCESS_ALLOWED_OBJECT \<or> type = SEC_ACE_TYPE_ACCESS_DENIED_OBJECT \<or>
         type = SEC_ACE_TYPE_SYSTEM_AUDIT_OBJECT \<or> type = SEC_ACE_TYPE_SYSTEM_ALARM_OBJECT
      then True else False)"

definition ace_object_size :: "security_ace \<Rightarrow> int" where
  "ace_object_size ace =
     4 + (if flag (object_flags (ace_object ace)) SEC_ACE_OBJECT_TYPE_PRESENT then 16 else 0)
       + (if flag (object_flags (ace_object ace)) SEC_ACE_INHERITED_OBJECT_TYPE_PRESENT
          then 16 else 0)"

definition ndr_size_security_ace :: "security_ace \<Rightarrow> int" where
  "ndr_size_security_ace ace =
     8 + ndr_size_dom_sid (Some (trustee ace)) +
     (case ace_type ace of
        SEC_ACE_TYPE_ACCESS_ALLOWED_OBJECT \<Rightarrow> ace_object_size ace
      | SEC_ACE_TYPE_ACCESS_DENIED_OBJECT \<Rightarrow> ace_object_size ace
      | SEC_ACE_TYPE_SYSTEM_AUDIT_OBJECT \<Rightarrow> ace_object_size ace
      | SEC_ACE_TYPE_SYSTEM_ALARM_OBJECT \<Rightarrow> ace_object_size ace
      | _ \<Rightarrow> 0)"

definition ndr_size_security_acl :: "security_acl option \<Rightarrow> int" where
  "ndr_size_security_acl acl =
     (case acl of
        None \<Rightarrow> 0
      | Some a \<Rightarrow> foldl (\<lambda>ret ace. ret + ndr_size_security_ace ace) 8 (aces a))"

definition ndr_size_security_descriptor :: "security_descriptor \<Rightarrow> int" where
  "ndr_size_security_descriptor sd =
     20 + ndr_size_dom_sid (owner_sid sd) + ndr_size_dom_sid (group_sid sd)
        + ndr_size_security_acl (dacl sd) + ndr_size_security_acl (sacl sd)"

section \<open>Building ACEs and ACLs\<close>

definition sec_ace_copy :: "security_ace \<Rightarrow> security_ace \<Rightarrow> security_ace" where
  "sec_ace_copy ace_dest ace_src =
     ace_dest\<lparr>ace_type := ace_type ace_src, ace_flags := ace_flags ace_src,
              ace_size := ace_size ace_src, access_mask := access_mask ace_src,
              ace_object := ace_object ace_src, trustee := trustee ace_src\<rparr>"

text \<open>\<open>t\<close> is the structure before the call: the \<open>object\<close> field is left as it was.\<close>

definition init_sec_ace ::
    "security_ace \<Rightarrow> dom_sid \<Rightarrow> security_ace_type \<Rightarrow> u32 \<Rightarrow> u8 \<Rightarrow> security_ace" where
  "init_sec_ace t sid type acc flg =
     t\<lparr>ace_type := type, ace_flags := flg,
       ace_size := word_of_int (ndr_size_dom_sid (Some sid) + 8),
       access_mask := acc, trustee := sid\<rparr>"

definition SEC_ACL_HEADER_SIZE :: u16 where
  "SEC_ACL_HEADER_SIZE = 8"

definition make_sec_acl :: "talloc \<Rightarrow> nat \<Rightarrow> security_ace list \<Rightarrow> security_acl option" where
  "make_sec_acl mem revision ace_list =
     (if talloc_fails mem 0 then None
      else if ace_list = []
      then Some \<lparr>acl_revision = revision, acl_size = SEC_ACL_HEADER_SIZE, aces = []\<rparr>
      else if talloc_fails mem 1 then None
      else Some \<lparr>acl_revision = revision,
                 acl_size = foldl (\<lambda>size ace. size + ace_size ace) SEC_ACL_HEADER_SIZE ace_list,
                 aces = ace_list\<rparr>)"

section \<open>Canonical order\<close>

definition nt_ace_inherit_comp :: "security_ace \<Rightarrow> security_ace \<Rightarrow> int" where
  "nt_ace_inherit_comp a1 a2 =
     (let a1_inh = ace_flags a1 AND SEC_ACE_FLAG_INHERITED_ACE;
          a2_inh = ace_flags a2 AND SEC_ACE_FLAG_INHERITED_ACE in
      if a1_inh = a2_inh then 0
      else if a1_inh = 0 \<and> a2_inh \<noteq> 0 then -1
      else 1)"

abbreviation SEC_ACE_FLAGS_SUBOBJECT :: u8 where
  "SEC_ACE_FLAGS_SUBOBJECT \<equiv> SEC_ACE_FLAG_CONTAINER_INHERIT OR SEC_ACE_FLAG_OBJECT_INHERIT"

definition nt_ace_canon_comp :: "security_ace \<Rightarrow> security_ace \<Rightarrow> int" where
  "nt_ace_canon_comp a1 a2 =
     (if ace_type a1 = SEC_ACE_TYPE_ACCESS_DENIED \<and> ace_type a2 \<noteq> SEC_ACE_TYPE_ACCESS_DENIED
      then -1
      else if ace_type a2 = SEC_ACE_TYPE_ACCESS_DENIED \<and> ace_type a1 \<noteq> SEC_ACE_TYPE_ACCESS_DENIED
      then 1
      else if \<not> flag (ace_flags a1) SEC_ACE_FLAG_INHERIT_ONLY \<and>
              flag (ace_flags a2) SEC_ACE_FLAG_INHERIT_ONLY then -1
      else if \<not> flag (ace_flags a2) SEC_ACE_FLAG_INHERIT_ONLY \<and>
              flag (ace_flags a1) SEC_ACE_FLAG_INHERIT_ONLY then 1
      else if flag (ace_flags a1) SEC_ACE_FLAGS_SUBOBJECT \<and>
              \<not> flag (ace_flags a2) SEC_ACE_FLAGS_SUBOBJECT then -1
      else if flag (ace_flags a2) SEC_ACE_FLAGS_SUBOBJECT \<and>
              \<not> flag (ace_flags a1) SEC_ACE_FLAGS_SUBOBJECT then 1
      else 0)"

text \<open>The boundary loop: the index of the first inherited ACE.\<close>

fun first_inherited :: "security_ace list \<Rightarrow> nat" where
  "first_inherited [] = 0"
| "first_inherited (curr_ace # rest) =
     (if flag (ace_flags curr_ace) SEC_ACE_FLAG_INHERITED_ACE then 0
      else 1 + first_inherited rest)"

text \<open>\<open>qsort\<close> of the C library is an argument: the standard fixes that the result is a
  sorted permutation, and not the order of elements that compare equal.\<close>

type_synonym 'a c_qsort = "('a \<Rightarrow> 'a \<Rightarrow> int) \<Rightarrow> 'a list \<Rightarrow> 'a list"

definition dacl_sort_into_canonical_order ::
    "security_ace c_qsort \<Rightarrow> security_ace list \<Rightarrow> security_ace list" where
  "dacl_sort_into_canonical_order qsort srclist =
     (if srclist = [] then srclist
      else
        let srclist = qsort nt_ace_inherit_comp srclist;
            i = first_inherited srclist in
        qsort nt_ace_canon_comp (take i srclist) @ qsort nt_ace_canon_comp (drop i srclist))"

section \<open>Copying descriptors\<close>

definition security_descriptor_initialise :: "talloc \<Rightarrow> security_descriptor option" where
  "security_descriptor_initialise mem =
     (if talloc_fails mem 0 then None
      else Some \<lparr>sd_revision = SD_REVISION, sd_type = SEC_DESC_SELF_RELATIVE,
                 owner_sid = None, group_sid = None, sacl = None, dacl = None\<rparr>)"

text \<open>An ACL with a count but no array does not arise in the model.\<close>

definition security_acl_dup :: "talloc \<Rightarrow> security_acl option \<Rightarrow> security_acl option" where
  "security_acl_dup mem oacl =
     (case oacl of
        None \<Rightarrow> None
      | Some a \<Rightarrow>
          if talloc_fails mem 0 then None
          else if aces a = [] then Some a
          else if talloc_fails mem 1 then None
          else Some \<lparr>acl_revision = acl_revision a, acl_size = acl_size a, aces = aces a\<rparr>)"

definition security_acl_concatenate ::
    "talloc \<Rightarrow> security_acl option \<Rightarrow> security_acl option \<Rightarrow> security_acl option" where
  "security_acl_concatenate mem acl1 acl2 =
     (case (acl1, acl2) of
        (None, None) \<Rightarrow> None
      | (None, Some _) \<Rightarrow> security_acl_dup mem acl2
      | (Some _, None) \<Rightarrow> security_acl_dup mem acl1
      | (Some a1, Some a2) \<Rightarrow>
          if talloc_fails mem 0 then None
          else if aces a1 @ aces a2 \<noteq> [] \<and> talloc_fails mem 1 then None
          else Some \<lparr>acl_revision = acl_revision a1, acl_size = acl_size a1 + acl_size a2,
                     aces = aces a1 @ aces a2\<rparr>)"

text \<open>A pointer member is copied when it is set, and a failed copy fails the whole:
  \<open>None\<close> is failure, \<open>Some None\<close> a member that stays \<open>NULL\<close>.\<close>

definition copy_member :: "('a option \<Rightarrow> 'b option) \<Rightarrow> 'a option \<Rightarrow> 'b option option" where
  "copy_member dup m =
     (case m of None \<Rightarrow> Some None
      | Some _ \<Rightarrow> (case dup m of None \<Rightarrow> None | Some c \<Rightarrow> Some (Some c)))"

definition security_descriptor_copy :: "talloc \<Rightarrow> security_descriptor \<Rightarrow> security_descriptor option" where
  "security_descriptor_copy mem osd =
     (if talloc_fails mem 0 then None
      else
        case copy_member (dom_sid_dup (mem 1)) (owner_sid osd) of None \<Rightarrow> None | Some ow \<Rightarrow>
        case copy_member (dom_sid_dup (mem 2)) (group_sid osd) of None \<Rightarrow> None | Some gr \<Rightarrow>
        case copy_member (security_acl_dup (\<lambda>k. mem (3 + k))) (sacl osd) of None \<Rightarrow> None | Some sa \<Rightarrow>
        case copy_member (security_acl_dup (\<lambda>k. mem (5 + k))) (dacl osd) of None \<Rightarrow> None | Some da \<Rightarrow>
        Some \<lparr>sd_revision = sd_revision osd, sd_type = sd_type osd,
              owner_sid = ow, group_sid = gr, sacl = sa, dacl = da\<rparr>)"

definition make_sec_desc ::
    "talloc \<Rightarrow> nat \<Rightarrow> u16 \<Rightarrow> dom_sid option \<Rightarrow> dom_sid option \<Rightarrow> security_acl option \<Rightarrow>
     security_acl option \<Rightarrow> security_descriptor option \<times> int" where
  "make_sec_desc mem revision type owner grp sacl_in dacl_in =
     (case security_descriptor_initialise mem of
        None \<Rightarrow> (None, 0)
      | Some _ \<Rightarrow>
        case copy_member (security_acl_dup (\<lambda>k. mem (1 + k))) sacl_in of None \<Rightarrow> (None, 0) | Some sa \<Rightarrow>
        case copy_member (security_acl_dup (\<lambda>k. mem (3 + k))) dacl_in of None \<Rightarrow> (None, 0) | Some da \<Rightarrow>
        case copy_member (dom_sid_dup (mem 5)) owner of None \<Rightarrow> (None, 0) | Some ow \<Rightarrow>
        case copy_member (dom_sid_dup (mem 6)) grp of None \<Rightarrow> (None, 0) | Some gr \<Rightarrow>
        (let dst = \<lparr>sd_revision = revision,
                    sd_type = type OR (if sacl_in \<noteq> None then SEC_DESC_SACL_PRESENT else 0)
                                   OR (if dacl_in \<noteq> None then SEC_DESC_DACL_PRESENT else 0),
                    owner_sid = ow, group_sid = gr, sacl = sa, dacl = da\<rparr> in
         (Some dst, ndr_size_security_descriptor dst)))"

definition make_standard_sec_desc ::
    "talloc \<Rightarrow> dom_sid option \<Rightarrow> dom_sid option \<Rightarrow> security_acl option \<Rightarrow>
     security_descriptor option \<times> int" where
  "make_standard_sec_desc mem owner grp dacl_in =
     make_sec_desc mem 1 SEC_DESC_SELF_RELATIVE owner grp None dacl_in"

text \<open>The new descriptor's set members win over the old ones; the system ACL is dropped.\<close>

definition sec_desc_merge ::
    "talloc \<Rightarrow> security_descriptor \<Rightarrow> security_descriptor \<Rightarrow> security_descriptor option" where
  "sec_desc_merge mem new_sdb old_sdb =
     (let owner = (if owner_sid new_sdb \<noteq> None then owner_sid new_sdb else owner_sid old_sdb);
          grp = (if group_sid new_sdb \<noteq> None then group_sid new_sdb else group_sid old_sdb);
          secdesc_type = sd_type new_sdb AND NOT SEC_DESC_SACL_PRESENT;
          da = (if flag secdesc_type SEC_DESC_DACL_PRESENT then dacl new_sdb else dacl old_sdb) in
      fst (make_sec_desc mem (sd_revision new_sdb) secdesc_type owner grp None da))"

definition get_sec_info :: "security_descriptor \<Rightarrow> u32" where
  "get_sec_info sd =
     (if owner_sid sd \<noteq> None then SECINFO_OWNER else 0)
     OR (if group_sid sd \<noteq> None then SECINFO_GROUP else 0)
     OR (if sacl sd \<noteq> None then SECINFO_SACL else 0)
     OR (if dacl sd \<noteq> None then SECINFO_DACL else 0)
     OR (if flag (sd_type sd) SEC_DESC_SACL_PROTECTED then SECINFO_PROTECTED_SACL
         else if flag (sd_type sd) SEC_DESC_SACL_AUTO_INHERITED then SECINFO_UNPROTECTED_SACL
         else 0)
     OR (if flag (sd_type sd) SEC_DESC_DACL_PROTECTED then SECINFO_PROTECTED_DACL
         else if flag (sd_type sd) SEC_DESC_DACL_AUTO_INHERITED then SECINFO_UNPROTECTED_DACL
         else 0)"

section \<open>The descriptor a client may see\<close>

definition SEC_DESC_DACL_BITS :: u16 where
  "SEC_DESC_DACL_BITS =
     SEC_DESC_DACL_PRESENT OR SEC_DESC_DACL_DEFAULTED OR SEC_DESC_DACL_AUTO_INHERIT_REQ OR
     SEC_DESC_DACL_AUTO_INHERITED OR SEC_DESC_DACL_PROTECTED OR SEC_DESC_DACL_TRUSTED"

definition SEC_DESC_SACL_BITS :: u16 where
  "SEC_DESC_SACL_BITS =
     SEC_DESC_SACL_PRESENT OR SEC_DESC_SACL_DEFAULTED OR SEC_DESC_SACL_AUTO_INHERIT_REQ OR
     SEC_DESC_SACL_AUTO_INHERITED OR SEC_DESC_SACL_PROTECTED OR SEC_DESC_SERVER_SECURITY"

definition secinfo_access_required :: "u32 \<Rightarrow> u32" where
  "secinfo_access_required sec_info =
     (if flag sec_info (SECINFO_OWNER OR SECINFO_GROUP) then SEC_STD_READ_CONTROL else 0)
     OR (if flag sec_info SECINFO_DACL then SEC_STD_READ_CONTROL else 0)
     OR (if flag sec_info SECINFO_SACL then SEC_FLAG_SYSTEM_SECURITY else 0)"

definition strip_for_client :: "u32 \<Rightarrow> security_descriptor \<Rightarrow> security_descriptor" where
  "strip_for_client sec_info csd =
     (let csd = (if \<not> flag sec_info SECINFO_OWNER
                 then csd\<lparr>owner_sid := None, sd_type := sd_type csd AND NOT SEC_DESC_OWNER_DEFAULTED\<rparr>
                 else csd);
          csd = (if \<not> flag sec_info SECINFO_GROUP
                 then csd\<lparr>group_sid := None, sd_type := sd_type csd AND NOT SEC_DESC_GROUP_DEFAULTED\<rparr>
                 else csd);
          csd = (if \<not> flag sec_info SECINFO_DACL
                 then csd\<lparr>dacl := None, sd_type := sd_type csd AND NOT SEC_DESC_DACL_BITS\<rparr>
                 else csd);
          csd = (if \<not> flag sec_info SECINFO_SACL
                 then csd\<lparr>sacl := None, sd_type := sd_type csd AND NOT SEC_DESC_SACL_BITS\<rparr>
                 else csd)
      in csd)"

definition security_descriptor_for_client ::
    "talloc \<Rightarrow> security_descriptor \<Rightarrow> u32 \<Rightarrow> u32 \<Rightarrow> NTSTATUS \<times> security_descriptor option" where
  "security_descriptor_for_client mem ssd sec_info access_granted =
     (if flag (secinfo_access_required sec_info) (NOT access_granted)
      then (NT_STATUS_ACCESS_DENIED, None)
      else case security_descriptor_copy mem ssd of
             None \<Rightarrow> (NT_STATUS_NO_MEMORY, None)
           | Some csd \<Rightarrow> (NT_STATUS_OK, Some (strip_for_client sec_info csd)))"

section \<open>Adding and deleting ACEs\<close>

text \<open>On an error the callers discard the descriptor, so it is not part of the result.\<close>

definition security_descriptor_acl_add ::
    "talloc \<Rightarrow> security_descriptor \<Rightarrow> bool \<Rightarrow> security_ace \<Rightarrow> NTSTATUS + security_descriptor" where
  "security_descriptor_acl_add mem sd add_to_sacl ace =
     (let old = (if add_to_sacl then sacl sd else dacl sd) in
      if old = None \<and> talloc_fails mem 0 then Inl NT_STATUS_NO_MEMORY
      else
        let acl = (case old of
                     None \<Rightarrow> \<lparr>acl_revision = SECURITY_ACL_REVISION_NT4, acl_size = 0, aces = []\<rparr>
                   | Some a \<Rightarrow> a) in
        if talloc_fails mem 1 then Inl NT_STATUS_NO_MEMORY
        else
          let acl = acl\<lparr>aces := aces acl @ [ace]\<rparr>;
              acl = (case ace_type ace of
                       SEC_ACE_TYPE_ACCESS_ALLOWED_OBJECT \<Rightarrow> acl\<lparr>acl_revision := SECURITY_ACL_REVISION_ADS\<rparr>
                     | SEC_ACE_TYPE_ACCESS_DENIED_OBJECT \<Rightarrow> acl\<lparr>acl_revision := SECURITY_ACL_REVISION_ADS\<rparr>
                     | SEC_ACE_TYPE_SYSTEM_AUDIT_OBJECT \<Rightarrow> acl\<lparr>acl_revision := SECURITY_ACL_REVISION_ADS\<rparr>
                     | SEC_ACE_TYPE_SYSTEM_ALARM_OBJECT \<Rightarrow> acl\<lparr>acl_revision := SECURITY_ACL_REVISION_ADS\<rparr>
                     | _ \<Rightarrow> acl) in
          Inr (if add_to_sacl
               then sd\<lparr>sacl := Some acl, sd_type := sd_type sd OR SEC_DESC_SACL_PRESENT\<rparr>
               else sd\<lparr>dacl := Some acl, sd_type := sd_type sd OR SEC_DESC_DACL_PRESENT\<rparr>))"

definition security_descriptor_sacl_add ::
    "talloc \<Rightarrow> security_descriptor \<Rightarrow> security_ace \<Rightarrow> NTSTATUS + security_descriptor" where
  "security_descriptor_sacl_add mem sd ace = security_descriptor_acl_add mem sd True ace"

definition security_descriptor_dacl_add ::
    "talloc \<Rightarrow> security_descriptor \<Rightarrow> security_ace \<Rightarrow> NTSTATUS + security_descriptor" where
  "security_descriptor_dacl_add mem sd ace = security_descriptor_acl_add mem sd False ace"

text \<open>The deletion loop. After a deletion the array has moved down by one and the index
  still advances.\<close>

function acl_del_loop ::
    "dom_sid option \<Rightarrow> nat \<Rightarrow> security_ace list \<Rightarrow> bool \<Rightarrow> security_ace list \<times> bool" where
  "acl_del_loop sid i as found =
     (if i < length as then
        if dom_sid_equal sid (Some (trustee (as ! i)))
        then acl_del_loop sid (i + 1) (take i as @ drop (i + 1) as) True
        else acl_del_loop sid (i + 1) as found
      else (as, found))"
  by auto
termination by (relation "measure (\<lambda>(sid, i, as, found). length as - i)") auto

text \<open>The revision loop after the deletion.\<close>

fun acl_revision_loop :: "security_ace list \<Rightarrow> nat" where
  "acl_revision_loop [] = SECURITY_ACL_REVISION_NT4"
| "acl_revision_loop (ace # rest) =
     (case ace_type ace of
        SEC_ACE_TYPE_ACCESS_ALLOWED_OBJECT \<Rightarrow> SECURITY_ACL_REVISION_ADS
      | SEC_ACE_TYPE_ACCESS_DENIED_OBJECT \<Rightarrow> SECURITY_ACL_REVISION_ADS
      | SEC_ACE_TYPE_SYSTEM_AUDIT_OBJECT \<Rightarrow> SECURITY_ACL_REVISION_ADS
      | SEC_ACE_TYPE_SYSTEM_ALARM_OBJECT \<Rightarrow> SECURITY_ACL_REVISION_ADS
      | _ \<Rightarrow> acl_revision_loop rest)"

definition security_descriptor_acl_del ::
    "security_descriptor \<Rightarrow> bool \<Rightarrow> dom_sid option \<Rightarrow> NTSTATUS \<times> security_descriptor" where
  "security_descriptor_acl_del sd sacl_del sid =
     (case (if sacl_del then sacl sd else dacl sd) of
        None \<Rightarrow> (NT_STATUS_OBJECT_NAME_NOT_FOUND, sd)
      | Some acl \<Rightarrow>
          (case acl_del_loop sid 0 (aces acl) False of (as, found) \<Rightarrow>
             if \<not> found then (NT_STATUS_OBJECT_NAME_NOT_FOUND, sd)
             else
               let acl' = acl\<lparr>aces := as, acl_revision := acl_revision_loop as\<rparr> in
               (NT_STATUS_OK, if sacl_del then sd\<lparr>sacl := Some acl'\<rparr> else sd\<lparr>dacl := Some acl'\<rparr>)))"

definition security_descriptor_dacl_del ::
    "security_descriptor \<Rightarrow> dom_sid option \<Rightarrow> NTSTATUS \<times> security_descriptor" where
  "security_descriptor_dacl_del sd sid = security_descriptor_acl_del sd False sid"

definition security_descriptor_sacl_del ::
    "security_descriptor \<Rightarrow> dom_sid option \<Rightarrow> NTSTATUS \<times> security_descriptor" where
  "security_descriptor_sacl_del sd sid = security_descriptor_acl_del sd True sid"

section \<open>Comparing descriptors\<close>

text \<open>Equal pointers have equal contents, on which the comparisons agree
  (\<open>security_ace_equal_refl\<close>, \<open>security_acl_equal_refl\<close>).\<close>

definition security_ace_equal :: "security_ace option \<Rightarrow> security_ace option \<Rightarrow> bool" where
  "security_ace_equal ace1 ace2 =
     (case (ace1, ace2) of
        (None, None) \<Rightarrow> True
      | (Some a1, Some a2) \<Rightarrow>
          if ace_type a1 \<noteq> ace_type a2 then False
          else if ace_flags a1 \<noteq> ace_flags a2 then False
          else if access_mask a1 \<noteq> access_mask a2 then False
          else if \<not> dom_sid_equal (Some (trustee a1)) (Some (trustee a2)) then False
          else True
      | _ \<Rightarrow> False)"

definition security_acl_equal :: "security_acl option \<Rightarrow> security_acl option \<Rightarrow> bool" where
  "security_acl_equal acl1 acl2 =
     (case (acl1, acl2) of
        (None, None) \<Rightarrow> True
      | (Some a1, Some a2) \<Rightarrow>
          if acl_revision a1 \<noteq> acl_revision a2 then False
          else if length (aces a1) \<noteq> length (aces a2) then False
          else list_all2 (\<lambda>x y. security_ace_equal (Some x) (Some y)) (aces a1) (aces a2)
      | _ \<Rightarrow> False)"

definition security_descriptor_equal ::
    "security_descriptor option \<Rightarrow> security_descriptor option \<Rightarrow> bool" where
  "security_descriptor_equal d1 d2 =
     (case (d1, d2) of
        (None, None) \<Rightarrow> True
      | (Some sd1, Some sd2) \<Rightarrow>
          if sd_revision sd1 \<noteq> sd_revision sd2 then False
          else if sd_type sd1 \<noteq> sd_type sd2 then False
          else if \<not> dom_sid_equal (owner_sid sd1) (owner_sid sd2) then False
          else if \<not> dom_sid_equal (group_sid sd1) (group_sid sd2) then False
          else if \<not> security_acl_equal (sacl sd1) (sacl sd2) then False
          else if \<not> security_acl_equal (dacl sd1) (dacl sd2) then False
          else True
      | _ \<Rightarrow> False)"

definition security_descriptor_mask_equal ::
    "security_descriptor option \<Rightarrow> security_descriptor option \<Rightarrow> u32 \<Rightarrow> bool" where
  "security_descriptor_mask_equal d1 d2 msk =
     (case (d1, d2) of
        (None, None) \<Rightarrow> True
      | (Some sd1, Some sd2) \<Rightarrow>
          if sd_revision sd1 \<noteq> sd_revision sd2 then False
          else if (ucast (sd_type sd1) AND msk) \<noteq> (ucast (sd_type sd2) AND msk) then False
          else if \<not> dom_sid_equal (owner_sid sd1) (owner_sid sd2) then False
          else if \<not> dom_sid_equal (group_sid sd1) (group_sid sd2) then False
          else if flag msk (ucast SEC_DESC_DACL_PRESENT) \<and>
                  \<not> security_acl_equal (dacl sd1) (dacl sd2) then False
          else if flag msk (ucast SEC_DESC_SACL_PRESENT) \<and>
                  \<not> security_acl_equal (sacl sd1) (sacl sd2) then False
          else True
      | _ \<Rightarrow> False)"

section \<open>Descriptors from SID strings\<close>

definition zero_guid :: GUID where
  "zero_guid = \<lparr>time_low = 0, time_mid = 0, time_hi_and_version = 0, clock_seq = (0, 0),
                node = replicate 6 0\<rparr>"

text \<open>\<open>talloc_zero(sd, struct security_ace)\<close>.\<close>

definition zero_ace :: security_ace where
  "zero_ace = \<lparr>ace_type = SEC_ACE_TYPE_ACCESS_ALLOWED, ace_flags = 0, ace_size = 0, access_mask = 0,
     ace_object = \<lparr>object_flags = 0, object_type = zero_guid, inherited_type = zero_guid\<rparr>,
     trustee = zero_sid\<rparr>"

text \<open>The variable arguments are a list of quadruples; \<open>mem n\<close> are the allocations of the
  \<open>n\<close>-th round.\<close>

type_synonym ace_args = "string \<times> security_ace_type \<times> u32 \<times> u8"

fun security_descriptor_appendv ::
    "(nat \<Rightarrow> talloc) \<Rightarrow> security_descriptor \<Rightarrow> bool \<Rightarrow> ace_args list \<Rightarrow> security_descriptor option" where
  "security_descriptor_appendv mem sd add_ace_to_sacl [] = Some sd"
| "security_descriptor_appendv mem sd add_ace_to_sacl ((sidstr, type, acc, flg) # ap) =
     (if talloc_fails (mem 0) 0 then None
      else
        case dom_sid_parse_talloc (mem 0 1) sidstr of
          None \<Rightarrow> None
        | Some sid \<Rightarrow>
            let ace = zero_ace\<lparr>ace_type := type, access_mask := acc, ace_flags := flg, trustee := sid\<rparr>;
                status = (if add_ace_to_sacl
                          then security_descriptor_sacl_add (\<lambda>k. mem 0 (2 + k)) sd ace
                          else security_descriptor_dacl_add (\<lambda>k. mem 0 (2 + k)) sd ace) in
            (case status of
               Inl _ \<Rightarrow> None
             | Inr sd' \<Rightarrow> security_descriptor_appendv (\<lambda>n. mem (Suc n)) sd' add_ace_to_sacl ap))"

definition security_descriptor_append ::
    "(nat \<Rightarrow> talloc) \<Rightarrow> security_descriptor \<Rightarrow> ace_args list \<Rightarrow> security_descriptor option" where
  "security_descriptor_append mem sd ap = security_descriptor_appendv mem sd False ap"

definition security_descriptor_createv ::
    "(nat \<Rightarrow> talloc) \<Rightarrow> u16 \<Rightarrow> string option \<Rightarrow> string option \<Rightarrow> bool \<Rightarrow> ace_args list \<Rightarrow>
     security_descriptor option" where
  "security_descriptor_createv mem type owner grp add_ace_to_sacl ap =
     (case security_descriptor_initialise (mem 0) of
        None \<Rightarrow> None
      | Some sd \<Rightarrow>
        case copy_member (\<lambda>s. dom_sid_parse_talloc (mem 0 1) (the s)) owner of None \<Rightarrow> None | Some ow \<Rightarrow>
        case copy_member (\<lambda>s. dom_sid_parse_talloc (mem 0 2) (the s)) grp of None \<Rightarrow> None | Some gr \<Rightarrow>
        security_descriptor_appendv (\<lambda>n. mem (Suc n))
          (sd\<lparr>sd_type := sd_type sd OR type, owner_sid := ow, group_sid := gr\<rparr>) add_ace_to_sacl ap)"

definition security_descriptor_dacl_create ::
    "(nat \<Rightarrow> talloc) \<Rightarrow> u16 \<Rightarrow> string option \<Rightarrow> string option \<Rightarrow> ace_args list \<Rightarrow>
     security_descriptor option" where
  "security_descriptor_dacl_create mem type owner grp ap =
     security_descriptor_createv mem type owner grp False ap"

definition security_descriptor_sacl_create ::
    "(nat \<Rightarrow> talloc) \<Rightarrow> u16 \<Rightarrow> string option \<Rightarrow> string option \<Rightarrow> ace_args list \<Rightarrow>
     security_descriptor option" where
  "security_descriptor_sacl_create mem type owner grp ap =
     security_descriptor_createv mem type owner grp True ap"

definition security_ace_create ::
    "talloc \<Rightarrow> string \<Rightarrow> security_ace_type \<Rightarrow> u32 \<Rightarrow> u8 \<Rightarrow> security_ace option" where
  "security_ace_create mem sid_str type acc flg =
     (if talloc_fails mem 0 then None
      else
        case dom_sid_parse sid_str of
          None \<Rightarrow> None
        | Some sid \<Rightarrow>
            Some (zero_ace\<lparr>trustee := sid, ace_type := type, access_mask := acc, ace_flags := flg\<rparr>))"

definition security_descriptor_with_ms_nfs :: "security_descriptor \<Rightarrow> bool" where
  "security_descriptor_with_ms_nfs psd =
     (case dacl psd of
        None \<Rightarrow> False
      | Some acl \<Rightarrow>
          list_ex (\<lambda>ace. dom_sid_compare_domain global_sid_Unix_NFS (trustee ace) = 0) (aces acl))"

section \<open>Lemmas: equality\<close>

lemma GUID_equal_iff:
  assumes "GUID_wf u1" "GUID_wf u2"
  shows "GUID_equal u1 u2 \<longleftrightarrow> u1 = u2"
proof
  assume eq: "GUID_equal u1 u2"
  have n: "first_diff diff_u8 (node u1) (node u2) [0..<6] = None"
  proof (cases "first_diff diff_u8 (node u1) (node u2) [0..<6]")
    case (Some r)
    with first_diff_neq_0 [of diff_u8] have "r \<noteq> 0" by auto
    with Some eq show ?thesis by (auto simp: GUID_equal_def GUID_compare_def split: if_splits)
  qed
  then have "node u1 = node u2"
    using assms by (auto simp: first_diff_None GUID_wf_def intro!: nth_equalityI)
  with eq show "u1 = u2"
    by (auto simp: GUID_equal_def GUID_compare_def prod_eq_iff split: if_splits)
next
  assume "u1 = u2"
  then show "GUID_equal u1 u2"
    by (auto simp: GUID_equal_def GUID_compare_def split: option.splits)
      (metis first_diff_None option.distinct(1))
qed

lemma GUID_equal_refl [simp]: "GUID_equal u u"
proof -
  have "first_diff diff_u8 (node u) (node u) [0..<6] = None" by (simp add: first_diff_None)
  then show ?thesis by (simp add: GUID_equal_def GUID_compare_def)
qed

lemma security_ace_equal_Some [simp]:
  "security_ace_equal (Some a1) (Some a2) \<longleftrightarrow>
     ace_type a1 = ace_type a2 \<and> ace_flags a1 = ace_flags a2 \<and>
     access_mask a1 = access_mask a2 \<and> sid_same (trustee a1) (trustee a2)"
  by (simp add: security_ace_equal_def)

lemma security_ace_equal_None [simp]:
  "security_ace_equal None a \<longleftrightarrow> a = None" "security_ace_equal a None \<longleftrightarrow> a = None"
  by (auto simp: security_ace_equal_def split: option.splits)

lemma sid_same_refl [simp]: "sid_same s s"
  by (simp add: sid_same_def)

lemma security_ace_equal_refl [simp]: "security_ace_equal a a"
  by (cases a) auto

lemma security_acl_equal_refl [simp]: "security_acl_equal a a"
  by (cases a) (auto simp: security_acl_equal_def list_all2_same)

section \<open>Lemmas: copies\<close>

lemma security_acl_dup_eq: "security_acl_dup mem (Some a) = Some b \<Longrightarrow> b = a"
  by (auto simp: security_acl_dup_def split: if_splits)

lemma security_acl_dup_ok:
  assumes "\<forall>k. mem k \<noteq> None"
  shows "security_acl_dup mem (Some a) = Some a"
  using assms [THEN spec, of 0] assms [THEN spec, of 1] by (auto simp: security_acl_dup_def)

lemma copy_member_eq_Some:
  "copy_member dup m = Some r \<longleftrightarrow>
     (m = None \<and> r = None) \<or> (\<exists>x c. m = Some x \<and> dup (Some x) = Some c \<and> r = Some c)"
  by (auto simp: copy_member_def split: option.splits)

lemma copy_acl_eq:
  "copy_member (security_acl_dup mem) m = Some r \<Longrightarrow> r = m"
  by (auto simp: copy_member_eq_Some dest: security_acl_dup_eq)

lemma dom_sid_dup_sid_same: "dom_sid_dup mem (Some s) = Some s' \<Longrightarrow> sid_same s' s"
  by (auto simp: dom_sid_dup_def sid_same_def nth_append split: option.splits)

lemma copy_sid_equal:
  "copy_member (dom_sid_dup mem) m = Some r \<Longrightarrow> dom_sid_equal r m"
  by (auto simp: copy_member_eq_Some dest: dom_sid_dup_sid_same)

lemma copy_sid_ok: "mem \<noteq> None \<Longrightarrow> \<exists>r. copy_member (dom_sid_dup mem) m = Some r"
  by (cases m) (auto simp: copy_member_def dom_sid_dup_def)

lemma copy_acl_ok: "\<forall>k. mem k \<noteq> None \<Longrightarrow> copy_member (security_acl_dup mem) m = Some m"
  by (cases m) (simp_all add: copy_member_def security_acl_dup_ok)

lemma security_descriptor_copy_equal:
  assumes "security_descriptor_copy mem sd = Some c"
  shows "security_descriptor_equal (Some c) (Some sd)"
    and "sacl c = sacl sd" and "dacl c = dacl sd" and "sd_type c = sd_type sd"
  using assms
  by (auto simp: security_descriptor_copy_def security_descriptor_equal_def
      split: if_splits option.splits dest: copy_sid_equal copy_acl_eq)

lemma security_descriptor_copy_ok:
  assumes "\<forall>k. mem k \<noteq> None"
  shows "\<exists>c. security_descriptor_copy mem sd = Some c"
proof -
  obtain ow gr where
    "copy_member (dom_sid_dup (mem 1)) (owner_sid sd) = Some ow"
    "copy_member (dom_sid_dup (mem 2)) (group_sid sd) = Some gr"
    using copy_sid_ok assms by metis
  with assms show ?thesis
    by (simp add: security_descriptor_copy_def copy_acl_ok)
qed

lemma strip_for_client_parts:
  "owner_sid (strip_for_client sec_info c) = (if flag sec_info SECINFO_OWNER then owner_sid c else None)"
  "group_sid (strip_for_client sec_info c) = (if flag sec_info SECINFO_GROUP then group_sid c else None)"
  "dacl (strip_for_client sec_info c) = (if flag sec_info SECINFO_DACL then dacl c else None)"
  "sacl (strip_for_client sec_info c) = (if flag sec_info SECINFO_SACL then sacl c else None)"
  by (simp_all add: strip_for_client_def Let_def)

section \<open>Lemmas: deleting ACEs\<close>

text \<open>What the deletion loop computes, by recursion on the list: the entry that moves into
  the place of a deleted one is kept without being looked at.\<close>

fun del_skip :: "('a \<Rightarrow> bool) \<Rightarrow> 'a list \<Rightarrow> 'a list" where
  "del_skip P [] = []"
| "del_skip P [x] = (if P x then [] else [x])"
| "del_skip P (x # y # ys) = (if P x then y # del_skip P ys else x # del_skip P (y # ys))"

lemma acl_del_loop_del_skip:
  "acl_del_loop sid (length pre) (pre @ as) found =
     (pre @ del_skip (\<lambda>a :: security_ace. dom_sid_equal sid (Some (trustee a))) as,
      found \<or> (\<exists>a \<in> set as. dom_sid_equal sid (Some (trustee a))))"
proof (induction "\<lambda>a :: security_ace. dom_sid_equal sid (Some (trustee a))" as arbitrary: pre found
    rule: del_skip.induct)
  case (3 x y ys)
  show ?case
  proof (cases "dom_sid_equal sid (Some (trustee x))")
    case True
    with 3(1) [OF True, of "pre @ [y]" True] show ?thesis by (simp add: nth_append)
  next
    case False
    with 3(2) [OF False, of "pre @ [x]" found] show ?thesis by (simp add: nth_append)
  qed
qed (simp_all add: nth_append)

lemma del_skip_filter:
  "successively (\<lambda>x y. \<not> (P x \<and> P y)) as \<Longrightarrow> del_skip P as = filter (\<lambda>x. \<not> P x) as"
proof (induction P as rule: del_skip.induct)
  case (3 P x y ys)
  then show ?case by (cases ys) auto
qed auto

lemma acl_revision_loop_eq:
  "acl_revision_loop as =
     (if list_ex (\<lambda>a. sec_ace_object (ace_type a)) as then SECURITY_ACL_REVISION_ADS
      else SECURITY_ACL_REVISION_NT4)"
  by (induction as) (auto simp: sec_ace_object_def split: security_ace_type.splits)

section \<open>Lemmas: canonical order\<close>

text \<open>The order the two comparison functions impose, as one rank.\<close>

definition inherit_rank :: "security_ace \<Rightarrow> nat" where
  "inherit_rank a = (if flag (ace_flags a) SEC_ACE_FLAG_INHERITED_ACE then 1 else 0)"

definition canon_rank :: "security_ace \<Rightarrow> nat" where
  "canon_rank a =
     (if ace_type a = SEC_ACE_TYPE_ACCESS_DENIED then 0 else 4)
     + (if flag (ace_flags a) SEC_ACE_FLAG_INHERIT_ONLY then 2 else 0)
     + (if flag (ace_flags a) SEC_ACE_FLAGS_SUBOBJECT then 0 else 1)"

text \<open>What the C standard promises of \<open>qsort\<close> for a consistent comparison function.\<close>

definition comparator_ok :: "('a \<Rightarrow> 'a \<Rightarrow> int) \<Rightarrow> bool" where
  "comparator_ok cmp \<longleftrightarrow>
     (\<forall>x y. cmp x y < 0 \<longleftrightarrow> cmp y x > 0) \<and>
     (\<forall>x y z. cmp x y \<le> 0 \<longrightarrow> cmp y z \<le> 0 \<longrightarrow> cmp x z \<le> 0)"

definition qsort_ok :: "'a c_qsort \<Rightarrow> bool" where
  "qsort_ok qsort \<longleftrightarrow>
     (\<forall>cmp xs. comparator_ok cmp \<longrightarrow>
        mset (qsort cmp xs) = mset xs \<and> sorted_wrt (\<lambda>x y. cmp x y \<le> 0) (qsort cmp xs))"

lemma flag_inherited: "w AND SEC_ACE_FLAG_INHERITED_ACE = (if bit w 4 then 16 else 0)"
  using and_single_bit [of w 4] by (simp add: SEC_ACE_FLAG_INHERITED_ACE_def)

lemma nt_ace_inherit_comp_rank:
  "nt_ace_inherit_comp a b = sgn (int (inherit_rank a) - int (inherit_rank b))"
  by (auto simp: nt_ace_inherit_comp_def inherit_rank_def flag_def Let_def flag_inherited)

lemma nt_ace_canon_comp_rank:
  "nt_ace_canon_comp a b = sgn (int (canon_rank a) - int (canon_rank b))"
  unfolding nt_ace_canon_comp_def canon_rank_def
  by (cases "ace_type a = SEC_ACE_TYPE_ACCESS_DENIED"; cases "ace_type b = SEC_ACE_TYPE_ACCESS_DENIED")
    (simp_all split: if_split)

lemma comparator_ok_rank: "comparator_ok (\<lambda>a b. sgn (int (r a) - int (r b)))"
  by (auto simp: comparator_ok_def sgn_if)

lemma comparator_ok_by_rank:
  assumes "\<And>a b. cmp a b = sgn (int (r a) - int (r b))"
  shows "comparator_ok cmp"
proof -
  have "cmp = (\<lambda>a b. sgn (int (r a) - int (r b)))" by (intro ext) (rule assms)
  then show ?thesis by (simp only: comparator_ok_rank)
qed

lemmas comparators_ok =
  comparator_ok_by_rank [where r = inherit_rank, OF nt_ace_inherit_comp_rank]
  comparator_ok_by_rank [where r = canon_rank, OF nt_ace_canon_comp_rank]

lemma first_inherited_eq:
  "first_inherited as = length (takeWhile (\<lambda>a. inherit_rank a = 0) as)"
  by (induction as) (auto simp: inherit_rank_def)

lemma sorted_dropWhile:
  assumes "sorted_wrt R as" and "\<And>x y. R x y \<Longrightarrow> \<not> P x \<Longrightarrow> \<not> P y"
  shows "a \<in> set (dropWhile P as) \<Longrightarrow> \<not> P a"
  using assms by (induction as) (auto split: if_splits)

text \<open>Insertion sort meets the contract of \<open>qsort\<close>, so the contract can hold.\<close>

fun insert_by :: "('a \<Rightarrow> 'a \<Rightarrow> int) \<Rightarrow> 'a \<Rightarrow> 'a list \<Rightarrow> 'a list" where
  "insert_by cmp x [] = [x]"
| "insert_by cmp x (y # ys) = (if cmp x y \<le> 0 then x # y # ys else y # insert_by cmp x ys)"

fun insertion_sort :: "'a c_qsort" where
  "insertion_sort cmp [] = []"
| "insertion_sort cmp (x # xs) = insert_by cmp x (insertion_sort cmp xs)"

lemma mset_insert_by [simp]: "mset (insert_by cmp x ys) = add_mset x (mset ys)"
  by (induction ys) auto

lemma set_insert_by [simp]: "set (insert_by cmp x ys) = insert x (set ys)"
  by (induction ys) auto

lemma insert_by_sorted:
  assumes "comparator_ok cmp" and "sorted_wrt (\<lambda>x y. cmp x y \<le> 0) ys"
  shows "sorted_wrt (\<lambda>x y. cmp x y \<le> 0) (insert_by cmp x ys)"
  using assms(2)
proof (induction ys)
  case (Cons y ys)
  have tr: "cmp x z \<le> 0" if "cmp x y \<le> 0" "cmp y z \<le> 0" for z
    using assms(1) that unfolding comparator_ok_def by blast
  have sw: "cmp y x \<le> 0" if "\<not> cmp x y \<le> 0"
  proof -
    have "cmp y x < 0 \<longleftrightarrow> cmp x y > 0" using assms(1) unfolding comparator_ok_def by blast
    with that show ?thesis by simp
  qed
  show ?case
  proof (cases "cmp x y \<le> 0")
    case True
    with Cons tr show ?thesis by simp
  next
    case False
    with Cons sw show ?thesis by simp
  qed
qed simp

lemma insertion_sort_qsort_ok: "qsort_ok insertion_sort"
  unfolding qsort_ok_def
proof (intro allI impI)
  fix cmp :: "'a \<Rightarrow> 'a \<Rightarrow> int" and xs :: "'a list"
  assume "comparator_ok cmp"
  then show "mset (insertion_sort cmp xs) = mset xs \<and>
      sorted_wrt (\<lambda>x y. cmp x y \<le> 0) (insertion_sort cmp xs)"
    by (induction xs) (auto intro: insert_by_sorted)
qed

lemma qsort_by_rank:
  assumes "qsort_ok qsort" and cmp: "\<And>a b. cmp a b = sgn (int (r a) - int (r b))"
  shows "mset (qsort cmp xs) = mset xs" "set (qsort cmp xs) = set xs"
    and "sorted_wrt (\<lambda>x y. r x \<le> r y) (qsort cmp xs)"
proof -
  have *: "mset (qsort cmp xs) = mset xs \<and> sorted_wrt (\<lambda>x y. cmp x y \<le> 0) (qsort cmp xs)"
    using assms(1) comparator_ok_by_rank [of cmp r] cmp unfolding qsort_ok_def by blast
  then show "mset (qsort cmp xs) = mset xs" by simp
  then show "set (qsort cmp xs) = set xs" by (rule mset_eq_setD)
  have "r x \<le> r y" if "cmp x y \<le> 0" for x y
    using that by (auto simp: cmp sgn_if split: if_splits)
  with * show "sorted_wrt (\<lambda>x y. r x \<le> r y) (qsort cmp xs)"
    by (auto intro: sorted_wrt_weaken)
qed

lemma inherit_rank_le: "inherit_rank a \<le> 1"
  by (simp add: inherit_rank_def)

lemma secinfo_access_required_bits:
  "bit (secinfo_access_required si) 17 \<longleftrightarrow>
     flag si SECINFO_OWNER \<or> flag si SECINFO_GROUP \<or> flag si SECINFO_DACL"
  "bit (secinfo_access_required si) 24 \<longleftrightarrow> flag si SECINFO_SACL"
  by (simp_all add: secinfo_access_required_def bit_or_iff SEC_STD_READ_CONTROL_def
      SEC_FLAG_SYSTEM_SECURITY_def flag_or_mask)

lemma flag_rights:
  "flag w SEC_STD_READ_CONTROL \<longleftrightarrow> bit w 17" "flag w SEC_FLAG_SYSTEM_SECURITY \<longleftrightarrow> bit w 24"
  using flag_single_bit [of 17 w] flag_single_bit [of 24 w]
  by (simp_all add: SEC_STD_READ_CONTROL_def SEC_FLAG_SYSTEM_SECURITY_def)

declare acl_del_loop.simps [simp del]

lemma acl_del_loop_eq:
  "acl_del_loop sid 0 as False =
     (del_skip (\<lambda>a. dom_sid_equal sid (Some (trustee a))) as,
      \<exists>a \<in> set as. dom_sid_equal sid (Some (trustee a)))"
  using acl_del_loop_del_skip [of sid "[]" as False] by simp

text \<open>Values for the witnesses.\<close>

definition world_ace :: "security_ace_type \<Rightarrow> u32 \<Rightarrow> u8 \<Rightarrow> security_ace" where
  "world_ace type acc flg =
     zero_ace\<lparr>ace_type := type, access_mask := acc, ace_flags := flg, trustee := global_sid_World\<rparr>"

lemma world_ace_simps [simp]:
  "ace_type (world_ace type acc flg) = type" "access_mask (world_ace type acc flg) = acc"
  "ace_flags (world_ace type acc flg) = flg" "trustee (world_ace type acc flg) = global_sid_World"
  by (simp_all add: world_ace_def)

lemma zero_ace_simps [simp]:
  "ace_type zero_ace = SEC_ACE_TYPE_ACCESS_ALLOWED" "\<not> sid_same global_sid_World (trustee zero_ace)"
  by (simp_all add: zero_ace_def sid_same_def global_sid_World_def const_sid_def zero_sid_def)

definition sd_with_dacl :: "security_ace list \<Rightarrow> security_descriptor" where
  "sd_with_dacl as =
     \<lparr>sd_revision = 1, sd_type = SEC_DESC_DACL_PRESENT, owner_sid = Some global_sid_System,
      group_sid = None, sacl = None,
      dacl = Some \<lparr>acl_revision = SECURITY_ACL_REVISION_NT4, acl_size = 8, aces = as\<rparr>\<rparr>"

abbreviation talloc_works :: talloc where
  "talloc_works \<equiv> \<lambda>k. Some (replicate 15 0)"

section \<open>Properties\<close>

text \<open>C36: \<open>security_descriptor_copy\<close> succeeds when no allocation fails, and a copy is a
  descriptor that \<open>security_descriptor_equal\<close> identifies with the original, with the same
  control bits and the same ACLs.\<close>

theorem security_descriptor_copy_faithful:
  assumes "\<forall>k. mem k \<noteq> None"
  shows "\<exists>c. security_descriptor_copy mem sd = Some c \<and>
     security_descriptor_equal (Some c) (Some sd) \<and>
     sacl c = sacl sd \<and> dacl c = dacl sd \<and> sd_type c = sd_type sd"
  using security_descriptor_copy_ok [OF assms] security_descriptor_copy_equal by blast

theorem security_descriptor_copy_faithful_witness:
  "\<exists>c. security_descriptor_copy talloc_works (sd_with_dacl []) = Some c \<and>
     security_descriptor_equal (Some c) (Some (sd_with_dacl [])) \<and>
     sacl c = sacl (sd_with_dacl []) \<and> dacl c = dacl (sd_with_dacl []) \<and>
     sd_type c = sd_type (sd_with_dacl [])"
  by (rule security_descriptor_copy_faithful) simp

text \<open>C35: \<open>security_descriptor_for_client\<close> discloses no more than was asked for and than the
  handle's access allows: when it returns a descriptor, its owner, group and DACL are present
  only if they were requested and \<open>SEC_STD_READ_CONTROL\<close> was granted, its SACL only if it was
  requested and \<open>SEC_FLAG_SYSTEM_SECURITY\<close> was granted, and the ACLs it has are the server's.\<close>

theorem security_descriptor_for_client_discloses:
  assumes "security_descriptor_for_client mem ssd sec_info access_granted = (NT_STATUS_OK, Some csd)"
  shows "(owner_sid csd \<noteq> None \<longrightarrow>
            flag sec_info SECINFO_OWNER \<and> flag access_granted SEC_STD_READ_CONTROL) \<and>
         (group_sid csd \<noteq> None \<longrightarrow>
            flag sec_info SECINFO_GROUP \<and> flag access_granted SEC_STD_READ_CONTROL) \<and>
         (dacl csd \<noteq> None \<longrightarrow>
            flag sec_info SECINFO_DACL \<and> flag access_granted SEC_STD_READ_CONTROL \<and>
            dacl csd = dacl ssd) \<and>
         (sacl csd \<noteq> None \<longrightarrow>
            flag sec_info SECINFO_SACL \<and> flag access_granted SEC_FLAG_SYSTEM_SECURITY \<and>
            sacl csd = sacl ssd)"
proof -
  from assms obtain c where c: "security_descriptor_copy mem ssd = Some c"
    and csd: "csd = strip_for_client sec_info c"
    and ok: "mask_le (secinfo_access_required sec_info) access_granted"
    by (auto simp: security_descriptor_for_client_def not_flag_not [symmetric]
        split: if_splits option.splits)
  from ok have "bit (secinfo_access_required sec_info) 17 \<longrightarrow> bit access_granted 17"
    "bit (secinfo_access_required sec_info) 24 \<longrightarrow> bit access_granted 24"
    by (simp_all add: mask_le_iff_bit)
  then show ?thesis
    using security_descriptor_copy_equal(2,3) [OF c]
    by (simp add: csd strip_for_client_parts flag_rights secinfo_access_required_bits)
qed

theorem security_descriptor_for_client_discloses_witness:
  "\<exists>csd. security_descriptor_for_client talloc_works (sd_with_dacl []) SECINFO_DACL SEC_STD_READ_CONTROL
     = (NT_STATUS_OK, Some csd) \<and> sacl csd = None \<and> owner_sid csd = None \<and>
     dacl csd = dacl (sd_with_dacl [])"
proof -
  let ?call = "security_descriptor_for_client talloc_works (sd_with_dacl []) SECINFO_DACL SEC_STD_READ_CONTROL"
  have "\<exists>csd. ?call = (NT_STATUS_OK, Some csd) \<and> dacl csd \<noteq> None"
    by (simp add: security_descriptor_for_client_def secinfo_access_required_def flag_def
        security_descriptor_copy_def copy_member_def sd_with_dacl_def dom_sid_dup_def
        security_acl_dup_def strip_for_client_parts SECINFO_DACL_def SECINFO_OWNER_def
        SECINFO_GROUP_def SECINFO_SACL_def SEC_STD_READ_CONTROL_def)
  then obtain csd where ok: "?call = (NT_STATUS_OK, Some csd)" and "dacl csd \<noteq> None" by blast
  with security_descriptor_for_client_discloses [OF ok] show ?thesis
    by (auto simp: flag_def SECINFO_DACL_def SECINFO_OWNER_def SECINFO_SACL_def)
qed

text \<open>C37: \<open>dacl_sort_into_canonical_order\<close> permutes the entries, and puts every explicit entry
  before every inherited one and, within each group, entries of type access-denied first, then the
  entries that apply to the object itself before the inherit-only ones, and among these the ones that
  objects or containers inherit first. Object specific denials are of another type and
  rank with the allowing entries. Nothing is assumed of \<open>qsort\<close> beyond the C standard.\<close>

theorem dacl_sort_canonical:
  assumes "qsort_ok qsort"
  shows "mset (dacl_sort_into_canonical_order qsort as) = mset as \<and>
    sorted_wrt (\<lambda>a b. inherit_rank a < inherit_rank b \<or>
                       inherit_rank a = inherit_rank b \<and> canon_rank a \<le> canon_rank b)
      (dacl_sort_into_canonical_order qsort as)"
proof (cases "as = []")
  case False
  define l where "l = qsort nt_ace_inherit_comp as"
  define n where "n = takeWhile (\<lambda>a. inherit_rank a = 0) l"
  define h where "h = dropWhile (\<lambda>a. inherit_rank a = 0) l"
  note by_inherit = qsort_by_rank [where cmp = nt_ace_inherit_comp and r = inherit_rank and xs = as,
      OF assms nt_ace_inherit_comp_rank, folded l_def]
  note by_canon = qsort_by_rank [where cmp = nt_ace_canon_comp and r = canon_rank,
      OF assms nt_ace_canon_comp_rank]
  have eq: "dacl_sort_into_canonical_order qsort as =
      qsort nt_ace_canon_comp n @ qsort nt_ace_canon_comp h"
    using False
    by (simp add: dacl_sort_into_canonical_order_def Let_def l_def first_inherited_eq n_def h_def
        takeWhile_eq_take [symmetric] dropWhile_eq_drop [symmetric])
  have n0: "\<forall>a \<in> set n. inherit_rank a = 0" by (auto simp: n_def dest: set_takeWhileD)
  have h1: "\<forall>a \<in> set h. inherit_rank a = 1"
  proof
    fix a assume "a \<in> set h"
    with sorted_dropWhile [OF by_inherit(3), of "\<lambda>a. inherit_rank a = 0" a]
    have "inherit_rank a \<noteq> 0" by (simp add: h_def)
    with inherit_rank_le [of a] show "inherit_rank a = 1" by simp
  qed
  have "mset n + mset h = mset as"
    using by_inherit(1) by (metis h_def mset_append n_def takeWhile_dropWhile_id)
  moreover have "sorted_wrt (\<lambda>a b. inherit_rank a < inherit_rank b \<or>
      inherit_rank a = inherit_rank b \<and> canon_rank a \<le> canon_rank b) (qsort nt_ace_canon_comp n)"
    using n0 by_canon(2) by (intro sorted_wrt_weaken [OF by_canon(3)]) auto
  moreover have "sorted_wrt (\<lambda>a b. inherit_rank a < inherit_rank b \<or>
      inherit_rank a = inherit_rank b \<and> canon_rank a \<le> canon_rank b) (qsort nt_ace_canon_comp h)"
    using h1 by_canon(2) by (intro sorted_wrt_weaken [OF by_canon(3)]) auto
  moreover have "inherit_rank a < inherit_rank b"
    if "a \<in> set (qsort nt_ace_canon_comp n)" "b \<in> set (qsort nt_ace_canon_comp h)" for a b
    using that n0 h1 by (simp add: by_canon(2))
  ultimately show ?thesis
    unfolding eq sorted_wrt_append mset_append by_canon(1) by blast
qed (simp add: dacl_sort_into_canonical_order_def)

theorem dacl_sort_canonical_witness:
  "qsort_ok (insertion_sort :: security_ace c_qsort) \<and>
   dacl_sort_into_canonical_order insertion_sort
     [world_ace SEC_ACE_TYPE_ACCESS_ALLOWED 1 0x10, world_ace SEC_ACE_TYPE_ACCESS_ALLOWED 2 0,
      world_ace SEC_ACE_TYPE_ACCESS_DENIED 4 0]
   = [world_ace SEC_ACE_TYPE_ACCESS_DENIED 4 0, world_ace SEC_ACE_TYPE_ACCESS_ALLOWED 2 0,
      world_ace SEC_ACE_TYPE_ACCESS_ALLOWED 1 0x10] \<and>
   mset (dacl_sort_into_canonical_order insertion_sort
     [world_ace SEC_ACE_TYPE_ACCESS_ALLOWED 1 0x10, world_ace SEC_ACE_TYPE_ACCESS_ALLOWED 2 0])
   = mset [world_ace SEC_ACE_TYPE_ACCESS_ALLOWED 1 0x10, world_ace SEC_ACE_TYPE_ACCESS_ALLOWED 2 0]"
  using dacl_sort_canonical [OF insertion_sort_qsort_ok,
      of "[world_ace SEC_ACE_TYPE_ACCESS_ALLOWED 1 0x10, world_ace SEC_ACE_TYPE_ACCESS_ALLOWED 2 0]"]
  by (simp add: insertion_sort_qsort_ok dacl_sort_into_canonical_order_def Let_def
      nt_ace_inherit_comp_def nt_ace_canon_comp_def flag_def
      SEC_ACE_FLAG_INHERITED_ACE_def SEC_ACE_FLAG_INHERIT_ONLY_def
      SEC_ACE_FLAG_CONTAINER_INHERIT_def SEC_ACE_FLAG_OBJECT_INHERIT_def)

text \<open>So an entry that denies access to a property can end up behind one that allows access.\<close>

lemma denied_object_behind_allowed:
  "dacl_sort_into_canonical_order insertion_sort
     [world_ace SEC_ACE_TYPE_ACCESS_DENIED_OBJECT 4 0, world_ace SEC_ACE_TYPE_ACCESS_ALLOWED 2 1]
   = [world_ace SEC_ACE_TYPE_ACCESS_ALLOWED 2 1, world_ace SEC_ACE_TYPE_ACCESS_DENIED_OBJECT 4 0]"
  by (simp add: dacl_sort_into_canonical_order_def Let_def nt_ace_inherit_comp_def nt_ace_canon_comp_def flag_def
      SEC_ACE_FLAG_INHERITED_ACE_def SEC_ACE_FLAG_INHERIT_ONLY_def SEC_ACE_FLAG_CONTAINER_INHERIT_def
      SEC_ACE_FLAG_OBJECT_INHERIT_def)

text \<open>C38: deleting a trustee from a DACL that has entries for it, no two of them adjacent,
  removes exactly those entries, keeps the order of the others, and sets the revision to ADS
  just when an object entry remains.\<close>

theorem security_descriptor_dacl_del_removes:
  assumes "dacl sd = Some acl"
    and "\<exists>a \<in> set (aces acl). dom_sid_equal sid (Some (trustee a))"
    and "successively (\<lambda>a b. \<not> (dom_sid_equal sid (Some (trustee a)) \<and> dom_sid_equal sid (Some (trustee b))))
           (aces acl)"
  shows "security_descriptor_dacl_del sd sid =
    (let rest = filter (\<lambda>a. \<not> dom_sid_equal sid (Some (trustee a))) (aces acl) in
     (NT_STATUS_OK,
      sd\<lparr>dacl := Some (acl\<lparr>aces := rest,
          acl_revision := (if list_ex (\<lambda>a. sec_ace_object (ace_type a)) rest
                           then SECURITY_ACL_REVISION_ADS else SECURITY_ACL_REVISION_NT4)\<rparr>)\<rparr>))"
  using assms(1,2) del_skip_filter [OF assms(3)]
  by (simp add: security_descriptor_dacl_del_def security_descriptor_acl_del_def acl_del_loop_eq
      acl_revision_loop_eq Let_def)

theorem security_descriptor_dacl_del_removes_witness:
  "security_descriptor_dacl_del
     (sd_with_dacl [world_ace SEC_ACE_TYPE_ACCESS_ALLOWED 1 0, zero_ace, world_ace SEC_ACE_TYPE_ACCESS_DENIED 2 0])
     (Some global_sid_World) = (NT_STATUS_OK, sd_with_dacl [zero_ace])"
  using security_descriptor_dacl_del_removes [where sid = "Some global_sid_World" and
      sd = "sd_with_dacl [world_ace SEC_ACE_TYPE_ACCESS_ALLOWED 1 0, zero_ace,
                          world_ace SEC_ACE_TYPE_ACCESS_DENIED 2 0]"]
  by (simp add: sd_with_dacl_def sec_ace_object_def)

text \<open>With two neighbouring entries for the trustee the deletion reports success and leaves
  the second one in place.\<close>

lemma security_descriptor_dacl_del_leaves_neighbour:
  assumes "dacl sd = Some acl" and "aces acl = [a, b]"
    and "dom_sid_equal sid (Some (trustee a))" and "dom_sid_equal sid (Some (trustee b))"
  shows "fst (security_descriptor_dacl_del sd sid) = NT_STATUS_OK \<and>
    map_option aces (dacl (snd (security_descriptor_dacl_del sd sid))) = Some [b]"
  using assms
  by (simp add: security_descriptor_dacl_del_def security_descriptor_acl_del_def acl_del_loop_eq)

lemma security_descriptor_dacl_del_leaves_neighbour_witness:
  "map_option aces (dacl (snd (security_descriptor_dacl_del
      (sd_with_dacl [world_ace SEC_ACE_TYPE_ACCESS_ALLOWED 1 0, world_ace SEC_ACE_TYPE_ACCESS_ALLOWED 2 0])
      (Some global_sid_World))))
    = Some [world_ace SEC_ACE_TYPE_ACCESS_ALLOWED 2 0]"
  using security_descriptor_dacl_del_leaves_neighbour
    [of "sd_with_dacl [world_ace SEC_ACE_TYPE_ACCESS_ALLOWED 1 0, world_ace SEC_ACE_TYPE_ACCESS_ALLOWED 2 0]"
      _ "world_ace SEC_ACE_TYPE_ACCESS_ALLOWED 1 0" "world_ace SEC_ACE_TYPE_ACCESS_ALLOWED 2 0"
      "Some global_sid_World"]
  by (simp add: sd_with_dacl_def)

end
