(* ===== verification/Access_Check.thy ===== *)
theory Access_Check
  imports Security_Desc
begin

text \<open>
  The access check of \<open>libcli/security/access_check.c\<close> and the object trees of
  \<open>libcli/security/object_tree.c\<close>: mapping generic rights, the maximum allowed access, the
  check of a file or other object against its descriptor, the variant with backup and restore
  privileges, and the directory service variant. The reference definition
  \<open>policy_grants\<close> decides each right on its own, by the first entry of the DACL that
  applies to the caller and names the right; the lemmas relate the mask arithmetic of the
  code to it.
\<close>

section \<open>Mapping generic and standard rights\<close>

record generic_mapping =
  generic_read :: u32
  generic_write :: u32
  generic_execute :: u32
  generic_all :: u32

record standard_mapping =
  std_read :: u32
  std_write :: u32
  std_execute :: u32
  std_all :: u32

definition GENERIC_READ_ACCESS :: u32 where "GENERIC_READ_ACCESS = 0x80000000"
definition GENERIC_WRITE_ACCESS :: u32 where "GENERIC_WRITE_ACCESS = 0x40000000"
definition GENERIC_EXECUTE_ACCESS :: u32 where "GENERIC_EXECUTE_ACCESS = 0x20000000"
definition GENERIC_ALL_ACCESS :: u32 where "GENERIC_ALL_ACCESS = 0x10000000"

definition se_map_generic :: "u32 \<Rightarrow> generic_mapping \<Rightarrow> u32" where
  "se_map_generic access mapping =
     (let access = (if flag access GENERIC_READ_ACCESS
                    then (access AND NOT GENERIC_READ_ACCESS) OR generic_read mapping else access);
          access = (if flag access GENERIC_WRITE_ACCESS
                    then (access AND NOT GENERIC_WRITE_ACCESS) OR generic_write mapping else access);
          access = (if flag access GENERIC_EXECUTE_ACCESS
                    then (access AND NOT GENERIC_EXECUTE_ACCESS) OR generic_execute mapping else access);
          access = (if flag access GENERIC_ALL_ACCESS
                    then (access AND NOT GENERIC_ALL_ACCESS) OR generic_all mapping else access)
      in access)"

definition security_acl_map_generic :: "security_acl option \<Rightarrow> generic_mapping \<Rightarrow> security_acl option" where
  "security_acl_map_generic sa mapping =
     (case sa of
        None \<Rightarrow> None
      | Some a \<Rightarrow>
          Some (a\<lparr>aces := map (\<lambda>ace. ace\<lparr>access_mask := se_map_generic (access_mask ace) mapping\<rparr>)
                              (aces a)\<rparr>))"

definition SEC_STD_OTHER :: u32 where
  "SEC_STD_OTHER = SEC_STD_DELETE OR SEC_STD_WRITE_DAC OR SEC_STD_WRITE_OWNER OR SEC_STD_SYNCHRONIZE"

definition se_map_standard :: "u32 \<Rightarrow> standard_mapping \<Rightarrow> u32" where
  "se_map_standard access mapping =
     (let access = (if flag access SEC_STD_READ_CONTROL
                    then (access AND NOT SEC_STD_READ_CONTROL) OR std_read mapping else access);
          access = (if flag access SEC_STD_OTHER
                    then (access AND NOT SEC_STD_OTHER) OR std_all mapping else access)
      in access)"

section \<open>The owner and the entries that apply\<close>

text \<open>The search for an explicit owner rights entry.\<close>

fun have_owner_rights_loop :: "security_ace list \<Rightarrow> bool" where
  "have_owner_rights_loop [] = False"
| "have_owner_rights_loop (ace # rest) =
     (if flag (ace_flags ace) SEC_ACE_FLAG_INHERIT_ONLY then have_owner_rights_loop rest
      else if dom_sid_equal (Some (trustee ace)) (Some global_sid_Owner_Rights) then True
      else have_owner_rights_loop rest)"

text \<open>The conditions under which a round of the loops over the DACL is skipped.\<close>

definition skip_ace :: "bool \<Rightarrow> security_token \<Rightarrow> security_ace \<Rightarrow> bool" where
  "skip_ace am_owner token ace =
     (if flag (ace_flags ace) SEC_ACE_FLAG_INHERIT_ONLY then True
      else
        let is_owner_rights_ace =
              (if am_owner then dom_sid_equal (Some (trustee ace)) (Some global_sid_Owner_Rights)
               else False) in
        \<not> is_owner_rights_ace \<and> \<not> security_token_has_sid token (Some (trustee ace)))"

section \<open>Maximum allowed access\<close>

fun max_allowed_loop ::
    "bool \<Rightarrow> security_token \<Rightarrow> security_ace list \<Rightarrow> u32 \<Rightarrow> u32 \<Rightarrow> u32 \<times> u32" where
  "max_allowed_loop am_owner token [] granted denied = (granted, denied)"
| "max_allowed_loop am_owner token (ace # rest) granted denied =
     (if skip_ace am_owner token ace then max_allowed_loop am_owner token rest granted denied
      else
        case ace_type ace of
          SEC_ACE_TYPE_ACCESS_ALLOWED \<Rightarrow>
            max_allowed_loop am_owner token rest (granted OR access_mask ace) denied
        | SEC_ACE_TYPE_ACCESS_DENIED \<Rightarrow>
            max_allowed_loop am_owner token rest granted (denied OR (NOT granted AND access_mask ace))
        | SEC_ACE_TYPE_ACCESS_DENIED_OBJECT \<Rightarrow>
            max_allowed_loop am_owner token rest granted (denied OR (NOT granted AND access_mask ace))
        | _ \<Rightarrow> max_allowed_loop am_owner token rest granted denied)"

definition OWNER_RIGHTS :: u32 where
  "OWNER_RIGHTS = SEC_STD_WRITE_DAC OR SEC_STD_READ_CONTROL"

definition access_check_max_allowed :: "security_descriptor \<Rightarrow> security_token \<Rightarrow> u32" where
  "access_check_max_allowed sd token =
     (case dacl sd of
        None \<Rightarrow> (if security_token_has_sid token (owner_sid sd) then OWNER_RIGHTS else 0)
      | Some acl \<Rightarrow>
          let am_owner = security_token_has_sid token (owner_sid sd);
              have_owner_rights_ace = (am_owner \<and> have_owner_rights_loop (aces acl));
              granted = (if am_owner \<and> \<not> have_owner_rights_ace then OWNER_RIGHTS else 0) in
          (case max_allowed_loop am_owner token (aces acl) granted 0 of
             (granted, denied) \<Rightarrow> granted AND NOT denied))"

section \<open>The access check\<close>

fun access_check_loop ::
    "bool \<Rightarrow> security_token \<Rightarrow> security_ace list \<Rightarrow> u32 \<Rightarrow> u32 \<Rightarrow> u32 \<times> u32" where
  "access_check_loop am_owner token [] bits_remaining denied_bits = (bits_remaining, denied_bits)"
| "access_check_loop am_owner token (ace # rest) bits_remaining denied_bits =
     (if bits_remaining = 0 then (bits_remaining, denied_bits)
      else if skip_ace am_owner token ace
      then access_check_loop am_owner token rest bits_remaining denied_bits
      else
        case ace_type ace of
          SEC_ACE_TYPE_ACCESS_ALLOWED \<Rightarrow>
            access_check_loop am_owner token rest (bits_remaining AND NOT (access_mask ace)) denied_bits
        | SEC_ACE_TYPE_ACCESS_DENIED \<Rightarrow>
            access_check_loop am_owner token rest bits_remaining
              (denied_bits OR (bits_remaining AND access_mask ace))
        | SEC_ACE_TYPE_ACCESS_DENIED_OBJECT \<Rightarrow>
            access_check_loop am_owner token rest bits_remaining
              (denied_bits OR (bits_remaining AND access_mask ace))
        | _ \<Rightarrow> access_check_loop am_owner token rest bits_remaining denied_bits)"

text \<open>The part after the label \<open>done\<close>.\<close>

definition access_check_done :: "u32 \<Rightarrow> u32 \<Rightarrow> NTSTATUS \<times> u32" where
  "access_check_done bits_remaining access_granted =
     (if bits_remaining \<noteq> 0 then (NT_STATUS_ACCESS_DENIED, bits_remaining)
      else (NT_STATUS_OK, access_granted))"

text \<open>The result is the status and the final value of \<open>*access_granted\<close>.\<close>

definition se_access_check :: "security_descriptor \<Rightarrow> security_token \<Rightarrow> u32 \<Rightarrow> NTSTATUS \<times> u32" where
  "se_access_check sd token access_desired =
     (let access_desired =
            (if flag access_desired SEC_FLAG_MAXIMUM_ALLOWED
             then (access_desired OR access_check_max_allowed sd token) AND NOT SEC_FLAG_MAXIMUM_ALLOWED
             else access_desired);
          access_granted = access_desired;
          bits_remaining = access_desired in
      case dacl sd of
        None \<Rightarrow>
          if flag (sd_type sd) SEC_DESC_DACL_PRESENT then (NT_STATUS_OK, access_desired)
          else access_check_done bits_remaining access_granted
      | Some acl \<Rightarrow>
          let am_owner = security_token_has_sid token (owner_sid sd);
              have_owner_rights_ace = (am_owner \<and> have_owner_rights_loop (aces acl));
              bits_remaining = (if am_owner \<and> \<not> have_owner_rights_ace
                                then bits_remaining AND NOT OWNER_RIGHTS else bits_remaining) in
          (case access_check_loop am_owner token (aces acl) bits_remaining 0 of
             (bits_remaining, explicitly_denied_bits) \<Rightarrow>
               let bits_remaining = bits_remaining OR explicitly_denied_bits in
               if flag bits_remaining SEC_FLAG_SYSTEM_SECURITY \<and>
                  \<not> security_token_has_privilege (Some token) SEC_PRIV_SECURITY
               then (NT_STATUS_PRIVILEGE_NOT_HELD, access_granted)
               else
                 let bits_remaining =
                       (if flag bits_remaining SEC_FLAG_SYSTEM_SECURITY
                        then bits_remaining AND NOT SEC_FLAG_SYSTEM_SECURITY else bits_remaining);
                     bits_remaining =
                       (if flag bits_remaining SEC_STD_WRITE_OWNER \<and>
                           security_token_has_privilege (Some token) SEC_PRIV_TAKE_OWNERSHIP
                        then bits_remaining AND NOT SEC_STD_WRITE_OWNER else bits_remaining) in
                 access_check_done bits_remaining access_granted))"

section \<open>The file server's access check\<close>

definition SEC_RIGHTS_FILE_READ :: u32 where "SEC_RIGHTS_FILE_READ = 0x00120089"
definition SEC_RIGHTS_FILE_WRITE :: u32 where "SEC_RIGHTS_FILE_WRITE = 0x00120116"

definition SEC_RIGHTS_PRIV_BACKUP :: u32 where
  "SEC_RIGHTS_PRIV_BACKUP =
     SEC_STD_READ_CONTROL OR SEC_FLAG_SYSTEM_SECURITY OR SEC_RIGHTS_FILE_READ OR 0x00000020"

definition SEC_RIGHTS_PRIV_RESTORE :: u32 where
  "SEC_RIGHTS_PRIV_RESTORE =
     SEC_STD_WRITE_DAC OR SEC_STD_WRITE_OWNER OR SEC_FLAG_SYSTEM_SECURITY OR SEC_RIGHTS_FILE_WRITE
     OR 0x00000002 OR 0x00000004 OR SEC_STD_DELETE"

definition se_file_access_check ::
    "security_descriptor \<Rightarrow> security_token \<Rightarrow> bool \<Rightarrow> u32 \<Rightarrow> NTSTATUS \<times> u32" where
  "se_file_access_check sd token priv_open_requested access_desired =
     (if \<not> priv_open_requested then se_access_check sd token access_desired
      else
        let backup = security_token_has_privilege (Some token) SEC_PRIV_BACKUP;
            restore = security_token_has_privilege (Some token) SEC_PRIV_RESTORE;
            access_desired =
              (if flag access_desired SEC_FLAG_MAXIMUM_ALLOWED then
                 let a = (access_desired OR access_check_max_allowed sd token)
                           AND NOT SEC_FLAG_MAXIMUM_ALLOWED;
                     a = (if backup then a OR SEC_RIGHTS_PRIV_BACKUP else a);
                     a = (if restore then a OR SEC_RIGHTS_PRIV_RESTORE else a)
                 in a
               else access_desired) in
        (case se_access_check sd token access_desired of (status, access_granted) \<Rightarrow>
           if status \<noteq> NT_STATUS_ACCESS_DENIED then (status, access_granted)
           else
             let bits_remaining = access_granted;
                 bits_remaining = (if flag bits_remaining SEC_RIGHTS_PRIV_BACKUP \<and> backup
                                   then bits_remaining AND NOT SEC_RIGHTS_PRIV_BACKUP
                                   else bits_remaining);
                 bits_remaining = (if flag bits_remaining SEC_RIGHTS_PRIV_RESTORE \<and> restore
                                   then bits_remaining AND NOT SEC_RIGHTS_PRIV_RESTORE
                                   else bits_remaining) in
             if bits_remaining \<noteq> 0 then (NT_STATUS_ACCESS_DENIED, bits_remaining)
             else (NT_STATUS_OK, access_granted)))"

section \<open>Object trees\<close>

datatype object_tree =
  Node (remaining_access: u32) (tree_guid: GUID) (tree_children: "object_tree list")

text \<open>A pointer to a node of a tree is the path of child indices from the root.\<close>

fun node_at :: "object_tree \<Rightarrow> nat list \<Rightarrow> object_tree" where
  "node_at t [] = t"
| "node_at (Node ra g ch) (i # p) = node_at (ch ! i) p"

fun update_node :: "(object_tree \<Rightarrow> object_tree) \<Rightarrow> object_tree \<Rightarrow> nat list \<Rightarrow> object_tree" where
  "update_node f t [] = f t"
| "update_node f (Node ra g ch) (i # p) = Node ra g (ch[i := update_node f (ch ! i) p])"

fun get_object_tree_by_GUID :: "object_tree \<Rightarrow> GUID \<Rightarrow> nat list option"
  and get_child_by_GUID :: "nat \<Rightarrow> object_tree list \<Rightarrow> GUID \<Rightarrow> nat list option" where
  "get_object_tree_by_GUID (Node ra g ch) guid =
     (if GUID_equal g guid then Some [] else get_child_by_GUID 0 ch guid)"
| "get_child_by_GUID i [] guid = None"
| "get_child_by_GUID i (c # cs) guid =
     (case get_object_tree_by_GUID c guid of
        Some p \<Rightarrow> Some (i # p)
      | None \<Rightarrow> get_child_by_GUID (i + 1) cs guid)"

fun object_tree_modify_access :: "u32 \<Rightarrow> object_tree \<Rightarrow> object_tree" where
  "object_tree_modify_access acc (Node ra g ch) =
     Node (ra AND NOT acc) g (map (object_tree_modify_access acc) ch)"

text \<open>
  Inserting a node. The four results are: the call returns \<open>false\<close>; it returns \<open>true\<close>
  without doing anything; \<open>root\<close> was \<open>NULL\<close> and the new node is a tree of its own; or the
  root has changed and \<open>*new_node_out\<close> points to the child with the given index.
\<close>

datatype insert_result =
    Insert_Failed
  | Insert_Nothing
  | Insert_Root object_tree
  | Insert_Child object_tree nat

fun find_child :: "nat \<Rightarrow> object_tree list \<Rightarrow> GUID \<Rightarrow> nat option" where
  "find_child i [] guid = None"
| "find_child i (c # cs) guid =
     (if GUID_equal (tree_guid c) guid then Some i else find_child (i + 1) cs guid)"

definition insert_in_object_tree ::
    "talloc \<Rightarrow> GUID option \<Rightarrow> u32 \<Rightarrow> object_tree option \<Rightarrow> insert_result" where
  "insert_in_object_tree mem guid init_access root =
     (case guid of
        None \<Rightarrow> Insert_Nothing
      | Some g \<Rightarrow>
          if GUID_all_zero g then Insert_Nothing
          else
            (case root of
               None \<Rightarrow>
                 if talloc_fails mem 0 then Insert_Failed else Insert_Root (Node init_access g [])
             | Some (Node ra rg ch) \<Rightarrow>
                 (case find_child 0 ch g of
                    Some i \<Rightarrow>
                      (case ch ! i of Node ca cg cch \<Rightarrow>
                         Insert_Child (Node ra rg (ch[i := Node (ca OR init_access) cg cch])) i)
                  | None \<Rightarrow>
                      if talloc_fails mem 0 then Insert_Failed
                      else Insert_Child (Node ra rg (ch @ [Node init_access g []])) (length ch))))"

section \<open>The directory service access check\<close>

definition SEC_ADS_CONTROL_ACCESS :: u32 where "SEC_ADS_CONTROL_ACCESS = 0x00000100"

definition get_ace_object_type :: "security_ace \<Rightarrow> GUID option" where
  "get_ace_object_type ace =
     (if flag (object_flags (ace_object ace)) SEC_ACE_OBJECT_TYPE_PRESENT
      then Some (object_type (ace_object ace)) else None)"

text \<open>The results are the status, the tree afterwards and \<open>*grant_access\<close>.\<close>

definition check_object_specific_access ::
    "security_ace \<Rightarrow> object_tree option \<Rightarrow> NTSTATUS \<times> object_tree option \<times> bool" where
  "check_object_specific_access ace tree =
     (case tree of
        None \<Rightarrow> (NT_STATUS_OK, tree, False)
      | Some t \<Rightarrow>
          (case (case get_ace_object_type ace of
                   None \<Rightarrow> Some []
                 | Some type \<Rightarrow> get_object_tree_by_GUID t type) of
             None \<Rightarrow> (NT_STATUS_OK, tree, False)
           | Some ptr \<Rightarrow>
               if ace_type ace = SEC_ACE_TYPE_ACCESS_ALLOWED_OBJECT then
                 let t' = update_node (object_tree_modify_access (access_mask ace)) t ptr in
                 if remaining_access (node_at t' ptr) = 0 then (NT_STATUS_OK, Some t', True)
                 else if flag (access_mask ace) SEC_ADS_CONTROL_ACCESS
                 then (NT_STATUS_OK, Some t', True)
                 else (NT_STATUS_OK, Some t', False)
               else if flag (remaining_access (node_at t ptr)) (access_mask ace)
               then (NT_STATUS_ACCESS_DENIED, tree, False)
               else (NT_STATUS_OK, tree, False)))"

text \<open>\<open>dom_sid_parse(SID_NT_SELF, &self_sid)\<close>; the return value is not tested.\<close>

definition self_sid :: dom_sid where
  "self_sid = (case dom_sid_parse ''S-1-5-10'' of Some s \<Rightarrow> s | None \<Rightarrow> zero_sid)"

definition ds_trustee :: "dom_sid option \<Rightarrow> security_ace \<Rightarrow> dom_sid" where
  "ds_trustee replace_sid ace =
     (case replace_sid of
        Some r \<Rightarrow> if dom_sid_equal (Some (trustee ace)) (Some self_sid) then r else trustee ace
      | None \<Rightarrow> trustee ace)"

text \<open>The loop over the DACL. \<open>Inl\<close> is a \<open>return\<close> from within it, \<open>Inr\<close> the bits that
  remain at its end; the tree the caller passed is changed in either case.\<close>

fun ds_loop ::
    "security_token \<Rightarrow> dom_sid option \<Rightarrow> security_ace list \<Rightarrow> u32 \<Rightarrow> object_tree option \<Rightarrow>
     (NTSTATUS + u32) \<times> object_tree option" where
  "ds_loop token replace_sid [] bits_remaining tree = (Inr bits_remaining, tree)"
| "ds_loop token replace_sid (ace # rest) bits_remaining tree =
     (if bits_remaining = 0 then (Inr bits_remaining, tree)
      else if flag (ace_flags ace) SEC_ACE_FLAG_INHERIT_ONLY
      then ds_loop token replace_sid rest bits_remaining tree
      else if \<not> security_token_has_sid token (Some (ds_trustee replace_sid ace))
      then ds_loop token replace_sid rest bits_remaining tree
      else
        case ace_type ace of
          SEC_ACE_TYPE_ACCESS_ALLOWED \<Rightarrow>
            ds_loop token replace_sid rest (bits_remaining AND NOT (access_mask ace))
              (map_option (object_tree_modify_access (access_mask ace)) tree)
        | SEC_ACE_TYPE_ACCESS_DENIED \<Rightarrow>
            if flag bits_remaining (access_mask ace) then (Inl NT_STATUS_ACCESS_DENIED, tree)
            else ds_loop token replace_sid rest bits_remaining tree
        | SEC_ACE_TYPE_ACCESS_DENIED_OBJECT \<Rightarrow>
            (case check_object_specific_access ace tree of (status, tree', grant_access) \<Rightarrow>
               if status \<noteq> NT_STATUS_OK then (Inl status, tree')
               else if grant_access then (Inl NT_STATUS_OK, tree')
               else ds_loop token replace_sid rest bits_remaining tree')
        | SEC_ACE_TYPE_ACCESS_ALLOWED_OBJECT \<Rightarrow>
            (case check_object_specific_access ace tree of (status, tree', grant_access) \<Rightarrow>
               if status \<noteq> NT_STATUS_OK then (Inl status, tree')
               else if grant_access then (Inl NT_STATUS_OK, tree')
               else ds_loop token replace_sid rest bits_remaining tree')
        | _ \<Rightarrow> ds_loop token replace_sid rest bits_remaining tree)"

text \<open>The result is the status, the final value of \<open>*access_granted\<close> and the tree.\<close>

definition sec_access_check_ds ::
    "security_descriptor \<Rightarrow> security_token \<Rightarrow> u32 \<Rightarrow> object_tree option \<Rightarrow> dom_sid option \<Rightarrow>
     NTSTATUS \<times> u32 \<times> object_tree option" where
  "sec_access_check_ds sd token access_desired tree replace_sid =
     (let access_desired =
            (if flag access_desired SEC_FLAG_MAXIMUM_ALLOWED
             then (access_desired OR access_check_max_allowed sd token) AND NOT SEC_FLAG_MAXIMUM_ALLOWED
             else access_desired);
          access_granted = access_desired;
          bits_remaining = access_desired in
      if flag access_desired SEC_FLAG_SYSTEM_SECURITY \<and>
         \<not> security_token_has_privilege (Some token) SEC_PRIV_SECURITY
      then (NT_STATUS_PRIVILEGE_NOT_HELD, access_granted, tree)
      else
        let bits_remaining =
              (if flag access_desired SEC_FLAG_SYSTEM_SECURITY
               then bits_remaining AND NOT SEC_FLAG_SYSTEM_SECURITY else bits_remaining);
            bits_remaining =
              (if flag bits_remaining OWNER_RIGHTS \<and> security_token_has_sid token (owner_sid sd)
               then bits_remaining AND NOT OWNER_RIGHTS else bits_remaining);
            bits_remaining =
              (if flag bits_remaining SEC_STD_WRITE_OWNER \<and>
                  security_token_has_privilege (Some token) SEC_PRIV_TAKE_OWNERSHIP
               then bits_remaining AND NOT SEC_STD_WRITE_OWNER else bits_remaining) in
        (case dacl sd of
           None \<Rightarrow>
             if flag (sd_type sd) SEC_DESC_DACL_PRESENT then (NT_STATUS_OK, access_desired, tree)
             else (if bits_remaining \<noteq> 0 then NT_STATUS_ACCESS_DENIED else NT_STATUS_OK,
                   access_granted, tree)
         | Some acl \<Rightarrow>
             (case ds_loop token replace_sid (aces acl) bits_remaining tree of
                (Inl status, tree') \<Rightarrow> (status, access_granted, tree')
              | (Inr bits_remaining, tree') \<Rightarrow>
                  (if bits_remaining \<noteq> 0 then NT_STATUS_ACCESS_DENIED else NT_STATUS_OK,
                   access_granted, tree'))))"

section \<open>The reference policy\<close>

text \<open>The first entry that applies and names right \<open>n\<close> decides about it.\<close>

fun first_match :: "(security_ace \<Rightarrow> bool) \<Rightarrow> security_ace list \<Rightarrow> nat \<Rightarrow> bool option" where
  "first_match applies [] n = None"
| "first_match applies (ace # rest) n =
     (if applies ace \<and> bit (access_mask ace) n then
        case ace_type ace of
          SEC_ACE_TYPE_ACCESS_ALLOWED \<Rightarrow> Some True
        | SEC_ACE_TYPE_ACCESS_DENIED \<Rightarrow> Some False
        | SEC_ACE_TYPE_ACCESS_DENIED_OBJECT \<Rightarrow> Some False
        | _ \<Rightarrow> first_match applies rest n
      else first_match applies rest n)"

text \<open>An entry applies when it is effective and its trustee is one of the token's SIDs, or,
  for the owner, the owner rights SID.\<close>

definition ace_applies :: "security_descriptor \<Rightarrow> security_token \<Rightarrow> security_ace \<Rightarrow> bool" where
  "ace_applies sd token ace \<longleftrightarrow>
     \<not> flag (ace_flags ace) SEC_ACE_FLAG_INHERIT_ONLY \<and>
     (security_token_has_sid token (Some (trustee ace)) \<or>
      security_token_has_sid token (owner_sid sd) \<and>
      dom_sid_equal (Some (trustee ace)) (Some global_sid_Owner_Rights))"

text \<open>Without an effective owner rights entry the owner may read and change the DACL.\<close>

definition owner_default :: "security_descriptor \<Rightarrow> security_token \<Rightarrow> security_ace list \<Rightarrow> nat \<Rightarrow> bool" where
  "owner_default sd token as n \<longleftrightarrow>
     (n = 17 \<or> n = 18) \<and> security_token_has_sid token (owner_sid sd) \<and>
     \<not> (\<exists>ace \<in> set as. \<not> flag (ace_flags ace) SEC_ACE_FLAG_INHERIT_ONLY \<and>
          dom_sid_equal (Some (trustee ace)) (Some global_sid_Owner_Rights))"

definition policy_grants :: "security_descriptor \<Rightarrow> security_token \<Rightarrow> security_ace list \<Rightarrow> nat \<Rightarrow> bool" where
  "policy_grants sd token as n \<longleftrightarrow>
     owner_default sd token as n \<or> first_match (ace_applies sd token) as n = Some True"

text \<open>Two privileges stand in for a right the DACL does not grant.\<close>

definition allowed :: "security_descriptor \<Rightarrow> security_token \<Rightarrow> security_ace list \<Rightarrow> nat \<Rightarrow> bool" where
  "allowed sd token as n \<longleftrightarrow>
     policy_grants sd token as n \<or>
     n = 24 \<and> security_token_has_privilege (Some token) SEC_PRIV_SECURITY \<or>
     n = 19 \<and> security_token_has_privilege (Some token) SEC_PRIV_TAKE_OWNERSHIP"

section \<open>Lemmas: bits of the named rights\<close>

lemma bit_rights [flag_simps]:
  "bit SEC_FLAG_MAXIMUM_ALLOWED n \<longleftrightarrow> n = 25"
  "bit SEC_FLAG_SYSTEM_SECURITY n \<longleftrightarrow> n = 24"
  "bit SEC_STD_WRITE_OWNER n \<longleftrightarrow> n = 19"
  "bit OWNER_RIGHTS n \<longleftrightarrow> n = 17 \<or> n = 18"
proof -
  have e: "SEC_FLAG_MAXIMUM_ALLOWED = 2 ^ 25" "SEC_FLAG_SYSTEM_SECURITY = 2 ^ 24"
    "SEC_STD_WRITE_OWNER = 2 ^ 19" "OWNER_RIGHTS = 2 ^ 18 OR 2 ^ 17"
    by (simp_all add: SEC_FLAG_MAXIMUM_ALLOWED_def SEC_FLAG_SYSTEM_SECURITY_def
        SEC_STD_WRITE_OWNER_def OWNER_RIGHTS_def SEC_STD_WRITE_DAC_def SEC_STD_READ_CONTROL_def)
  show "bit SEC_FLAG_MAXIMUM_ALLOWED n \<longleftrightarrow> n = 25" "bit SEC_FLAG_SYSTEM_SECURITY n \<longleftrightarrow> n = 24"
    "bit SEC_STD_WRITE_OWNER n \<longleftrightarrow> n = 19" "bit OWNER_RIGHTS n \<longleftrightarrow> n = 17 \<or> n = 18"
    unfolding e by (auto simp only: bit_or_iff bit_exp_iff) auto
qed

lemma flag_named [flag_simps]:
  "flag w SEC_FLAG_MAXIMUM_ALLOWED \<longleftrightarrow> bit w 25"
  "flag w SEC_FLAG_SYSTEM_SECURITY \<longleftrightarrow> bit w 24"
  "flag w SEC_STD_WRITE_OWNER \<longleftrightarrow> bit w 19"
  by (simp_all add: flag_iff_bit bit_rights)

section \<open>Lemmas: the loops follow the first matching entry\<close>

lemma have_owner_rights_loop_iff:
  "have_owner_rights_loop as \<longleftrightarrow>
     (\<exists>ace \<in> set as. \<not> flag (ace_flags ace) SEC_ACE_FLAG_INHERIT_ONLY \<and>
        dom_sid_equal (Some (trustee ace)) (Some global_sid_Owner_Rights))"
  by (induction as) auto

lemma skip_ace_iff:
  "skip_ace (security_token_has_sid token (owner_sid sd)) token ace \<longleftrightarrow> \<not> ace_applies sd token ace"
  by (auto simp: skip_ace_def ace_applies_def Let_def)

text \<open>The two mask loops, for any way \<open>applies\<close> of choosing entries.\<close>

lemma max_allowed_loop_bits:
  assumes skip: "\<And>ace. skip_ace am_owner token ace \<longleftrightarrow> \<not> applies ace"
    and "max_allowed_loop am_owner token as granted denied = (g, d)"
  shows "bit (g AND NOT d) n \<longleftrightarrow>
    \<not> bit denied n \<and> (bit granted n \<or> first_match applies as n = Some True)"
  using assms(2)
proof (induction as arbitrary: granted denied)
  case Nil
  then show ?case by (auto simp: bit_and_not)
next
  case (Cons a as)
  have nb: "bit (NOT granted AND access_mask a) m \<longleftrightarrow> \<not> bit granted m \<and> bit (access_mask a) m" for m
    by (metis and.commute bit_and_not)
  note IH = Cons.IH [of "granted OR access_mask a" denied]
    Cons.IH [of granted "denied OR (NOT granted AND access_mask a)", unfolded bit_or_iff nb]
    Cons.IH [of granted denied]
  show ?case
  proof (cases "applies a")
    case True
    with Cons.prems IH show ?thesis
      by (cases "ace_type a") (auto simp: skip bit_or_iff)
  next
    case False
    with Cons.prems IH(3) show ?thesis by (simp add: skip)
  qed
qed

lemma access_check_loop_bits:
  assumes skip: "\<And>ace. skip_ace am_owner token ace \<longleftrightarrow> \<not> applies ace"
    and "access_check_loop am_owner token as remaining denied = (r, d)"
  shows "bit (r OR d) n \<longleftrightarrow>
    bit denied n \<or> bit remaining n \<and> first_match applies as n \<noteq> Some True"
  using assms(2)
proof (induction as arbitrary: remaining denied)
  case Nil
  then show ?case by (auto simp: bit_or_iff)
next
  case (Cons a as)
  note IH = Cons.IH [of "remaining AND NOT (access_mask a)" denied, unfolded bit_and_not]
    Cons.IH [of remaining "denied OR (remaining AND access_mask a)"] Cons.IH [of remaining denied]
  consider "remaining = 0" | "remaining \<noteq> 0" "\<not> applies a" | "remaining \<noteq> 0" "applies a" by blast
  then show ?case
  proof cases
    case 1
    with Cons.prems show ?thesis by (auto simp: bit_or_iff)
  next
    case 2
    with Cons.prems IH(3) show ?thesis by (simp add: skip)
  next
    case 3
    with Cons.prems IH show ?thesis
      by (cases "ace_type a") (auto simp: skip bit_or_iff bit_and_iff)
  qed
qed

lemma access_check_max_allowed_bits:
  assumes "dacl sd = Some acl"
  shows "bit (access_check_max_allowed sd token) n \<longleftrightarrow> policy_grants sd token (aces acl) n"
proof -
  let ?own = "security_token_has_sid token (owner_sid sd)"
  let ?g = "if ?own \<and> \<not> (?own \<and> have_owner_rights_loop (aces acl)) then OWNER_RIGHTS else 0"
  obtain g d where l: "max_allowed_loop ?own token (aces acl) ?g 0 = (g, d)" by fastforce
  from max_allowed_loop_bits [where applies = "ace_applies sd token", OF skip_ace_iff l]
  have "bit (g AND NOT d) n \<longleftrightarrow>
      bit ?g n \<or> first_match (ace_applies sd token) (aces acl) n = Some True" by simp
  moreover have "bit ?g n \<longleftrightarrow> owner_default sd token (aces acl) n"
    by (auto simp: owner_default_def have_owner_rights_loop_iff bit_rights)
  moreover have "access_check_max_allowed sd token = g AND NOT d"
    using l by (simp add: access_check_max_allowed_def assms Let_def)
  ultimately show ?thesis by (simp add: policy_grants_def)
qed

lemma se_access_check_max:
  assumes "bit desired 25"
  shows "se_access_check sd token desired =
    se_access_check sd token ((desired OR access_check_max_allowed sd token) AND NOT SEC_FLAG_MAXIMUM_ALLOWED)"
  using assms by (simp add: se_access_check_def flag_simps bit_and_not)

text \<open>The bits that remain once the DACL has been read.\<close>

lemma access_check_loop_policy:
  assumes "access_check_loop (security_token_has_sid token (owner_sid sd)) token as
      (if security_token_has_sid token (owner_sid sd) \<and>
          \<not> (security_token_has_sid token (owner_sid sd) \<and> have_owner_rights_loop as)
       then desired AND NOT OWNER_RIGHTS else desired) 0 = (r, d)"
  shows "bit (r OR d) n \<longleftrightarrow> bit desired n \<and> \<not> policy_grants sd token as n"
  using access_check_loop_bits [where applies = "ace_applies sd token", OF skip_ace_iff assms]
  by (auto simp: policy_grants_def owner_default_def have_owner_rights_loop_iff bit_and_not bit_rights
      split: if_splits)

lemma se_access_check_eq:
  assumes d: "dacl sd = Some acl" and m: "\<not> bit desired 25"
  shows "if bit desired 24 \<and> \<not> allowed sd token (aces acl) 24
    then se_access_check sd token desired = (NT_STATUS_PRIVILEGE_NOT_HELD, desired)
    else \<exists>rest. (\<forall>n. bit rest n \<longleftrightarrow> bit desired n \<and> \<not> allowed sd token (aces acl) n) \<and>
           se_access_check sd token desired = access_check_done rest desired"
proof -
  let ?own = "security_token_has_sid token (owner_sid sd)"
  let ?b = "if ?own \<and> \<not> (?own \<and> have_owner_rights_loop (aces acl))
            then desired AND NOT OWNER_RIGHTS else desired"
  let ?sec = "security_token_has_privilege (Some token) SEC_PRIV_SECURITY"
  let ?own_p = "security_token_has_privilege (Some token) SEC_PRIV_TAKE_OWNERSHIP"
  obtain r e where l: "access_check_loop ?own token (aces acl) ?b 0 = (r, e)" by fastforce
  define w where "w = r OR e"
  have w: "bit w n \<longleftrightarrow> bit desired n \<and> \<not> policy_grants sd token (aces acl) n" for n
    unfolding w_def by (rule access_check_loop_policy [OF l])
  define v where "v = (if bit w 24 then w AND NOT SEC_FLAG_SYSTEM_SECURITY else w)"
  define u where "u = (if bit v 19 \<and> ?own_p then v AND NOT SEC_STD_WRITE_OWNER else v)"
  have eq: "se_access_check sd token desired =
      (if bit w 24 \<and> \<not> ?sec then (NT_STATUS_PRIVILEGE_NOT_HELD, desired)
       else access_check_done u desired)"
    using l m by (simp add: se_access_check_def d Let_def flag_named w_def v_def u_def)
  have "bit u n \<longleftrightarrow> bit desired n \<and> \<not> allowed sd token (aces acl) n" if "bit w 24 \<longrightarrow> ?sec" for n
    using that by (auto simp: u_def v_def bit_and_not bit_rights w allowed_def)
  then show ?thesis
    by (auto simp: eq w allowed_def)
qed

lemma se_access_check_granted:
  assumes "dacl sd = Some acl" "\<not> bit desired 25"
    and all: "\<And>n. bit desired n \<Longrightarrow> allowed sd token (aces acl) n"
  shows "se_access_check sd token desired = (NT_STATUS_OK, desired)"
proof -
  from all have "\<not> (bit desired 24 \<and> \<not> allowed sd token (aces acl) 24)" by blast
  with se_access_check_eq [OF assms(1,2), of token] obtain rest where
    "\<forall>n. bit rest n \<longleftrightarrow> bit desired n \<and> \<not> allowed sd token (aces acl) n"
    and eq: "se_access_check sd token desired = access_check_done rest desired" by (simp only: if_False) blast
  with all have "rest = 0" by (auto simp: word_eq_0_iff_bit)
  then show ?thesis by (simp add: eq access_check_done_def)
qed


text \<open>Which refused rights the backup and restore privileges clear.\<close>

lemma se_file_access_check_eq:
  assumes "\<not> bit desired 25" and r: "se_access_check sd token desired = (status, granted)"
  shows "\<exists>rest. (\<forall>n. bit rest n \<longleftrightarrow> bit granted n \<and>
      \<not> (bit SEC_RIGHTS_PRIV_BACKUP n \<and> security_token_has_privilege (Some token) SEC_PRIV_BACKUP) \<and>
      \<not> (bit SEC_RIGHTS_PRIV_RESTORE n \<and> security_token_has_privilege (Some token) SEC_PRIV_RESTORE)) \<and>
    se_file_access_check sd token True desired =
      (if status \<noteq> NT_STATUS_ACCESS_DENIED then (status, granted)
       else if rest \<noteq> 0 then (NT_STATUS_ACCESS_DENIED, rest) else (NT_STATUS_OK, granted))"
proof -
  let ?B = "security_token_has_privilege (Some token) SEC_PRIV_BACKUP"
  let ?R = "security_token_has_privilege (Some token) SEC_PRIV_RESTORE"
  define b where "b = (if flag granted SEC_RIGHTS_PRIV_BACKUP \<and> ?B
    then granted AND NOT SEC_RIGHTS_PRIV_BACKUP else granted)"
  define c where "c = (if flag b SEC_RIGHTS_PRIV_RESTORE \<and> ?R
    then b AND NOT SEC_RIGHTS_PRIV_RESTORE else b)"
  have "bit b n \<longleftrightarrow> bit granted n \<and> \<not> (bit SEC_RIGHTS_PRIV_BACKUP n \<and> ?B)" for n
    by (auto simp: b_def bit_and_not flag_iff_bit)
  moreover have "bit c n \<longleftrightarrow> bit b n \<and> \<not> (bit SEC_RIGHTS_PRIV_RESTORE n \<and> ?R)" for n
    by (auto simp: c_def bit_and_not flag_iff_bit)
  moreover have "se_file_access_check sd token True desired =
      (if status \<noteq> NT_STATUS_ACCESS_DENIED then (status, granted)
       else if c \<noteq> 0 then (NT_STATUS_ACCESS_DENIED, c) else (NT_STATUS_OK, granted))"
    unfolding se_file_access_check_def c_def b_def
    by (simp only: Let_def flag_named assms(1) r not_True_eq_False if_False prod.case)
  ultimately show ?thesis by (intro exI [of _ c]) simp
qed

section \<open>Lemmas: the directory service check\<close>

text \<open>Without a tree object entries have no effect, so only the plain entries apply.\<close>

definition ds_applies :: "security_token \<Rightarrow> dom_sid option \<Rightarrow> security_ace \<Rightarrow> bool" where
  "ds_applies token replace_sid ace \<longleftrightarrow>
     \<not> flag (ace_flags ace) SEC_ACE_FLAG_INHERIT_ONLY \<and>
     security_token_has_sid token (Some (ds_trustee replace_sid ace)) \<and>
     ace_type ace \<noteq> SEC_ACE_TYPE_ACCESS_DENIED_OBJECT"

lemma check_object_specific_access_None [simp]:
  "check_object_specific_access ace None = (NT_STATUS_OK, None, False)"
  by (simp add: check_object_specific_access_def)

lemma ds_loop_None:
  "(fst (ds_loop token rep as rem None) = Inr 0 \<longleftrightarrow>
     (\<forall>n. bit rem n \<longrightarrow> first_match (ds_applies token rep) as n = Some True)) \<and>
   fst (ds_loop token rep as rem None) \<in> insert (Inl NT_STATUS_ACCESS_DENIED) (range Inr) \<and>
   snd (ds_loop token rep as rem None) = None"
proof (induction as arbitrary: rem)
  case Nil
  then show ?case by (simp add: word_eq_0_iff_bit)
next
  case (Cons a as)
  note IH = Cons.IH [of "rem AND NOT (access_mask a)", unfolded bit_and_not] Cons.IH [of rem]
  consider "rem = 0" | "rem \<noteq> 0" "flag (ace_flags a) SEC_ACE_FLAG_INHERIT_ONLY"
    | "rem \<noteq> 0" "\<not> flag (ace_flags a) SEC_ACE_FLAG_INHERIT_ONLY"
      "\<not> security_token_has_sid token (Some (ds_trustee rep a))"
    | "rem \<noteq> 0" "\<not> flag (ace_flags a) SEC_ACE_FLAG_INHERIT_ONLY"
      "security_token_has_sid token (Some (ds_trustee rep a))" by blast
  then show ?case
  proof cases
    case 4
    show ?thesis
    proof (cases "ace_type a")
      case SEC_ACE_TYPE_ACCESS_DENIED
      with 4 IH(2) show ?thesis by (auto simp: ds_applies_def flag_iff_bit)
    qed (use 4 IH in \<open>auto simp: ds_applies_def\<close>)
  qed (use IH in \<open>auto simp: ds_applies_def\<close>)
qed


lemma sec_access_check_ds_None:
  assumes d: "dacl sd = Some acl" and m: "\<not> bit desired 25"
  shows "fst (sec_access_check_ds sd token desired None rep) = NT_STATUS_OK \<longleftrightarrow>
    (bit desired 24 \<longrightarrow> security_token_has_privilege (Some token) SEC_PRIV_SECURITY) \<and>
    (\<forall>n. bit desired n \<longrightarrow>
       n = 24 \<or> (n = 17 \<or> n = 18) \<and> security_token_has_sid token (owner_sid sd) \<or>
       n = 19 \<and> security_token_has_privilege (Some token) SEC_PRIV_TAKE_OWNERSHIP \<or>
       first_match (ds_applies token rep) (aces acl) n = Some True)"
proof -
  let ?sec = "security_token_has_privilege (Some token) SEC_PRIV_SECURITY"
  let ?take = "security_token_has_privilege (Some token) SEC_PRIV_TAKE_OWNERSHIP"
  let ?own = "security_token_has_sid token (owner_sid sd)"
  define b1 where "b1 = (if bit desired 24 then desired AND NOT SEC_FLAG_SYSTEM_SECURITY else desired)"
  define b2 where "b2 = (if flag b1 OWNER_RIGHTS \<and> ?own then b1 AND NOT OWNER_RIGHTS else b1)"
  define b3 where "b3 = (if bit b2 19 \<and> ?take then b2 AND NOT SEC_STD_WRITE_OWNER else b2)"
  have b1: "bit b1 n \<longleftrightarrow> bit desired n \<and> n \<noteq> 24" for n
    by (auto simp: b1_def bit_and_not bit_rights)
  have b2: "bit b2 n \<longleftrightarrow> bit b1 n \<and> \<not> ((n = 17 \<or> n = 18) \<and> ?own)" for n
    by (auto simp: b2_def bit_and_not bit_rights flag_iff_bit)
  have b3: "bit b3 n \<longleftrightarrow> bit b2 n \<and> \<not> (n = 19 \<and> ?take)" for n
    by (auto simp: b3_def bit_and_not bit_rights)
  have eq: "sec_access_check_ds sd token desired None rep =
      (if bit desired 24 \<and> \<not> ?sec then (NT_STATUS_PRIVILEGE_NOT_HELD, desired, None)
       else case ds_loop token rep (aces acl) b3 None of
              (Inl status, tree) \<Rightarrow> (status, desired, tree)
            | (Inr rest, tree) \<Rightarrow>
                (if rest \<noteq> 0 then NT_STATUS_ACCESS_DENIED else NT_STATUS_OK, desired, tree))"
    unfolding sec_access_check_ds_def b3_def b2_def b1_def
    by (simp only: d Let_def flag_named m if_False option.case)
  obtain res where res: "ds_loop token rep (aces acl) b3 None = (res, None)"
    and res_OK: "res = Inr 0 \<longleftrightarrow> (\<forall>n. bit b3 n \<longrightarrow> first_match (ds_applies token rep) (aces acl) n = Some True)"
    and res_in: "res \<in> insert (Inl NT_STATUS_ACCESS_DENIED) (range Inr)"
    using ds_loop_None [of token rep "aces acl" b3] by (metis prod.collapse)
  have "fst (sec_access_check_ds sd token desired None rep) = NT_STATUS_OK \<longleftrightarrow>
      (bit desired 24 \<longrightarrow> ?sec) \<and> res = Inr 0"
    using res_in by (auto simp: eq res split: if_splits)
  then show ?thesis by (auto simp: res_OK b1 b2 b3)
qed

lemma sec_access_check_ds_loop:
  assumes d: "dacl sd = Some acl" and m: "\<not> bit desired 25" "\<not> bit desired 24"
  shows "\<exists>b. \<forall>tree. fst (sec_access_check_ds sd token desired tree rep) =
    (case fst (ds_loop token rep (aces acl) b tree) of
       Inl status \<Rightarrow> status
     | Inr rest \<Rightarrow> if rest \<noteq> 0 then NT_STATUS_ACCESS_DENIED else NT_STATUS_OK)"
proof -
  define b1 where "b1 = (if flag desired OWNER_RIGHTS \<and> security_token_has_sid token (owner_sid sd)
    then desired AND NOT OWNER_RIGHTS else desired)"
  define b2 where "b2 = (if bit b1 19 \<and>
      security_token_has_privilege (Some token) SEC_PRIV_TAKE_OWNERSHIP
    then b1 AND NOT SEC_STD_WRITE_OWNER else b1)"
  have "sec_access_check_ds sd token desired tree rep =
      (case ds_loop token rep (aces acl) b2 tree of
         (Inl status, tree) \<Rightarrow> (status, desired, tree)
       | (Inr rest, tree) \<Rightarrow>
           (if rest \<noteq> 0 then NT_STATUS_ACCESS_DENIED else NT_STATUS_OK, desired, tree))" for tree
    unfolding sec_access_check_ds_def b2_def b1_def
    by (simp only: d Let_def flag_named m if_False option.case simp_thms)
  then show ?thesis by (intro exI [of _ b2]) (simp split: prod.split sum.split)
qed


section \<open>Lemmas: mapping generic rights\<close>

definition no_generic :: "u32 \<Rightarrow> bool" where
  "no_generic w \<longleftrightarrow> \<not> bit w 28 \<and> \<not> bit w 29 \<and> \<not> bit w 30 \<and> \<not> bit w 31"

definition mapping_ok :: "generic_mapping \<Rightarrow> bool" where
  "mapping_ok m \<longleftrightarrow> no_generic (generic_read m) \<and> no_generic (generic_write m) \<and>
     no_generic (generic_execute m) \<and> no_generic (generic_all m)"

lemma bit_generic [flag_simps]:
  "bit GENERIC_READ_ACCESS n \<longleftrightarrow> n = 31" "bit GENERIC_WRITE_ACCESS n \<longleftrightarrow> n = 30"
  "bit GENERIC_EXECUTE_ACCESS n \<longleftrightarrow> n = 29" "bit GENERIC_ALL_ACCESS n \<longleftrightarrow> n = 28"
proof -
  have e: "GENERIC_READ_ACCESS = 2 ^ 31" "GENERIC_WRITE_ACCESS = 2 ^ 30"
    "GENERIC_EXECUTE_ACCESS = 2 ^ 29" "GENERIC_ALL_ACCESS = 2 ^ 28"
    by (simp_all add: GENERIC_READ_ACCESS_def GENERIC_WRITE_ACCESS_def
        GENERIC_EXECUTE_ACCESS_def GENERIC_ALL_ACCESS_def)
  show "bit GENERIC_READ_ACCESS n \<longleftrightarrow> n = 31" "bit GENERIC_WRITE_ACCESS n \<longleftrightarrow> n = 30"
    "bit GENERIC_EXECUTE_ACCESS n \<longleftrightarrow> n = 29" "bit GENERIC_ALL_ACCESS n \<longleftrightarrow> n = 28"
    unfolding e by (auto simp only: bit_exp_iff) auto
qed

lemma flag_generic [flag_simps]:
  "flag w GENERIC_READ_ACCESS \<longleftrightarrow> bit w 31" "flag w GENERIC_WRITE_ACCESS \<longleftrightarrow> bit w 30"
  "flag w GENERIC_EXECUTE_ACCESS \<longleftrightarrow> bit w 29" "flag w GENERIC_ALL_ACCESS \<longleftrightarrow> bit w 28"
  by (simp_all add: flag_iff_bit bit_generic)

lemma se_map_generic_bits:
  assumes "mapping_ok m"
  shows "bit (se_map_generic a m) n \<longleftrightarrow>
    bit a n \<and> n \<notin> {28, 29, 30, 31} \<or>
    bit a 31 \<and> bit (generic_read m) n \<or> bit a 30 \<and> bit (generic_write m) n \<or>
    bit a 29 \<and> bit (generic_execute m) n \<or> bit a 28 \<and> bit (generic_all m) n"
proof -
  define a1 where "a1 = (if bit a 31 then (a AND NOT GENERIC_READ_ACCESS) OR generic_read m else a)"
  define a2 where "a2 = (if bit a1 30 then (a1 AND NOT GENERIC_WRITE_ACCESS) OR generic_write m else a1)"
  define a3 where
    "a3 = (if bit a2 29 then (a2 AND NOT GENERIC_EXECUTE_ACCESS) OR generic_execute m else a2)"
  define a4 where "a4 = (if bit a3 28 then (a3 AND NOT GENERIC_ALL_ACCESS) OR generic_all m else a3)"
  have eq: "se_map_generic a m = a4"
    unfolding se_map_generic_def a4_def a3_def a2_def a1_def by (simp only: Let_def flag_generic)
  have m: "\<not> bit (generic_read m) k" "\<not> bit (generic_write m) k"
    "\<not> bit (generic_execute m) k" "\<not> bit (generic_all m) k" if "k \<in> {28, 29, 30, 31}" for k
    using assms that by (auto simp: mapping_ok_def no_generic_def)
  have b1: "bit a1 k \<longleftrightarrow> bit a k \<and> k \<noteq> 31 \<or> bit a 31 \<and> bit (generic_read m) k" for k
    by (auto simp: a1_def bit_or_iff bit_and_not bit_generic)
  have b2: "bit a2 k \<longleftrightarrow> bit a1 k \<and> k \<noteq> 30 \<or> bit a 30 \<and> bit (generic_write m) k" for k
    using m(1) by (auto simp: a2_def b1 bit_or_iff bit_and_not bit_generic)
  have b3: "bit a3 k \<longleftrightarrow> bit a2 k \<and> k \<noteq> 29 \<or> bit a 29 \<and> bit (generic_execute m) k" for k
    using m(1,2) by (auto simp: a3_def b1 b2 bit_or_iff bit_and_not bit_generic)
  have b4: "bit a4 k \<longleftrightarrow> bit a3 k \<and> k \<noteq> 28 \<or> bit a 28 \<and> bit (generic_all m) k" for k
    using m(1,2,3) by (auto simp: a4_def b1 b2 b3 bit_or_iff bit_and_not bit_generic)
  show ?thesis using m [of n] by (auto simp: eq b1 b2 b3 b4)
qed

lemma se_map_generic_no_generic:
  assumes "mapping_ok m"
  shows "no_generic (se_map_generic a m)"
  using assms by (simp add: no_generic_def se_map_generic_bits) (auto simp: mapping_ok_def no_generic_def)

lemma no_generic_flag: "no_generic w \<Longrightarrow> \<not> flag w 0xF0000000"
proof -
  have e: "(0xF0000000 :: u32) = GENERIC_READ_ACCESS OR GENERIC_WRITE_ACCESS OR
      GENERIC_EXECUTE_ACCESS OR GENERIC_ALL_ACCESS"
    by (simp add: GENERIC_READ_ACCESS_def GENERIC_WRITE_ACCESS_def
        GENERIC_EXECUTE_ACCESS_def GENERIC_ALL_ACCESS_def)
  show "no_generic w \<Longrightarrow> \<not> flag w 0xF0000000"
    unfolding e by (simp add: flag_or_mask flag_generic no_generic_def)
qed

lemma se_map_generic_idem: "no_generic a \<Longrightarrow> se_map_generic a m = a"
  by (simp add: se_map_generic_def flag_generic no_generic_def)

section \<open>Lemmas: object trees\<close>

fun tree_nodes :: "object_tree \<Rightarrow> object_tree set" where
  "tree_nodes (Node ra g ch) = insert (Node ra g ch) (\<Union> (tree_nodes ` set ch))"

lemma get_object_tree_by_GUID_sound:
  "get_object_tree_by_GUID t guid = Some p \<Longrightarrow>
     node_at t p \<in> tree_nodes t \<and> GUID_equal (tree_guid (node_at t p)) guid"
  "get_child_by_GUID i cs guid = Some p \<Longrightarrow>
     \<exists>k q. p = (i + k) # q \<and> k < length cs \<and>
       node_at (cs ! k) q \<in> tree_nodes (cs ! k) \<and> GUID_equal (tree_guid (node_at (cs ! k) q)) guid"
proof (induction t guid and i cs guid arbitrary: p and p
    rule: get_object_tree_by_GUID_get_child_by_GUID.induct)
  case (1 ra g ch guid)
  show ?case
  proof (cases "GUID_equal g guid")
    case False
    with 1 obtain k q where "p = k # q" "k < length ch"
      "node_at (ch ! k) q \<in> tree_nodes (ch ! k)" "GUID_equal (tree_guid (node_at (ch ! k) q)) guid"
      by auto
    then show ?thesis by (auto intro: bexI [of _ "ch ! k"])
  qed (use 1 in auto)
next
  case (3 i c cs guid)
  show ?case
  proof (cases "get_object_tree_by_GUID c guid")
    case None
    with 3 obtain k q where "p = (i + 1 + k) # q" "k < length cs"
      "node_at (cs ! k) q \<in> tree_nodes (cs ! k)" "GUID_equal (tree_guid (node_at (cs ! k) q)) guid"
      by auto
    then show ?thesis by (intro exI [of _ "Suc k"]) auto
  next
    case (Some q)
    with 3 show ?thesis by (intro exI [of _ 0]) auto
  qed
qed auto

lemma get_object_tree_by_GUID_complete:
  "get_object_tree_by_GUID t guid = None \<Longrightarrow> \<forall>u \<in> tree_nodes t. \<not> GUID_equal (tree_guid u) guid"
  "get_child_by_GUID i cs guid = None \<Longrightarrow>
     \<forall>c \<in> set cs. \<forall>u \<in> tree_nodes c. \<not> GUID_equal (tree_guid u) guid"
  by (induction t guid and i cs guid rule: get_object_tree_by_GUID_get_child_by_GUID.induct)
    (auto split: if_splits option.splits)

lemma find_child_Some:
  "find_child i cs guid = Some k \<Longrightarrow>
     i \<le> k \<and> k < i + length cs \<and> GUID_equal (tree_guid (cs ! (k - i))) guid"
  by (induction cs arbitrary: i) (force split: if_splits)+

lemma find_child_None: "find_child i cs guid = None \<longleftrightarrow> (\<forall>c \<in> set cs. \<not> GUID_equal (tree_guid c) guid)"
  by (induction cs arbitrary: i) auto

lemma modify_access_nodes:
  "tree_nodes (object_tree_modify_access acc t) = object_tree_modify_access acc ` tree_nodes t"
  by (induction t) auto

section \<open>Values for the witnesses\<close>

definition world_token :: "u64 \<Rightarrow> security_token" where
  "world_token privileges = \<lparr>sids = [global_sid_World], privilege_mask = privileges, rights_mask = 0\<rparr>"

abbreviation plain_acl :: "security_ace list \<Rightarrow> security_acl" where
  "plain_acl as \<equiv> \<lparr>acl_revision = SECURITY_ACL_REVISION_NT4, acl_size = 8, aces = as\<rparr>"

lemma sd_with_dacl_dacl: "dacl (sd_with_dacl as) = Some (plain_acl as)"
  by (simp add: sd_with_dacl_def)

lemma priv_masks:
  "sec_privilege_mask SEC_PRIV_SECURITY = 0x2000" "sec_privilege_mask SEC_PRIV_TAKE_OWNERSHIP = 0x800"
  "sec_privilege_mask SEC_PRIV_BACKUP = 0x200" "sec_privilege_mask SEC_PRIV_RESTORE = 0x400"
  by (simp_all add: sec_privilege_mask_def privs_def SEC_PRIV_SECURITY_def
      SEC_PRIV_TAKE_OWNERSHIP_def SEC_PRIV_BACKUP_def SEC_PRIV_RESTORE_def)

lemma well_known_distinct [simp]:
  "\<not> sid_same global_sid_World global_sid_Owner_Rights" "\<not> sid_same global_sid_World global_sid_System"
  by (simp_all add: sid_same_def global_sid_World_def global_sid_Owner_Rights_def
      global_sid_System_def const_sid_def)

lemma world_token_simps [simp]:
  "security_token_has_sid (world_token p) (Some global_sid_World)"
  "\<not> security_token_has_sid (world_token p) (Some global_sid_System)"
  by (simp_all add: security_token_has_sid_iff world_token_def)

lemma world_token_privileges [simp]:
  "security_token_has_privilege (Some (world_token p)) SEC_PRIV_SECURITY \<longleftrightarrow> flag p 0x2000"
  "security_token_has_privilege (Some (world_token p)) SEC_PRIV_TAKE_OWNERSHIP \<longleftrightarrow> flag p 0x800"
  "security_token_has_privilege (Some (world_token p)) SEC_PRIV_BACKUP \<longleftrightarrow> flag p 0x200"
  "security_token_has_privilege (Some (world_token p)) SEC_PRIV_RESTORE \<longleftrightarrow> flag p 0x400"
  by (simp_all add: security_token_has_privilege_def priv_masks world_token_def)

section \<open>Properties\<close>

text \<open>C1: the decision of \<open>se_access_check\<close>. For a descriptor with a DACL and a request without
  the maximum allowed flag, access is granted exactly when every requested right is allowed by
  the policy: the first applicable entry that names the right allows it, or it is an owner
  right of the owner, or a privilege stands in for it. Granted access is the request; a refusal
  with \<open>NT_STATUS_ACCESS_DENIED\<close> reports exactly the requested rights that are not allowed; a missing
  \<open>SeSecurityPrivilege\<close> has its own status.\<close>

theorem se_access_check_decides:
  assumes "dacl sd = Some acl" and "\<not> flag desired SEC_FLAG_MAXIMUM_ALLOWED"
    and "se_access_check sd token desired = (status, granted)"
  shows "(status = NT_STATUS_OK \<longleftrightarrow> (\<forall>n. bit desired n \<longrightarrow> allowed sd token (aces acl) n)) \<and>
    (status = NT_STATUS_OK \<longrightarrow> granted = desired) \<and>
    (status = NT_STATUS_PRIVILEGE_NOT_HELD \<longleftrightarrow> bit desired 24 \<and> \<not> allowed sd token (aces acl) 24) \<and>
    (status = NT_STATUS_ACCESS_DENIED \<longrightarrow>
       (\<forall>n. bit granted n \<longleftrightarrow> bit desired n \<and> \<not> allowed sd token (aces acl) n)) \<and>
    status \<in> {NT_STATUS_OK, NT_STATUS_PRIVILEGE_NOT_HELD, NT_STATUS_ACCESS_DENIED}"
proof -
  have m: "\<not> bit desired 25" using assms(2) by (simp add: flag_named)
  show ?thesis
    using se_access_check_eq [OF assms(1) m, of token] assms(3)
    by (auto simp: access_check_done_def word_eq_0_iff_bit split: if_splits)
qed

theorem se_access_check_decides_witness:
  "dacl (sd_with_dacl [world_ace SEC_ACE_TYPE_ACCESS_ALLOWED 1 0]) \<noteq> None \<and>
   se_access_check (sd_with_dacl [world_ace SEC_ACE_TYPE_ACCESS_ALLOWED 1 0]) (world_token 0) 1
     = (NT_STATUS_OK, 1) \<and>
   allowed (sd_with_dacl [world_ace SEC_ACE_TYPE_ACCESS_ALLOWED 1 0]) (world_token 0)
     [world_ace SEC_ACE_TYPE_ACCESS_ALLOWED 1 0] 0"
proof -
  let ?sd = "sd_with_dacl [world_ace SEC_ACE_TYPE_ACCESS_ALLOWED 1 0]"
  have r: "se_access_check ?sd (world_token 0) 1 = (NT_STATUS_OK, 1)"
    by (simp add: se_access_check_def sd_with_dacl_def skip_ace_def access_check_done_def flag_def
        SEC_FLAG_MAXIMUM_ALLOWED_def)
  show ?thesis
    using se_access_check_decides [OF _ _ r] r
    by (simp add: sd_with_dacl_def flag_def SEC_FLAG_MAXIMUM_ALLOWED_def)
qed

text \<open>C2: a request for the maximum allowed access. With a DACL it succeeds and grants exactly what
  the owner rights and the first applicable entry for each right grant; privileges of the
  token are not counted. Without a DACL nothing but the owner rights of the owner is computed: they are
  granted when the control bits announce a DACL and refused else, and anyone else gets a success with
  no right.\<close>

theorem maximum_allowed_is_policy:
  "case dacl sd of
     Some acl \<Rightarrow> (\<exists>granted. se_access_check sd token SEC_FLAG_MAXIMUM_ALLOWED = (NT_STATUS_OK, granted) \<and>
       (\<forall>n. bit granted n \<longleftrightarrow> n \<noteq> 25 \<and> policy_grants sd token (aces acl) n))
   | None \<Rightarrow> se_access_check sd token SEC_FLAG_MAXIMUM_ALLOWED =
       (if security_token_has_sid token (owner_sid sd)
        then (if flag (sd_type sd) SEC_DESC_DACL_PRESENT then NT_STATUS_OK else NT_STATUS_ACCESS_DENIED, 0x60000)
        else (NT_STATUS_OK, 0))"
proof (cases "dacl sd")
  case None
  have e: "(SEC_FLAG_MAXIMUM_ALLOWED OR OWNER_RIGHTS) AND NOT SEC_FLAG_MAXIMUM_ALLOWED = 0x60000"
    by (simp add: SEC_FLAG_MAXIMUM_ALLOWED_def OWNER_RIGHTS_def SEC_STD_WRITE_DAC_def SEC_STD_READ_CONTROL_def)
  show ?thesis
    by (simp add: None se_access_check_def access_check_done_def access_check_max_allowed_def flag_named bit_rights e)
next
  case (Some acl)
  let ?max = "access_check_max_allowed sd token AND NOT SEC_FLAG_MAXIMUM_ALLOWED"
  have e: "(SEC_FLAG_MAXIMUM_ALLOWED OR access_check_max_allowed sd token)
      AND NOT SEC_FLAG_MAXIMUM_ALLOWED = ?max"
    by (rule bit_word_eqI) (auto simp: bit_or_iff bit_and_not)
  have b: "bit ?max n \<longleftrightarrow> n \<noteq> 25 \<and> policy_grants sd token (aces acl) n" for n
    by (auto simp: bit_and_not access_check_max_allowed_bits [OF Some] bit_rights)
  have "se_access_check sd token ?max = (NT_STATUS_OK, ?max)"
    using b by (intro se_access_check_granted [OF Some]) (auto simp: allowed_def)
  then show ?thesis
    using b by (simp add: Some se_access_check_max bit_rights e)
qed

theorem maximum_allowed_is_policy_witness:
  "\<exists>granted. se_access_check (sd_with_dacl [world_ace SEC_ACE_TYPE_ACCESS_ALLOWED 5 0]) (world_token 0)
     SEC_FLAG_MAXIMUM_ALLOWED = (NT_STATUS_OK, granted) \<and> bit granted 2 \<and> \<not> bit granted 1"
proof -
  let ?as = "[world_ace SEC_ACE_TYPE_ACCESS_ALLOWED 5 0]"
  have "bit (5 :: u32) 2" "\<not> bit (5 :: u32) 1" by (simp_all add: bit_numeral_rec)
  then have "policy_grants (sd_with_dacl ?as) (world_token 0) ?as 2"
    "\<not> policy_grants (sd_with_dacl ?as) (world_token 0) ?as 1"
    by (simp_all add: policy_grants_def owner_default_def ace_applies_def)
  then show ?thesis
    using maximum_allowed_is_policy [of "sd_with_dacl ?as" "world_token 0"] by (auto simp: sd_with_dacl_dacl)
qed

text \<open>A descriptor whose control bits announce a DACL but which has none allows everything;
  one that announces none refuses every right.\<close>

lemma se_access_check_without_dacl:
  assumes "dacl sd = None" and "\<not> flag desired SEC_FLAG_MAXIMUM_ALLOWED"
  shows "if flag (sd_type sd) SEC_DESC_DACL_PRESENT
    then se_access_check sd token desired = (NT_STATUS_OK, desired)
    else desired \<noteq> 0 \<longrightarrow> se_access_check sd token desired = (NT_STATUS_ACCESS_DENIED, desired)"
  using assms by (simp add: se_access_check_def access_check_done_def)

lemma se_access_check_without_dacl_witness:
  "se_access_check ((sd_with_dacl [])\<lparr>dacl := None\<rparr>) (world_token 0) 7 = (NT_STATUS_OK, 7)"
  using se_access_check_without_dacl [of "(sd_with_dacl [])\<lparr>dacl := None\<rparr>" 7 "world_token 0"]
  by (simp add: sd_with_dacl_def flag_def SEC_FLAG_MAXIMUM_ALLOWED_def SEC_DESC_DACL_PRESENT_def)

text \<open>Mapping generic rights with a table of specific rights replaces every generic right by
  its entry, keeps the other rights, leaves no generic right, and changes nothing when applied a
  second time.\<close>

lemma se_map_generic_replaces:
  assumes "mapping_ok m"
  shows "(\<forall>n. bit (se_map_generic a m) n \<longleftrightarrow>
      bit a n \<and> n \<notin> {28, 29, 30, 31} \<or>
      bit a 31 \<and> bit (generic_read m) n \<or> bit a 30 \<and> bit (generic_write m) n \<or>
      bit a 29 \<and> bit (generic_execute m) n \<or> bit a 28 \<and> bit (generic_all m) n) \<and>
    \<not> flag (se_map_generic a m) 0xF0000000 \<and>
    se_map_generic (se_map_generic a m) m = se_map_generic a m"
  using se_map_generic_bits [OF assms] se_map_generic_no_generic [OF assms]
    no_generic_flag se_map_generic_idem by blast

lemma se_map_generic_replaces_witness:
  "\<not> flag (se_map_generic 0x80000001
      \<lparr>generic_read = 0x120089, generic_write = 0x120116, generic_execute = 0x1200a0, generic_all = 0x1f01ff\<rparr>)
     0xF0000000"
  by (rule se_map_generic_replaces [THEN conjunct2, THEN conjunct1])
    (simp add: mapping_ok_def no_generic_def)

text \<open>C14: the file server's check of an open that asks to use privileges, for a descriptor with
  a DACL and a request without the maximum allowed flag: it succeeds exactly when every
  requested right is allowed by the policy or lies in the rights of a backup or restore privilege
  the token holds; the right to the system ACL still needs the policy or
  \<open>SeSecurityPrivilege\<close>.\<close>

theorem se_file_access_check_decides:
  assumes "dacl sd = Some acl" and "\<not> flag desired SEC_FLAG_MAXIMUM_ALLOWED"
  shows "fst (se_file_access_check sd token True desired) = NT_STATUS_OK \<longleftrightarrow>
    (bit desired 24 \<longrightarrow> allowed sd token (aces acl) 24) \<and>
    (\<forall>n. bit desired n \<longrightarrow>
       allowed sd token (aces acl) n \<or>
       bit SEC_RIGHTS_PRIV_BACKUP n \<and> security_token_has_privilege (Some token) SEC_PRIV_BACKUP \<or>
       bit SEC_RIGHTS_PRIV_RESTORE n \<and> security_token_has_privilege (Some token) SEC_PRIV_RESTORE)"
proof -
  let ?al = "allowed sd token (aces acl)"
  obtain status granted where r: "se_access_check sd token desired = (status, granted)" by fastforce
  have m: "\<not> bit desired 25" using assms(2) by (simp add: flag_named)
  from se_file_access_check_eq [OF m r] obtain rest where
    rest: "\<forall>n. bit rest n \<longleftrightarrow> bit granted n \<and>
      \<not> (bit SEC_RIGHTS_PRIV_BACKUP n \<and> security_token_has_privilege (Some token) SEC_PRIV_BACKUP) \<and>
      \<not> (bit SEC_RIGHTS_PRIV_RESTORE n \<and> security_token_has_privilege (Some token) SEC_PRIV_RESTORE)"
    and eq: "se_file_access_check sd token True desired =
      (if status \<noteq> NT_STATUS_ACCESS_DENIED then (status, granted)
       else if rest \<noteq> 0 then (NT_STATUS_ACCESS_DENIED, rest) else (NT_STATUS_OK, granted))" by blast
  show ?thesis
  proof (cases "bit desired 24 \<and> \<not> ?al 24")
    case True
    then show ?thesis
      using se_access_check_eq [OF assms(1) m, of token] r by (auto simp: eq)
  next
    case False
    then obtain u where u: "\<forall>n. bit u n \<longleftrightarrow> bit desired n \<and> \<not> ?al n"
      and "(status, granted) = access_check_done u desired"
      using se_access_check_eq [OF assms(1) m, of token] r by (auto split: if_splits)
    then consider "u = 0" "status = NT_STATUS_OK"
      | "u \<noteq> 0" "status = NT_STATUS_ACCESS_DENIED" "granted = u"
      by (auto simp: access_check_done_def split: if_splits)
    then show ?thesis
      using False rest u by cases (auto simp: eq word_eq_0_iff_bit)
  qed
qed

theorem se_file_access_check_decides_witness:
  "fst (se_file_access_check (sd_with_dacl []) (world_token 0x200) True 1) = NT_STATUS_OK"
proof -
  have "bit SEC_RIGHTS_PRIV_BACKUP 0"
    by (simp add: SEC_RIGHTS_PRIV_BACKUP_def SEC_RIGHTS_FILE_READ_def SEC_STD_READ_CONTROL_def
        SEC_FLAG_SYSTEM_SECURITY_def bit_0)
  moreover have "flag (0x200 :: u64) 0x200" by (simp add: flag_def)
  moreover have "\<not> bit (1 :: u32) 24" "n = 0" if "bit (1 :: u32) n" for n
    using that by (auto simp: bit_1_iff)
  ultimately show ?thesis
    using se_file_access_check_decides [of "sd_with_dacl []" _ 1 "world_token 0x200"]
    by (auto simp: sd_with_dacl_def flag_named bit_1_iff)
qed

text \<open>When a backup or restore privilege makes the check succeed although the DACL alone does
  not, the mask reported as granted consists of exactly the rights the DACL refused; the rights
  it allows are missing from it.\<close>

lemma se_file_access_check_override_mask:
  assumes "dacl sd = Some acl" and "\<not> flag desired SEC_FLAG_MAXIMUM_ALLOWED"
    and "fst (se_access_check sd token desired) = NT_STATUS_ACCESS_DENIED"
    and "se_file_access_check sd token True desired = (NT_STATUS_OK, granted)"
  shows "bit granted n \<longleftrightarrow> bit desired n \<and> \<not> allowed sd token (aces acl) n"
proof -
  obtain rejected where r: "se_access_check sd token desired = (NT_STATUS_ACCESS_DENIED, rejected)"
    using assms(3) by (metis prod.collapse)
  have m: "\<not> bit desired 25" using assms(2) by (simp add: flag_named)
  have "granted = rejected"
    using se_file_access_check_eq [OF m r] assms(4) by (auto split: if_splits)
  with se_access_check_eq [OF assms(1) m, of token] r show ?thesis
    by (auto simp: access_check_done_def split: if_splits)
qed

lemma se_file_access_check_override_mask_witness:
  "se_file_access_check (sd_with_dacl [world_ace SEC_ACE_TYPE_ACCESS_ALLOWED 2 0]) (world_token 0x200)
     True 3 = (NT_STATUS_OK, 1) \<and> \<not> bit (1 :: u32) 1"
proof -
  let ?sd = "sd_with_dacl [world_ace SEC_ACE_TYPE_ACCESS_ALLOWED 2 0]"
  have a: "se_access_check ?sd (world_token 0x200) 3 = (NT_STATUS_ACCESS_DENIED, 1)"
    by (simp add: se_access_check_def sd_with_dacl_def skip_ace_def access_check_done_def flag_def
        SEC_FLAG_MAXIMUM_ALLOWED_def SEC_FLAG_SYSTEM_SECURITY_def SEC_STD_WRITE_OWNER_def)
  have f: "se_file_access_check ?sd (world_token 0x200) True 3 = (NT_STATUS_OK, 1)"
    by (simp add: se_file_access_check_def a flag_def SEC_FLAG_MAXIMUM_ALLOWED_def
        SEC_RIGHTS_PRIV_BACKUP_def SEC_RIGHTS_FILE_READ_def SEC_STD_READ_CONTROL_def
        SEC_FLAG_SYSTEM_SECURITY_def)
  have "bit (1 :: u32) 1 \<longleftrightarrow> bit (3 :: u32) 1 \<and>
      \<not> allowed ?sd (world_token 0x200) (aces (the (dacl ?sd))) 1"
    by (rule se_file_access_check_override_mask [OF _ _ _ f])
      (simp_all add: a sd_with_dacl_dacl flag_def SEC_FLAG_MAXIMUM_ALLOWED_def)
  with f show ?thesis by (simp add: bit_1_iff)
qed

text \<open>C15: the directory service check without an object tree, for a descriptor with a DACL and a
  request without the maximum allowed flag: the right to the system ACL needs
  \<open>SeSecurityPrivilege\<close>, and every other requested right must be an owner right of the owner,
  the owner change with \<open>SeTakeOwnershipPrivilege\<close>, or be allowed by the first plain entry that
  applies and names it, where the SELF trustee stands for the replacement SID.\<close>

theorem sec_access_check_ds_decides:
  assumes "dacl sd = Some acl" and "\<not> flag desired SEC_FLAG_MAXIMUM_ALLOWED"
  shows "fst (sec_access_check_ds sd token desired None rep) = NT_STATUS_OK \<longleftrightarrow>
    (bit desired 24 \<longrightarrow> security_token_has_privilege (Some token) SEC_PRIV_SECURITY) \<and>
    (\<forall>n. bit desired n \<longrightarrow>
       n = 24 \<or> (n = 17 \<or> n = 18) \<and> security_token_has_sid token (owner_sid sd) \<or>
       n = 19 \<and> security_token_has_privilege (Some token) SEC_PRIV_TAKE_OWNERSHIP \<or>
       first_match (ds_applies token rep) (aces acl) n = Some True)"
  using assms by (simp add: sec_access_check_ds_None flag_named)

theorem sec_access_check_ds_decides_witness:
  "fst (sec_access_check_ds (sd_with_dacl [world_ace SEC_ACE_TYPE_ACCESS_ALLOWED 1 0]) (world_token 0) 1
     None None) = NT_STATUS_OK"
  using sec_access_check_ds_decides
    [of "sd_with_dacl [world_ace SEC_ACE_TYPE_ACCESS_ALLOWED 1 0]" _ 1 "world_token 0" None]
  by (simp add: sd_with_dacl_dacl flag_named bit_1_iff ds_applies_def ds_trustee_def)



text \<open>With an object tree, a single applicable allow entry for the whole tree that contains
  \<open>SEC_ADS_CONTROL_ACCESS\<close> makes the check succeed whatever else was requested.\<close>

lemma ds_control_access_grants_anything:
  assumes "dacl sd = Some acl" and "aces acl = [ace]"
    and "\<not> flag desired SEC_FLAG_MAXIMUM_ALLOWED" and "\<not> flag desired SEC_FLAG_SYSTEM_SECURITY"
    and "ace_type ace = SEC_ACE_TYPE_ACCESS_ALLOWED_OBJECT"
    and "\<not> flag (ace_flags ace) SEC_ACE_FLAG_INHERIT_ONLY"
    and "\<not> flag (object_flags (ace_object ace)) SEC_ACE_OBJECT_TYPE_PRESENT"
    and "security_token_has_sid token (Some (trustee ace))"
    and "flag (access_mask ace) SEC_ADS_CONTROL_ACCESS"
  shows "fst (sec_access_check_ds sd token desired (Some tree) None) = NT_STATUS_OK"
proof -
  have m: "\<not> bit desired 25" "\<not> bit desired 24" using assms(3,4) by (simp_all add: flag_named)
  from sec_access_check_ds_loop [OF assms(1) m, of token None] obtain b where
    b: "\<forall>tree. fst (sec_access_check_ds sd token desired tree None) =
      (case fst (ds_loop token None (aces acl) b tree) of
         Inl status \<Rightarrow> status
       | Inr rest \<Rightarrow> if rest \<noteq> 0 then NT_STATUS_ACCESS_DENIED else NT_STATUS_OK)" ..
  define r where "r = fst (ds_loop token None [ace] b (Some tree))"
  have "r \<in> {Inr 0, Inl NT_STATUS_OK}"
    unfolding r_def using assms(5-9)
    by (simp add: ds_trustee_def check_object_specific_access_def get_ace_object_type_def Let_def)
  then show ?thesis unfolding b [THEN spec] assms(2) r_def [symmetric] by auto
qed

lemma ds_control_access_grants_anything_witness:
  "fst (sec_access_check_ds
     (sd_with_dacl [world_ace SEC_ACE_TYPE_ACCESS_ALLOWED_OBJECT SEC_ADS_CONTROL_ACCESS 0])
     (world_token 0) SEC_STD_DELETE (Some (Node SEC_STD_DELETE zero_guid [])) None) = NT_STATUS_OK"
  by (rule ds_control_access_grants_anything
        [where ace = "world_ace SEC_ACE_TYPE_ACCESS_ALLOWED_OBJECT SEC_ADS_CONTROL_ACCESS 0" and
          acl = "plain_acl [world_ace SEC_ACE_TYPE_ACCESS_ALLOWED_OBJECT SEC_ADS_CONTROL_ACCESS 0]"])
    (simp_all add: sd_with_dacl_dacl flag_def SEC_FLAG_MAXIMUM_ALLOWED_def SEC_FLAG_SYSTEM_SECURITY_def
      SEC_STD_DELETE_def SEC_ADS_CONTROL_ACCESS_def world_ace_def zero_ace_def)

text \<open>Searching an object tree finds a node of the tree with the GUID, and finds nothing only
  when no node of the tree has it.\<close>

lemma object_tree_search:
  "case get_object_tree_by_GUID t guid of
     Some p \<Rightarrow> node_at t p \<in> tree_nodes t \<and> GUID_equal (tree_guid (node_at t p)) guid
   | None \<Rightarrow> \<forall>u \<in> tree_nodes t. \<not> GUID_equal (tree_guid u) guid"
  by (cases "get_object_tree_by_GUID t guid")
    (simp_all add: get_object_tree_by_GUID_sound get_object_tree_by_GUID_complete)

lemma object_tree_search_witness:
  "node_at (Node 1 (zero_guid\<lparr>time_low := 1\<rparr>) [Node 2 zero_guid []]) [0]
     \<in> tree_nodes (Node 1 (zero_guid\<lparr>time_low := 1\<rparr>) [Node 2 zero_guid []])"
proof -
  have "\<not> GUID_equal (zero_guid\<lparr>time_low := 1\<rparr>) zero_guid"
    by (simp add: GUID_equal_def GUID_compare_def zero_guid_def)
  then show ?thesis
    using object_tree_search [of "Node 1 (zero_guid\<lparr>time_low := 1\<rparr>) [Node 2 zero_guid []]" zero_guid]
    by simp
qed

end
