(* ===== verification/Inheritance.thy ===== *)
theory Inheritance
  imports Access_Check
begin

text \<open>
  How a new object gets its descriptor: inheritance from the parent directory in the file
  server (\<open>se_create_child_secdesc\<close> of \<open>libcli/security/secdesc.c\<close>), and the computation for
  directory service objects from the parent's and the creator's descriptor
  (\<open>libcli/security/create_descriptor.c\<close>).
\<close>

section \<open>Children of a directory in the file server\<close>

definition is_inheritable_ace :: "security_ace \<Rightarrow> bool \<Rightarrow> bool" where
  "is_inheritable_ace ace container =
     (if \<not> container then flag (ace_flags ace) SEC_ACE_FLAG_OBJECT_INHERIT
      else if flag (ace_flags ace) SEC_ACE_FLAG_CONTAINER_INHERIT then True
      else if flag (ace_flags ace) SEC_ACE_FLAG_OBJECT_INHERIT \<and>
              \<not> flag (ace_flags ace) SEC_ACE_FLAG_NO_PROPAGATE_INHERIT then True
      else False)"


definition child_ace_flags :: "security_ace \<Rightarrow> bool \<Rightarrow> u8" where
  "child_ace_flags ace container =
     (if \<not> container then 0
      else
        let new_flags = ace_flags ace AND NOT (SEC_ACE_FLAG_INHERIT_ONLY OR SEC_ACE_FLAG_INHERITED_ACE);
            new_flags = (if \<not> flag new_flags SEC_ACE_FLAG_CONTAINER_INHERIT
                         then new_flags OR SEC_ACE_FLAG_INHERIT_ONLY else new_flags);
            new_flags = (if flag new_flags SEC_ACE_FLAG_NO_PROPAGATE_INHERIT then 0 else new_flags)
        in new_flags)"

text \<open>The CREATOR SIDs: the special SID, if the trustee is one, and the SID that replaces it.\<close>

definition creator_trustee ::
    "dom_sid \<Rightarrow> dom_sid option \<Rightarrow> dom_sid option \<Rightarrow> dom_sid option \<times> dom_sid option" where
  "creator_trustee ptrustee owner group_s =
     (if dom_sid_equal (Some ptrustee) (Some global_sid_Creator_Owner)
      then (Some global_sid_Creator_Owner, owner)
      else if dom_sid_equal (Some ptrustee) (Some global_sid_Creator_Group)
      then (Some global_sid_Creator_Group, group_s)
      else (None, Some ptrustee))"

text \<open>
  The loop that fills \<open>new_ace_list\<close>. \<open>fresh k\<close> is the uninitialised contents of entry \<open>k\<close>,
  \<open>acc\<close> the entries written so far; \<open>None\<close> is the dereference of a \<open>NULL\<close> owner or group.
\<close>

fun child_ace_loop ::
    "(nat \<Rightarrow> security_ace) \<Rightarrow> dom_sid option \<Rightarrow> dom_sid option \<Rightarrow> bool \<Rightarrow> u8 \<Rightarrow>
     security_ace list \<Rightarrow> security_ace list \<Rightarrow> security_ace list option" where
  "child_ace_loop fresh owner group_s container inherited [] acc = Some acc"
| "child_ace_loop fresh owner group_s container inherited (ace # rest) acc =
     (if \<not> is_inheritable_ace ace container
      then child_ace_loop fresh owner group_s container inherited rest acc
      else
        let new_flags = child_ace_flags ace container in
        case creator_trustee (trustee ace) owner group_s of (creator, ptrustee) \<Rightarrow>
          if creator \<noteq> None \<and> container \<and> flag new_flags SEC_ACE_FLAG_CONTAINER_INHERIT then
            (case ptrustee of
               None \<Rightarrow> None
             | Some sid \<Rightarrow>
                 let acc = acc @ [init_sec_ace (fresh (length acc)) sid (ace_type ace)
                                    (access_mask ace) inherited];
                     new_flags = new_flags OR SEC_ACE_FLAG_INHERIT_ONLY;
                     acc = acc @ [init_sec_ace (fresh (length acc)) (the creator) (ace_type ace)
                                    (access_mask ace) (new_flags OR inherited)] in
                 child_ace_loop fresh owner group_s container inherited rest acc)
          else
            let ptrustee = (if container \<and> \<not> flag (ace_flags ace) SEC_ACE_FLAG_NO_PROPAGATE_INHERIT
                            then Some (trustee ace) else ptrustee) in
            (case ptrustee of
               None \<Rightarrow> None
             | Some sid \<Rightarrow>
                 child_ace_loop fresh owner group_s container inherited rest
                   (acc @ [init_sec_ace (fresh (length acc)) sid (ace_type ace)
                             (access_mask ace) (new_flags OR inherited)])))"

text \<open>The removal of duplicates.\<close>

function remove_duplicate_aces :: "nat \<Rightarrow> security_ace list \<Rightarrow> security_ace list" where
  "remove_duplicate_aces i as =
     (if i < length as then
        if list_ex (\<lambda>aj. security_ace_equal (Some (as ! i)) (Some aj)) (take i as)
        then remove_duplicate_aces i (take i as @ drop (i + 1) as)
        else remove_duplicate_aces (i + 1) as
      else as)"
  by auto
termination by (relation "measure (\<lambda>(i, as). length as - i)") auto

text \<open>The result is the status, \<open>*ppsd\<close> and \<open>*psize\<close>; \<open>None\<close> when the call dereferences \<open>NULL\<close>.\<close>

definition se_create_child_secdesc ::
    "talloc \<Rightarrow> (nat \<Rightarrow> security_ace) \<Rightarrow> security_descriptor \<Rightarrow> dom_sid option \<Rightarrow> dom_sid option \<Rightarrow> bool \<Rightarrow>
     (NTSTATUS \<times> security_descriptor option \<times> int) option" where
  "se_create_child_secdesc mem fresh parent_ctr owner group_s container =
     (let set_inherited_flags = flag (sd_type parent_ctr) SEC_DESC_DACL_AUTO_INHERITED;
          inherited = (if set_inherited_flags then SEC_ACE_FLAG_INHERITED_ACE else 0) in
      case dacl parent_ctr of
        None \<Rightarrow> None
      | Some the_acl \<Rightarrow>
          if aces the_acl \<noteq> [] \<and>
             (2 * of_nat (length (aces the_acl)) :: u32) < of_nat (length (aces the_acl))
          then Some (NT_STATUS_NO_MEMORY, None, 0)
          else if aces the_acl \<noteq> [] \<and> talloc_fails mem 0 then Some (NT_STATUS_NO_MEMORY, None, 0)
          else
            case child_ace_loop fresh owner group_s container inherited (aces the_acl) [] of
              None \<Rightarrow> None
            | Some new_ace_list \<Rightarrow>
                let new_ace_list = remove_duplicate_aces 1 new_ace_list;
                    new_dacl = (if new_ace_list \<noteq> []
                                then make_sec_acl (\<lambda>k. mem (1 + k)) SECURITY_ACL_REVISION_NT4 new_ace_list
                                else None) in
                if new_ace_list \<noteq> [] \<and> new_dacl = None then Some (NT_STATUS_NO_MEMORY, None, 0)
                else
                  (case make_sec_desc (\<lambda>k. mem (3 + k)) 1
                          (SEC_DESC_SELF_RELATIVE OR SEC_DESC_DACL_PRESENT OR
                           (if set_inherited_flags then SEC_DESC_DACL_AUTO_INHERITED else 0))
                          owner group_s None new_dacl of
                     (None, sz) \<Rightarrow> Some (NT_STATUS_NO_MEMORY, None, sz)
                   | (Some psd, sz) \<Rightarrow> Some (NT_STATUS_OK, Some psd, sz)))"

section \<open>Directory service objects\<close>

definition SEC_ADS_GENERIC_EXECUTE :: u32 where "SEC_ADS_GENERIC_EXECUTE = 0x00020004"
definition SEC_ADS_GENERIC_WRITE :: u32 where "SEC_ADS_GENERIC_WRITE = 0x00020028"
definition SEC_ADS_GENERIC_READ :: u32 where "SEC_ADS_GENERIC_READ = 0x00020094"

definition SEC_ADS_GENERIC_ALL_DS :: u32 where
  "SEC_ADS_GENERIC_ALL_DS =
     SEC_STD_DELETE OR SEC_STD_WRITE_DAC OR SEC_STD_WRITE_OWNER OR 0x143"

definition SEC_ADS_GENERIC_ALL :: u32 where
  "SEC_ADS_GENERIC_ALL =
     SEC_ADS_GENERIC_EXECUTE OR SEC_ADS_GENERIC_WRITE OR SEC_ADS_GENERIC_READ OR SEC_ADS_GENERIC_ALL_DS"

definition map_generic_rights_ds :: "u32 \<Rightarrow> u32" where
  "map_generic_rights_ds acc =
     (let acc = (if flag acc GENERIC_ALL_ACCESS
                 then (acc OR SEC_ADS_GENERIC_ALL) AND NOT GENERIC_ALL_ACCESS else acc);
          acc = (if flag acc GENERIC_EXECUTE_ACCESS
                 then (acc OR SEC_ADS_GENERIC_EXECUTE) AND NOT GENERIC_EXECUTE_ACCESS else acc);
          acc = (if flag acc GENERIC_WRITE_ACCESS
                 then (acc OR SEC_ADS_GENERIC_WRITE) AND NOT GENERIC_WRITE_ACCESS else acc);
          acc = (if flag acc GENERIC_READ_ACCESS
                 then (acc OR SEC_ADS_GENERIC_READ) AND NOT GENERIC_READ_ACCESS else acc)
      in acc)"

text \<open>The list of GUIDs ends with an all-zero one; the list argument holds those before it.\<close>

fun object_list_loop :: "GUID list \<Rightarrow> GUID \<Rightarrow> bool" where
  "object_list_loop [] object = False"
| "object_list_loop (g # gs) object =
     (if GUID_all_zero g then False
      else if \<not> GUID_equal g object then object_list_loop gs object
      else True)"

definition object_in_list :: "GUID list option \<Rightarrow> GUID \<Rightarrow> bool" where
  "object_in_list object_list object =
     (case object_list of
        None \<Rightarrow> True
      | Some gs \<Rightarrow> if GUID_all_zero object then True else object_list_loop gs object)"

definition desc_ace_has_generic :: "security_ace \<Rightarrow> bool" where
  "desc_ace_has_generic ace =
     (if flag (access_mask ace) GENERIC_ALL_ACCESS \<or> flag (access_mask ace) GENERIC_READ_ACCESS \<or>
         flag (access_mask ace) GENERIC_WRITE_ACCESS \<or> flag (access_mask ace) GENERIC_EXECUTE_ACCESS
      then True
      else if dom_sid_equal (Some (trustee ace)) (Some global_sid_Creator_Owner) \<or>
              dom_sid_equal (Some (trustee ace)) (Some global_sid_Creator_Group)
      then True
      else False)"

definition desc_expand_generic :: "security_ace \<Rightarrow> dom_sid \<Rightarrow> dom_sid \<Rightarrow> security_ace" where
  "desc_expand_generic new_ace owner group_s =
     (let new_ace = new_ace\<lparr>access_mask := map_generic_rights_ds (access_mask new_ace)\<rparr>;
          new_ace = (if dom_sid_equal (Some (trustee new_ace)) (Some global_sid_Creator_Owner)
                     then new_ace\<lparr>trustee := owner\<rparr> else new_ace);
          new_ace = (if dom_sid_equal (Some (trustee new_ace)) (Some global_sid_Creator_Group)
                     then new_ace\<lparr>trustee := group_s\<rparr> else new_ace)
      in new_ace\<lparr>ace_flags := 0\<rparr>)"

text \<open>The first entry a parent's entry produces in the child.\<close>

definition inherited_copy :: "security_ace \<Rightarrow> bool \<Rightarrow> GUID list option \<Rightarrow> security_ace" where
  "inherited_copy ace is_container object_list =
     (let flg = ace_flags ace OR SEC_ACE_FLAG_INHERITED_ACE;
          flg = (if flag (ace_flags ace) SEC_ACE_FLAG_INHERIT_ONLY \<and> \<not> desc_ace_has_generic ace
                 then flg AND NOT SEC_ACE_FLAG_INHERIT_ONLY else flg);
          flg = (if is_container \<and> flag (ace_flags ace) SEC_ACE_FLAG_OBJECT_INHERIT
                 then flg OR SEC_ACE_FLAG_INHERIT_ONLY else flg);
          inherited_object =
            (if flag (object_flags (ace_object ace)) SEC_ACE_INHERITED_OBJECT_TYPE_PRESENT
             then inherited_type (ace_object ace) else zero_guid);
          flg = (if sec_ace_object (ace_type ace) \<and> \<not> object_in_list object_list inherited_object
                 then flg OR SEC_ACE_FLAG_INHERIT_ONLY else flg)
      in ace\<lparr>ace_flags := flg\<rparr>)"

fun inherited_loop ::
    "bool \<Rightarrow> dom_sid \<Rightarrow> dom_sid \<Rightarrow> GUID list option \<Rightarrow> security_ace list \<Rightarrow> security_ace list" where
  "inherited_loop is_container owner group_s object_list [] = []"
| "inherited_loop is_container owner group_s object_list (ace # rest) =
     (if flag (ace_flags ace) SEC_ACE_FLAG_CONTAINER_INHERIT \<or>
         flag (ace_flags ace) SEC_ACE_FLAG_OBJECT_INHERIT
      then
        [inherited_copy ace is_container object_list] @
        (if is_container \<and> \<not> flag (ace_flags ace) SEC_ACE_FLAG_NO_PROPAGATE_INHERIT \<and>
            desc_ace_has_generic ace
         then [(desc_expand_generic ace owner group_s)\<lparr>ace_flags := SEC_ACE_FLAG_INHERITED_ACE\<rparr>]
         else []) @
        inherited_loop is_container owner group_s object_list rest
      else inherited_loop is_container owner group_s object_list rest)"

text \<open>The ACL is allocated with \<open>talloc_zero\<close>, so its size field stays 0. Failing allocations,
  which end in a \<open>NULL\<close> result or in an unchecked pointer, are left out in this section.\<close>

definition calculate_inherited_from_parent ::
    "security_acl option \<Rightarrow> bool \<Rightarrow> dom_sid \<Rightarrow> dom_sid \<Rightarrow> GUID list option \<Rightarrow> security_acl option" where
  "calculate_inherited_from_parent acl is_container owner group_s object_list =
     (case acl of
        None \<Rightarrow> None
      | Some a \<Rightarrow>
          let as = inherited_loop is_container owner group_s object_list (aces a) in
          if as = [] then None
          else Some \<lparr>acl_revision = acl_revision a, acl_size = 0, aces = as\<rparr>)"

text \<open>The loop of \<open>process_user_acl\<close>. It clears the inherited flag in the caller's own list, so
  the result is the new list and the caller's list afterwards.\<close>

fun user_acl_loop ::
    "dom_sid \<Rightarrow> dom_sid \<Rightarrow> bool \<Rightarrow> security_ace list \<Rightarrow> security_ace list \<times> security_ace list" where
  "user_acl_loop owner group_s is_protected [] = ([], [])"
| "user_acl_loop owner group_s is_protected (ace # rest) =
     (case user_acl_loop owner group_s is_protected rest of (new_rest, user_rest) \<Rightarrow>
        if flag (ace_flags ace) SEC_ACE_FLAG_INHERITED_ACE \<and> \<not> is_protected
        then (new_rest, ace # user_rest)
        else
          let ace = (if flag (ace_flags ace) SEC_ACE_FLAG_INHERITED_ACE
                     then ace\<lparr>ace_flags := ace_flags ace AND NOT SEC_ACE_FLAG_INHERITED_ACE\<rparr>
                     else ace);
              inherit_only = flag (ace_flags ace) SEC_ACE_FLAG_INHERIT_ONLY;
              container_inherit = flag (ace_flags ace) SEC_ACE_FLAG_CONTAINER_INHERIT in
          if inherit_only \<and> \<not> (container_inherit \<or> flag (ace_flags ace) SEC_ACE_FLAG_OBJECT_INHERIT)
          then (new_rest, ace # user_rest)
          else if inherit_only then (ace # new_rest, ace # user_rest)
          else if desc_ace_has_generic ace then
            if \<not> container_inherit
            then (desc_expand_generic ace owner group_s # new_rest, ace # user_rest)
            else (ace\<lparr>ace_flags := ace_flags ace OR SEC_ACE_FLAG_INHERIT_ONLY\<rparr>
                    # desc_expand_generic ace owner group_s # new_rest, ace # user_rest)
          else (ace # new_rest, ace # user_rest))"

definition process_user_acl ::
    "security_acl option \<Rightarrow> dom_sid \<Rightarrow> dom_sid \<Rightarrow> bool \<Rightarrow> security_acl option \<times> security_acl option" where
  "process_user_acl acl owner group_s is_protected =
     (case acl of
        None \<Rightarrow> (None, None)
      | Some a \<Rightarrow>
          (case user_acl_loop owner group_s is_protected (aces a) of (new, user) \<Rightarrow>
             (Some \<lparr>acl_revision = acl_revision a, acl_size = 0, aces = new\<rparr>,
              Some (a\<lparr>aces := user\<rparr>))))"

definition SEC_DACL_AUTO_INHERIT :: u32 where "SEC_DACL_AUTO_INHERIT = 1"
definition SEC_SACL_AUTO_INHERIT :: u32 where "SEC_SACL_AUTO_INHERIT = 2"
definition SEC_DEFAULT_DESCRIPTOR :: u32 where "SEC_DEFAULT_DESCRIPTOR = 4"
definition SEC_OWNER_FROM_PARENT :: u32 where "SEC_OWNER_FROM_PARENT = 8"
definition SEC_GROUP_FROM_PARENT :: u32 where "SEC_GROUP_FROM_PARENT = 16"

abbreviation talloc_ok :: talloc where
  "talloc_ok \<equiv> \<lambda>k. Some []"

text \<open>The arguments \<open>generic_map\<close> and \<open>token\<close> are not used by the code.\<close>

definition compute_acl ::
    "security_descriptor option \<Rightarrow> security_descriptor option \<Rightarrow> bool \<Rightarrow> u32 \<Rightarrow> GUID list option \<Rightarrow>
     dom_sid \<Rightarrow> dom_sid \<Rightarrow> security_descriptor \<Rightarrow> security_descriptor \<times> security_descriptor option" where
  "compute_acl parent_sd creator_sd is_container inherit_flags object_list owner group_s new_sd =
     (let inherited_dacl =
            (case parent_sd of
               None \<Rightarrow> None
             | Some p \<Rightarrow>
                 if \<not> flag inherit_flags SEC_DACL_AUTO_INHERIT then None
                 else if (case creator_sd of None \<Rightarrow> False
                          | Some c \<Rightarrow> flag (sd_type c) SEC_DESC_DACL_PROTECTED) then None
                 else calculate_inherited_from_parent (dacl p) is_container owner group_s object_list);
          inherited_sacl =
            (case parent_sd of
               None \<Rightarrow> None
             | Some p \<Rightarrow>
                 if \<not> flag inherit_flags SEC_SACL_AUTO_INHERIT then None
                 else if (case creator_sd of None \<Rightarrow> False
                          | Some c \<Rightarrow> flag (sd_type c) SEC_DESC_SACL_PROTECTED) then None
                 else calculate_inherited_from_parent (sacl p) is_container owner group_s object_list);
          use_creator = (creator_sd \<noteq> None \<and> \<not> flag inherit_flags SEC_DEFAULT_DESCRIPTOR);
          (user_dacl, creator_dacl) =
            (if use_creator
             then process_user_acl (dacl (the creator_sd)) owner group_s
                    (flag (sd_type (the creator_sd)) SEC_DESC_DACL_PROTECTED)
             else (None, None));
          (user_sacl, creator_sacl) =
            (if use_creator
             then process_user_acl (sacl (the creator_sd)) owner group_s
                    (flag (sd_type (the creator_sd)) SEC_DESC_SACL_PROTECTED)
             else (None, None));
          creator_sd' = (if use_creator
                         then Some ((the creator_sd)\<lparr>dacl := creator_dacl, sacl := creator_sacl\<rparr>)
                         else creator_sd);
          new_dacl = security_acl_concatenate talloc_ok user_dacl inherited_dacl;
          new_sacl = security_acl_concatenate talloc_ok user_sacl inherited_sacl;
          type = sd_type new_sd
            OR (if new_dacl \<noteq> None then SEC_DESC_DACL_PRESENT else 0)
            OR (if inherited_dacl \<noteq> None then SEC_DESC_DACL_AUTO_INHERITED else 0)
            OR (if new_sacl \<noteq> None then SEC_DESC_SACL_PRESENT else 0)
            OR (if inherited_sacl \<noteq> None then SEC_DESC_SACL_AUTO_INHERITED else 0)
            OR (case creator_sd of None \<Rightarrow> 0 | Some c \<Rightarrow> sd_type c)
      in (new_sd\<lparr>dacl := new_dacl, sacl := new_sacl, sd_type := type\<rparr>, creator_sd'))"

text \<open>The owner and group of the new object, and the control bit that records a default.\<close>

definition owner_otherwise ::
    "security_descriptor option \<Rightarrow> u32 \<Rightarrow> security_token \<Rightarrow> dom_sid option \<Rightarrow> dom_sid option \<times> u16" where
  "owner_otherwise parent_sd inherit_flags token default_owner =
     (if flag inherit_flags SEC_OWNER_FROM_PARENT \<and> parent_sd \<noteq> None
      then (owner_sid (the parent_sd), 0)
      else if default_owner = None then (Some (sids token ! PRIMARY_USER_SID_INDEX), 0)
      else (default_owner, SEC_DESC_OWNER_DEFAULTED))"

definition group_otherwise ::
    "security_descriptor option \<Rightarrow> u32 \<Rightarrow> security_token \<Rightarrow> dom_sid option \<Rightarrow> dom_sid option \<times> u16" where
  "group_otherwise parent_sd inherit_flags token default_group =
     (if flag inherit_flags SEC_GROUP_FROM_PARENT \<and> parent_sd \<noteq> None
      then (group_sid (the parent_sd), 0)
      else if default_group = None \<and> length (sids token) > PRIMARY_GROUP_SID_INDEX
      then (Some (sids token ! PRIMARY_GROUP_SID_INDEX), 0)
      else if default_group = None then (Some (sids token ! PRIMARY_USER_SID_INDEX), 0)
      else (default_group, SEC_DESC_GROUP_DEFAULTED))"

definition new_owner_of ::
    "security_descriptor option \<Rightarrow> security_descriptor option \<Rightarrow> u32 \<Rightarrow> security_token \<Rightarrow>
     dom_sid option \<Rightarrow> dom_sid option \<times> u16" where
  "new_owner_of parent_sd creator_sd inherit_flags token default_owner =
     (case creator_sd of
        Some c \<Rightarrow> if owner_sid c \<noteq> None then (owner_sid c, 0)
                  else owner_otherwise parent_sd inherit_flags token default_owner
      | None \<Rightarrow> owner_otherwise parent_sd inherit_flags token default_owner)"

definition new_group_of ::
    "security_descriptor option \<Rightarrow> security_descriptor option \<Rightarrow> u32 \<Rightarrow> security_token \<Rightarrow>
     dom_sid option \<Rightarrow> dom_sid option \<times> u16" where
  "new_group_of parent_sd creator_sd inherit_flags token default_group =
     (case creator_sd of
        Some c \<Rightarrow> if group_sid c \<noteq> None then (group_sid c, 0)
                  else group_otherwise parent_sd inherit_flags token default_group
      | None \<Rightarrow> group_otherwise parent_sd inherit_flags token default_group)"

text \<open>The result is \<open>None\<close> also where the code copies from a \<open>NULL\<close> owner or group of the parent.\<close>

definition create_security_descriptor ::
    "security_descriptor option \<Rightarrow> security_descriptor option \<Rightarrow> bool \<Rightarrow> GUID list option \<Rightarrow> u32 \<Rightarrow>
     security_token \<Rightarrow> dom_sid option \<Rightarrow> dom_sid option \<Rightarrow>
     (security_descriptor \<times> security_descriptor option) option" where
  "create_security_descriptor parent_sd creator_sd is_container object_list inherit_flags token
     default_owner default_group =
     (case (new_owner_of parent_sd creator_sd inherit_flags token default_owner,
            new_group_of parent_sd creator_sd inherit_flags token default_group) of
        ((Some owner, owner_bit), (Some group_s, group_bit)) \<Rightarrow>
          Some (compute_acl parent_sd creator_sd is_container inherit_flags object_list owner group_s
                  \<lparr>sd_revision = SD_REVISION,
                   sd_type = SEC_DESC_SELF_RELATIVE OR owner_bit OR group_bit,
                   owner_sid = Some owner, group_sid = Some group_s, sacl = None, dacl = None\<rparr>)
      | _ \<Rightarrow> None)"

section \<open>Lemmas: duplicates do not matter\<close>

lemma first_match_append:
  "first_match P (xs @ ys) n = (case first_match P xs n of None \<Rightarrow> first_match P ys n | Some d \<Rightarrow> Some d)"
  by (induction xs) (auto split: security_ace_type.splits)

lemma first_match_duplicate:
  assumes resp: "\<And>a b. security_ace_equal (Some a) (Some b) \<Longrightarrow> P a = P b"
    and "y \<in> set xs" "security_ace_equal (Some x) (Some y)"
  shows "first_match P (xs @ x # ys) n = first_match P (xs @ ys) n"
proof (cases "first_match P xs n")
  case None
  from None assms(2) have "first_match P [y] n = None"
  proof (induction xs)
    case (Cons a xs)
    then show ?case by (cases "ace_type a") (auto split: if_splits)
  qed simp
  moreover have "first_match P [x] n = first_match P [y] n"
    using resp [OF assms(3)] assms(3) by simp
  ultimately have "first_match P [x] n = None" by simp
  then have "first_match P (x # ys) n = first_match P ys n"
    using first_match_append [of P "[x]" ys n] by simp
  with None show ?thesis by (simp only: first_match_append)
qed (simp add: first_match_append)

declare remove_duplicate_aces.simps [simp del]

text \<open>Removing duplicates keeps every entry up to equality, and hence every decision.\<close>

lemma remove_duplicate_aces_first_match:
  assumes resp: "\<And>a b. security_ace_equal (Some a) (Some b) \<Longrightarrow> P a = P b"
  shows "first_match P (remove_duplicate_aces i as) n = first_match P as n"
proof (induction i as rule: remove_duplicate_aces.induct)
  case (1 i as)
  show ?case
  proof (cases "i < length as")
    case True
    show ?thesis
    proof (cases "list_ex (\<lambda>aj. security_ace_equal (Some (as ! i)) (Some aj)) (take i as)")
      case dup: True
      then obtain y where "y \<in> set (take i as)" "security_ace_equal (Some (as ! i)) (Some y)"
        by (auto simp only: list_ex_iff)
      from first_match_duplicate [where P = P, OF resp this, of "drop (i + 1) as" n]
      have "first_match P as n = first_match P (take i as @ drop (i + 1) as) n"
        using True by (simp add: Cons_nth_drop_Suc)
      with 1(1) [OF True dup] True dup show ?thesis by (subst remove_duplicate_aces.simps) simp
    next
      case False
      with 1(2) [OF True False] True show ?thesis by (subst remove_duplicate_aces.simps) simp
    qed
  qed (subst remove_duplicate_aces.simps, simp)
qed

lemma remove_duplicate_aces_set: "set (remove_duplicate_aces i as) \<subseteq> set as"
proof (induction i as rule: remove_duplicate_aces.induct)
  case (1 i as)
  then show ?case
    by (subst remove_duplicate_aces.simps) (auto dest!: in_set_takeD in_set_dropD)
qed

lemma security_ace_equal_trans:
  "security_ace_equal (Some a) (Some b) \<Longrightarrow> security_ace_equal (Some b) (Some c) \<Longrightarrow>
   security_ace_equal (Some a) (Some c)"
  by (auto intro: sid_same_trans)

lemma remove_duplicate_aces_represents:
  "a \<in> set as \<Longrightarrow> \<exists>b \<in> set (remove_duplicate_aces i as). security_ace_equal (Some a) (Some b)"
proof (induction i as arbitrary: a rule: remove_duplicate_aces.induct)
  case (1 i as)
  show ?case
  proof (cases "i < length as \<and> list_ex (\<lambda>aj. security_ace_equal (Some (as ! i)) (Some aj)) (take i as)")
    case True
    then obtain y where y: "y \<in> set (take i as)" "security_ace_equal (Some (as ! i)) (Some y)"
      by (auto simp only: list_ex_iff)
    have eq: "remove_duplicate_aces i as = remove_duplicate_aces i (take i as @ drop (i + 1) as)"
      using True by (subst remove_duplicate_aces.simps) simp
    have IH: "\<exists>b \<in> set (remove_duplicate_aces i as). security_ace_equal (Some c) (Some b)"
      if "c \<in> set (take i as @ drop (i + 1) as)" for c
      using 1(1) [of c] that True by (simp add: eq)
    from 1(3) have "a = as ! i \<or> a \<in> set (take i as @ drop (i + 1) as)"
      using True id_take_nth_drop [of i as] by (metis Un_iff insertE list.simps(15) set_append Suc_eq_plus1)
    then show ?thesis
      using IH [of a] IH [of y] y security_ace_equal_trans [of a y] by (metis UnI1 set_append)
  next
    case False
    have "remove_duplicate_aces i as = (if i < length as then remove_duplicate_aces (i + 1) as else as)"
      using False by (subst remove_duplicate_aces.simps) simp
    with 1(2) [of a] 1(3) False show ?thesis by (auto intro: bexI [of _ a])
  qed
qed

section \<open>Lemmas: entries inherited by a file\<close>

text \<open>The SID that stands for a creator SID, and the entry a file inherits.\<close>

definition subst_creator :: "dom_sid \<Rightarrow> dom_sid \<Rightarrow> dom_sid \<Rightarrow> dom_sid" where
  "subst_creator owner group_s sid =
     (if dom_sid_equal (Some sid) (Some global_sid_Creator_Owner) then owner
      else if dom_sid_equal (Some sid) (Some global_sid_Creator_Group) then group_s
      else sid)"

definition file_entry :: "dom_sid \<Rightarrow> dom_sid \<Rightarrow> u8 \<Rightarrow> security_ace \<Rightarrow> security_ace" where
  "file_entry owner group_s inherited a =
     a\<lparr>ace_flags := inherited, trustee := subst_creator owner group_s (trustee a)\<rparr>"

text \<open>Entries that differ only in the parts no decision depends on.\<close>

definition ace_alike :: "security_ace \<Rightarrow> security_ace \<Rightarrow> bool" where
  "ace_alike a b \<longleftrightarrow> ace_type a = ace_type b \<and> ace_flags a = ace_flags b \<and>
     access_mask a = access_mask b \<and> trustee a = trustee b"

lemma child_ace_loop_file:
  "\<exists>new. child_ace_loop fresh (Some owner) (Some group_s) False inherited as acc = Some (acc @ new) \<and>
     list_all2 ace_alike new
       (map (file_entry owner group_s inherited) (filter (\<lambda>a. is_inheritable_ace a False) as))"
proof (induction as arbitrary: acc)
  case (Cons a as)
  show ?case
  proof (cases "is_inheritable_ace a False")
    case True
    let ?x = "init_sec_ace (fresh (length acc)) (subst_creator owner group_s (trustee a)) (ace_type a)
      (access_mask a) inherited"
    from Cons [of "acc @ [?x]"] obtain new where
      "child_ace_loop fresh (Some owner) (Some group_s) False inherited as (acc @ [?x])
         = Some ((acc @ [?x]) @ new)"
      "list_all2 ace_alike new
         (map (file_entry owner group_s inherited) (filter (\<lambda>a. is_inheritable_ace a False) as))" by blast
    moreover have "child_ace_loop fresh (Some owner) (Some group_s) False inherited (a # as) acc
        = child_ace_loop fresh (Some owner) (Some group_s) False inherited as (acc @ [?x])"
      using True by (simp add: Let_def creator_trustee_def subst_creator_def child_ace_flags_def)
    moreover have "ace_alike ?x (file_entry owner group_s inherited a)"
      by (simp add: ace_alike_def file_entry_def init_sec_ace_def)
    ultimately show ?thesis
      using True by (intro exI [of _ "?x # new"]) simp
  qed (use Cons in simp)
qed simp

lemma first_match_alike:
  assumes "list_all2 ace_alike as bs" "\<And>a b. ace_alike a b \<Longrightarrow> P a = P b"
  shows "first_match P as n = first_match P bs n"
  using assms(1)
proof (induction rule: list_all2_induct)
  case (Cons a as b bs)
  with assms(2) [of a b] show ?case by (auto simp: ace_alike_def split: security_ace_type.splits)
qed simp

lemma ace_applies_equal:
  "security_ace_equal (Some a) (Some b) \<Longrightarrow> ace_applies sd token a = ace_applies sd token b"
  using token_sids.has_sid_same [of "trustee a" "trustee b" token]
    dom_sid_equal_sym dom_sid_equal_trans
  by (auto simp: ace_applies_def) (metis dom_sid_equal_Some)+

lemma ace_applies_alike: "ace_alike a b \<Longrightarrow> ace_applies sd token a = ace_applies sd token b"
  by (simp add: ace_alike_def ace_applies_def)


lemma remove_duplicate_aces_Nil: "remove_duplicate_aces i as = [] \<longleftrightarrow> as = []"
  using remove_duplicate_aces_represents [of "hd as" as i] remove_duplicate_aces_set [of i as]
  by (cases as) auto

lemma make_sec_desc_parts:
  assumes "make_sec_desc mem r type owner grp s d = (Some dst, sz)"
  shows "dacl dst = d" "sacl dst = s" "dom_sid_equal (owner_sid dst) owner"
    and "sd_type dst = type OR (if s \<noteq> None then SEC_DESC_SACL_PRESENT else 0)
           OR (if d \<noteq> None then SEC_DESC_DACL_PRESENT else 0)"
  using assms
  by (auto simp: make_sec_desc_def Let_def split: option.splits dest: copy_acl_eq copy_sid_equal)

lemma make_sec_acl_aces: "make_sec_acl mem r as = Some acl \<Longrightarrow> aces acl = as"
  by (auto simp: make_sec_acl_def split: if_splits)

definition parent_inherited_flag :: "security_descriptor \<Rightarrow> u8" where
  "parent_inherited_flag parent_ctr =
     (if flag (sd_type parent_ctr) SEC_DESC_DACL_AUTO_INHERITED then SEC_ACE_FLAG_INHERITED_ACE else 0)"

lemma se_create_child_secdesc_OK:
  assumes "se_create_child_secdesc mem fresh parent_ctr owner group_s container =
      Some (NT_STATUS_OK, Some child, sz)"
  obtains acl l where "dacl parent_ctr = Some acl"
    and "child_ace_loop fresh owner group_s container (parent_inherited_flag parent_ctr) (aces acl) [] = Some l"
    and "map_option aces (dacl child) =
           (if l = [] then None else Some (remove_duplicate_aces 1 l))"
    and "flag (sd_type child) SEC_DESC_DACL_PRESENT"
    and "dom_sid_equal (owner_sid child) owner"
proof -
  from assms obtain acl l where acl: "dacl parent_ctr = Some acl"
    and l: "child_ace_loop fresh owner group_s container (parent_inherited_flag parent_ctr) (aces acl) [] = Some l"
    by (auto simp: se_create_child_secdesc_def parent_inherited_flag_def Let_def
        split: option.splits if_splits)
  define l' where "l' = remove_duplicate_aces 1 l"
  define nd where "nd = (if l' \<noteq> [] then make_sec_acl (\<lambda>k. mem (1 + k)) SECURITY_ACL_REVISION_NT4 l' else None)"
  define ty where "ty = (SEC_DESC_SELF_RELATIVE OR SEC_DESC_DACL_PRESENT OR
    (if flag (sd_type parent_ctr) SEC_DESC_DACL_AUTO_INHERITED then SEC_DESC_DACL_AUTO_INHERITED else 0))"
  have eq: "se_create_child_secdesc mem fresh parent_ctr owner group_s container =
      (if aces acl \<noteq> [] \<and> (2 * of_nat (length (aces acl)) :: u32) < of_nat (length (aces acl))
       then Some (NT_STATUS_NO_MEMORY, None, 0)
       else if aces acl \<noteq> [] \<and> talloc_fails mem 0 then Some (NT_STATUS_NO_MEMORY, None, 0)
       else if l' \<noteq> [] \<and> nd = None then Some (NT_STATUS_NO_MEMORY, None, 0)
       else (case make_sec_desc (\<lambda>k. mem (3 + k)) 1 ty owner group_s None nd of
               (None, sz) \<Rightarrow> Some (NT_STATUS_NO_MEMORY, None, sz)
             | (Some psd, sz) \<Rightarrow> Some (NT_STATUS_OK, Some psd, sz)))"
    unfolding se_create_child_secdesc_def nd_def l'_def ty_def
    by (simp only: acl l [unfolded parent_inherited_flag_def] Let_def option.case)
  have md: "make_sec_desc (\<lambda>k. mem (3 + k)) 1 ty owner group_s None nd = (Some child, sz)"
    and nd: "l' \<noteq> [] \<longrightarrow> nd \<noteq> None"
    using assms unfolding eq by (auto split: if_splits prod.splits option.splits)
  have "map_option aces (dacl child) = (if l = [] then None else Some l')"
    using make_sec_desc_parts(1) [OF md] nd make_sec_acl_aces
    by (auto simp: nd_def l'_def remove_duplicate_aces_Nil)
  moreover have "flag (sd_type child) SEC_DESC_DACL_PRESENT"
    by (simp add: make_sec_desc_parts(4) [OF md] ty_def flag_or) (simp add: flag_def SEC_DESC_DACL_PRESENT_def)
  ultimately show thesis
    using that acl l make_sec_desc_parts(3) [OF md] by (simp add: l'_def)
qed

lemma remove_duplicate_aces_ex:
  assumes "\<And>a b. security_ace_equal (Some a) (Some b) \<Longrightarrow> P a = P b"
  shows "(\<exists>a \<in> set (remove_duplicate_aces i as). P a) \<longleftrightarrow> (\<exists>a \<in> set as. P a)"
  using assms remove_duplicate_aces_represents remove_duplicate_aces_set by (metis subsetD)

lemma alike_ex:
  assumes "list_all2 ace_alike as bs" "\<And>a b. ace_alike a b \<Longrightarrow> P a = P b"
  shows "(\<exists>a \<in> set as. P a) \<longleftrightarrow> (\<exists>b \<in> set bs. P b)"
  using assms(1) by (induction rule: list_all2_induct) (auto simp: assms(2))

lemma policy_grants_cong:
  assumes "first_match (ace_applies sd token) as n = first_match (ace_applies sd token) bs n"
    and "(\<exists>a \<in> set as. \<not> flag (ace_flags a) SEC_ACE_FLAG_INHERIT_ONLY \<and>
            dom_sid_equal (Some (trustee a)) (Some global_sid_Owner_Rights)) \<longleftrightarrow>
         (\<exists>a \<in> set bs. \<not> flag (ace_flags a) SEC_ACE_FLAG_INHERIT_ONLY \<and>
            dom_sid_equal (Some (trustee a)) (Some global_sid_Owner_Rights))"
  shows "policy_grants sd token as n \<longleftrightarrow> policy_grants sd token bs n"
  unfolding policy_grants_def owner_default_def assms ..

lemma policy_grants_remove_duplicates:
  "policy_grants sd token (remove_duplicate_aces i as) n \<longleftrightarrow> policy_grants sd token as n"
proof (rule policy_grants_cong)
  show "first_match (ace_applies sd token) (remove_duplicate_aces i as) n =
      first_match (ace_applies sd token) as n"
    by (rule remove_duplicate_aces_first_match) (rule ace_applies_equal)
  have "(\<not> flag (ace_flags a) SEC_ACE_FLAG_INHERIT_ONLY \<and>
      dom_sid_equal (Some (trustee a)) (Some global_sid_Owner_Rights)) =
      (\<not> flag (ace_flags b) SEC_ACE_FLAG_INHERIT_ONLY \<and>
      dom_sid_equal (Some (trustee b)) (Some global_sid_Owner_Rights))"
    if "security_ace_equal (Some a) (Some b)" for a b
    using that by (auto intro: sid_same_trans sid_same_sym)
  then show "(\<exists>a \<in> set (remove_duplicate_aces i as). \<not> flag (ace_flags a) SEC_ACE_FLAG_INHERIT_ONLY \<and>
      dom_sid_equal (Some (trustee a)) (Some global_sid_Owner_Rights)) =
    (\<exists>a \<in> set as. \<not> flag (ace_flags a) SEC_ACE_FLAG_INHERIT_ONLY \<and>
      dom_sid_equal (Some (trustee a)) (Some global_sid_Owner_Rights))"
    by (rule remove_duplicate_aces_ex)
qed

lemma policy_grants_alike:
  assumes "list_all2 ace_alike as bs"
  shows "policy_grants sd token as n \<longleftrightarrow> policy_grants sd token bs n"
  by (rule policy_grants_cong)
    (rule first_match_alike [OF assms ace_applies_alike], assumption,
     rule alike_ex [OF assms], simp add: ace_alike_def)

section \<open>Lemmas: explicit and inherited entries of directory objects\<close>

lemma flag_inherited_iff [flag_simps]:
  "flag w SEC_ACE_FLAG_INHERITED_ACE \<longleftrightarrow> bit w 4"
  "bit SEC_ACE_FLAG_INHERITED_ACE 4" "\<not> bit SEC_ACE_FLAG_INHERIT_ONLY 4"
  using flag_single_bit [of 4 w]
  by (simp_all add: SEC_ACE_FLAG_INHERITED_ACE_def SEC_ACE_FLAG_INHERIT_ONLY_def)

lemma user_acl_loop_explicit:
  "a \<in> set (fst (user_acl_loop owner group_s prot as)) \<Longrightarrow>
     \<not> flag (ace_flags a) SEC_ACE_FLAG_INHERITED_ACE"
proof (induction as)
  case (Cons x as)
  obtain new user where r: "user_acl_loop owner group_s prot as = (new, user)" by fastforce
  with Cons show ?case
    by (auto simp: Let_def flag_inherited_iff bit_or_iff bit_and_not desc_expand_generic_def
        split: if_splits)
qed simp

lemma inherited_loop_inherited:
  "a \<in> set (inherited_loop is_container owner group_s object_list as) \<Longrightarrow>
     flag (ace_flags a) SEC_ACE_FLAG_INHERITED_ACE"
proof (induction as)
  case (Cons x as)
  then show ?case
    by (auto simp: inherited_copy_def Let_def flag_inherited_iff bit_or_iff bit_and_not split: if_splits)
qed simp

lemma security_acl_concatenate_aces:
  "security_acl_concatenate talloc_ok a b = Some c \<Longrightarrow>
     aces c = (case a of None \<Rightarrow> [] | Some x \<Rightarrow> aces x) @ (case b of None \<Rightarrow> [] | Some y \<Rightarrow> aces y)"
  by (auto simp: security_acl_concatenate_def security_acl_dup_def split: option.splits if_splits)

lemma process_user_acl_explicit:
  "fst (process_user_acl acl owner group_s prot) = Some x \<Longrightarrow> a \<in> set (aces x) \<Longrightarrow>
     \<not> flag (ace_flags a) SEC_ACE_FLAG_INHERITED_ACE"
  using user_acl_loop_explicit [of a owner group_s prot]
  by (auto simp: process_user_acl_def split: option.splits prod.splits) (metis fst_conv)

lemma calculate_inherited_from_parent_inherited:
  "calculate_inherited_from_parent acl is_container owner group_s object_list = Some x \<Longrightarrow>
     a \<in> set (aces x) \<Longrightarrow> flag (ace_flags a) SEC_ACE_FLAG_INHERITED_ACE"
  using inherited_loop_inherited
  by (auto simp: calculate_inherited_from_parent_def Let_def split: option.splits if_splits)

lemma compute_acl_dacl:
  "\<exists>u d. dacl (fst (compute_acl parent_sd creator_sd is_container fl object_list owner group_s new_sd))
       = security_acl_concatenate talloc_ok u d \<and>
     (\<forall>x. u = Some x \<longrightarrow> (\<forall>a \<in> set (aces x). \<not> flag (ace_flags a) SEC_ACE_FLAG_INHERITED_ACE)) \<and>
     (\<forall>x. d = Some x \<longrightarrow> (\<forall>a \<in> set (aces x). flag (ace_flags a) SEC_ACE_FLAG_INHERITED_ACE)) \<and>
     ((\<exists>c. creator_sd = Some c \<and> flag (sd_type c) SEC_DESC_DACL_PROTECTED) \<longrightarrow> d = None)"
proof -
  define d where "d = (case parent_sd of
               None \<Rightarrow> None
             | Some p \<Rightarrow>
                 if \<not> flag fl SEC_DACL_AUTO_INHERIT then None
                 else if (case creator_sd of None \<Rightarrow> False
                          | Some c \<Rightarrow> flag (sd_type c) SEC_DESC_DACL_PROTECTED) then None
                 else calculate_inherited_from_parent (dacl p) is_container owner group_s object_list)"
  define u where "u = fst (if creator_sd \<noteq> None \<and> \<not> flag fl SEC_DEFAULT_DESCRIPTOR
             then process_user_acl (dacl (the creator_sd)) owner group_s
                    (flag (sd_type (the creator_sd)) SEC_DESC_DACL_PROTECTED)
             else (None, None))"
  have "dacl (fst (compute_acl parent_sd creator_sd is_container fl object_list owner group_s new_sd))
      = security_acl_concatenate talloc_ok u d"
    by (simp add: compute_acl_def Let_def u_def d_def split_beta)
  moreover have "\<not> flag (ace_flags a) SEC_ACE_FLAG_INHERITED_ACE"
    if "u = Some x" "a \<in> set (aces x)" for x a
    using that process_user_acl_explicit unfolding u_def by (simp split: if_splits)
  moreover have "flag (ace_flags a) SEC_ACE_FLAG_INHERITED_ACE"
    if "d = Some x" "a \<in> set (aces x)" for x a
    using that calculate_inherited_from_parent_inherited unfolding d_def
    by (simp split: option.splits if_splits)
  moreover have "d = None" if "creator_sd = Some c" "flag (sd_type c) SEC_DESC_DACL_PROTECTED" for c
    using that by (simp add: d_def split: option.split)
  ultimately show ?thesis by blast
qed

text \<open>A parent directory whose DACL has one entry that files inherit.\<close>

definition sample_parent :: security_descriptor where
  "sample_parent = sd_with_dacl [world_ace SEC_ACE_TYPE_ACCESS_ALLOWED 1 SEC_ACE_FLAG_OBJECT_INHERIT]"

abbreviation sample_child :: "security_descriptor \<Rightarrow> (NTSTATUS \<times> security_descriptor option \<times> int) option" where
  "sample_child p \<equiv> se_create_child_secdesc talloc_works (\<lambda>_. zero_ace) p
     (Some global_sid_System) (Some global_sid_World) False"

lemma well_known_creator [simp]:
  "\<not> sid_same global_sid_World global_sid_Creator_Owner" "\<not> sid_same global_sid_World global_sid_Creator_Group"
  by (simp_all add: sid_same_def global_sid_World_def global_sid_Creator_Owner_def
      global_sid_Creator_Group_def const_sid_def) (auto intro: exI [of _ 5])

lemma remove_duplicate_aces_single: "remove_duplicate_aces (Suc 0) [a] = [a]"
  by (subst remove_duplicate_aces.simps) simp

lemma sample_child_ok:
  "\<exists>child sz acl. sample_child sample_parent = Some (NT_STATUS_OK, Some child, sz) \<and> dacl child = Some acl"
  by (simp add: se_create_child_secdesc_def sample_parent_def sd_with_dacl_def Let_def
      is_inheritable_ace_def creator_trustee_def child_ace_flags_def remove_duplicate_aces_single
      make_sec_acl_def make_sec_desc_def security_descriptor_initialise_def copy_member_def
      security_acl_dup_def dom_sid_dup_def flag_def SEC_ACE_FLAG_OBJECT_INHERIT_def
      SEC_DESC_DACL_PRESENT_def SEC_DESC_DACL_AUTO_INHERITED_def)


section \<open>Properties\<close>

text \<open>C8: the DACL a file inherits. When \<open>se_create_child_secdesc\<close> succeeds for a file, every
  entry of the new DACL is effective on the file and carries no inheritance flags, and the
  rights the new DACL grants to anybody are those granted by the parent's object-inherit
  entries, in their order, with the creator SIDs replaced by the new owner and group.\<close>

theorem file_inherits_parent_policy:
  assumes "se_create_child_secdesc mem fresh parent_ctr (Some owner) (Some group_s) False =
      Some (NT_STATUS_OK, Some child, sz)"
    and "dacl parent_ctr = Some acl" and "dacl child = Some new_acl"
  shows "(\<forall>a \<in> set (aces new_acl). ace_flags a = parent_inherited_flag parent_ctr) \<and>
    (\<forall>n. policy_grants child token (aces new_acl) n \<longleftrightarrow>
      policy_grants child token
        (map (file_entry owner group_s (parent_inherited_flag parent_ctr))
           (filter (\<lambda>a. is_inheritable_ace a False) (aces acl))) n)"
proof -
  let ?spec = "map (file_entry owner group_s (parent_inherited_flag parent_ctr))
    (filter (\<lambda>a. is_inheritable_ace a False) (aces acl))"
  obtain acl' l where "dacl parent_ctr = Some acl'"
    and l: "child_ace_loop fresh (Some owner) (Some group_s) False
      (parent_inherited_flag parent_ctr) (aces acl') [] = Some l"
    and "map_option aces (dacl child) = (if l = [] then None else Some (remove_duplicate_aces 1 l))"
    using se_create_child_secdesc_OK [OF assms(1)] .
  then have l: "child_ace_loop fresh (Some owner) (Some group_s) False
      (parent_inherited_flag parent_ctr) (aces acl) [] = Some l"
    and new: "aces new_acl = remove_duplicate_aces 1 l"
    using assms(2,3) by (simp_all split: if_splits)
  have alike: "list_all2 ace_alike l ?spec"
    using child_ace_loop_file [of fresh owner group_s "parent_inherited_flag parent_ctr" "aces acl" "[]"] l
    by auto
  have flags: "ace_flags a = parent_inherited_flag parent_ctr" if "a \<in> set l" for a
    using alike that by (fastforce simp: list_all2_conv_all_nth in_set_conv_nth ace_alike_def file_entry_def)
  show ?thesis
    unfolding new policy_grants_remove_duplicates policy_grants_alike [OF alike]
    using remove_duplicate_aces_set [of 1 l] flags by blast
qed

theorem file_inherits_parent_policy_witness:
  "\<exists>child sz acl. sample_child sample_parent = Some (NT_STATUS_OK, Some child, sz) \<and>
     dacl child = Some acl \<and> (\<forall>a \<in> set (aces acl). ace_flags a = parent_inherited_flag sample_parent)"
proof -
  obtain child sz acl where "sample_child sample_parent = Some (NT_STATUS_OK, Some child, sz)"
    and "dacl child = Some acl" using sample_child_ok by blast
  moreover from file_inherits_parent_policy [OF this(1) _ this(2), of _ "world_token 0"]
  have "\<forall>a \<in> set (aces acl). ace_flags a = parent_inherited_flag sample_parent"
    by (simp add: sample_parent_def sd_with_dacl_dacl)
  ultimately show ?thesis by blast
qed



text \<open>C29: in the DACL computed for a new directory object every explicit entry comes before every
  inherited one; a protected creator descriptor keeps all inherited entries out.\<close>

theorem created_dacl_explicit_first:
  assumes "create_security_descriptor parent_sd creator_sd is_container object_list fl token
      default_owner default_group = Some (sd, creator_after)"
    and "dacl sd = Some acl"
  shows "(\<exists>k. \<forall>i < length (aces acl).
      flag (ace_flags (aces acl ! i)) SEC_ACE_FLAG_INHERITED_ACE \<longleftrightarrow> k \<le> i) \<and>
    ((\<exists>c. creator_sd = Some c \<and> flag (sd_type c) SEC_DESC_DACL_PROTECTED) \<longrightarrow>
       (\<forall>a \<in> set (aces acl). \<not> flag (ace_flags a) SEC_ACE_FLAG_INHERITED_ACE))"
proof -
  from assms(1) obtain owner group_s new_sd where
    "compute_acl parent_sd creator_sd is_container fl object_list owner group_s new_sd = (sd, creator_after)"
    by (auto simp: create_security_descriptor_def split: prod.splits option.splits)
  with compute_acl_dacl [of parent_sd creator_sd is_container fl object_list owner group_s new_sd] assms(2)
  obtain u d where cat: "security_acl_concatenate talloc_ok u d = Some acl"
    and u: "\<forall>x. u = Some x \<longrightarrow> (\<forall>a \<in> set (aces x). \<not> flag (ace_flags a) SEC_ACE_FLAG_INHERITED_ACE)"
    and d: "\<forall>x. d = Some x \<longrightarrow> (\<forall>a \<in> set (aces x). flag (ace_flags a) SEC_ACE_FLAG_INHERITED_ACE)"
    and prot: "(\<exists>c. creator_sd = Some c \<and> flag (sd_type c) SEC_DESC_DACL_PROTECTED) \<longrightarrow> d = None"
    by auto
  define us where "us = (case u of None \<Rightarrow> [] | Some x \<Rightarrow> aces x)"
  define ds where "ds = (case d of None \<Rightarrow> [] | Some x \<Rightarrow> aces x)"
  have l: "aces acl = us @ ds" unfolding us_def ds_def by (rule security_acl_concatenate_aces [OF cat])
  have ue: "\<not> flag (ace_flags a) SEC_ACE_FLAG_INHERITED_ACE" if "a \<in> set us" for a
    using that u by (auto simp: us_def split: option.splits)
  have de: "flag (ace_flags a) SEC_ACE_FLAG_INHERITED_ACE" if "a \<in> set ds" for a
    using that d by (auto simp: ds_def split: option.splits)
  have "flag (ace_flags (aces acl ! i)) SEC_ACE_FLAG_INHERITED_ACE \<longleftrightarrow> length us \<le> i"
    if "i < length (aces acl)" for i
    using that ue [of "us ! i"] de [of "ds ! (i - length us)"]
    by (cases "i < length us") (simp_all add: l nth_append)
  moreover have "ds = []" if "d = None" using that by (simp add: ds_def)
  ultimately show ?thesis using prot ue unfolding l by auto
qed

theorem created_dacl_explicit_first_witness:
  "\<exists>sd acl c. create_security_descriptor (Some sample_parent)
       (Some (sd_with_dacl [world_ace SEC_ACE_TYPE_ACCESS_ALLOWED 2 0])) True None SEC_DACL_AUTO_INHERIT
       (world_token 0) None None = Some (sd, c) \<and> dacl sd = Some acl \<and> length (aces acl) = 2 \<and>
     (\<exists>k. \<forall>i < length (aces acl). flag (ace_flags (aces acl ! i)) SEC_ACE_FLAG_INHERITED_ACE \<longleftrightarrow> k \<le> i)"
proof -
  let ?call = "create_security_descriptor (Some sample_parent)
       (Some (sd_with_dacl [world_ace SEC_ACE_TYPE_ACCESS_ALLOWED 2 0])) True None SEC_DACL_AUTO_INHERIT
       (world_token 0) None None"
  have "\<exists>sd acl c. ?call = Some (sd, c) \<and> dacl sd = Some acl \<and> length (aces acl) = 2"
    by (simp add: create_security_descriptor_def new_owner_of_def new_group_of_def group_otherwise_def
        sd_with_dacl_def sample_parent_def world_token_def flag_def SEC_GROUP_FROM_PARENT_def
        SEC_DACL_AUTO_INHERIT_def PRIMARY_GROUP_SID_INDEX_def compute_acl_def Let_def
        SEC_DESC_DACL_PRESENT_def SEC_DESC_DACL_PROTECTED_def SEC_DESC_SACL_PROTECTED_def
        SEC_SACL_AUTO_INHERIT_def SEC_DEFAULT_DESCRIPTOR_def calculate_inherited_from_parent_def
        process_user_acl_def security_acl_concatenate_def SEC_ACE_FLAG_CONTAINER_INHERIT_def
        SEC_ACE_FLAG_OBJECT_INHERIT_def SEC_ACE_FLAG_INHERITED_ACE_def SEC_ACE_FLAG_INHERIT_ONLY_def
        desc_ace_has_generic_def GENERIC_ALL_ACCESS_def GENERIC_READ_ACCESS_def
        GENERIC_WRITE_ACCESS_def GENERIC_EXECUTE_ACCESS_def)
  then obtain sd acl c where "?call = Some (sd, c)" "dacl sd = Some acl" "length (aces acl) = 2" by blast
  with created_dacl_explicit_first [OF this(1,2)] show ?thesis by blast
qed

end
