(* ===== verification/Byteorder.thy ===== *)
theory Byteorder
  imports Samba_Prelude
begin

text \<open>
  Machine independent access to the integers of a buffer (\<open>lib/util/byteorder.h\<close>, the
  variant without assembler). A buffer is a list of bytes; an access outside of it is undefined
  in C, so every lemma asks for the room it needs. The lemmas say that a stored integer is read
  back and that a store leaves everything outside of its bytes alone.
\<close>

section \<open>Operations\<close>

definition CVAL :: "u8 list \<Rightarrow> nat \<Rightarrow> u32" where
  "CVAL buf pos = ucast (buf ! pos)"

definition SCVAL :: "u8 list \<Rightarrow> nat \<Rightarrow> u32 \<Rightarrow> u8 list" where
  "SCVAL buf pos val = buf[pos := ucast val]"

definition SVAL :: "u8 list \<Rightarrow> nat \<Rightarrow> u32" where
  "SVAL buf pos = CVAL buf pos OR push_bit 8 (CVAL buf (pos + 1))"

definition IVAL :: "u8 list \<Rightarrow> nat \<Rightarrow> u32" where
  "IVAL buf pos = SVAL buf pos OR push_bit 16 (SVAL buf (pos + 2))"

definition BVAL :: "u8 list \<Rightarrow> nat \<Rightarrow> u64" where
  "BVAL p ofs = ucast (IVAL p ofs) OR push_bit 32 (ucast (IVAL p (ofs + 4)))"

definition SSVAL :: "u8 list \<Rightarrow> nat \<Rightarrow> u32 \<Rightarrow> u8 list" where
  "SSVAL buf pos val =
     (let v = val AND 0xFFFF
      in SCVAL (SCVAL buf pos (v AND 0xFF)) (pos + 1) (drop_bit 8 v))"

definition SIVAL :: "u8 list \<Rightarrow> nat \<Rightarrow> u32 \<Rightarrow> u8 list" where
  "SIVAL buf pos val = SSVAL (SSVAL buf pos (val AND 0xFFFF)) (pos + 2) (drop_bit 16 val)"

definition SBVAL :: "u8 list \<Rightarrow> nat \<Rightarrow> u64 \<Rightarrow> u8 list" where
  "SBVAL p ofs v = SIVAL (SIVAL p ofs (ucast (v AND 0xFFFFFFFF))) (ofs + 4) (ucast (drop_bit 32 v))"

section \<open>Reading back what was stored\<close>

named_theorems byteorder_simps \<open>rules for reading a buffer after stores\<close>

lemma length_stores [simp]:
  "length (SCVAL buf pos c) = length buf" "length (SSVAL buf pos v) = length buf"
  "length (SIVAL buf pos v) = length buf" "length (SBVAL buf pos w) = length buf"
  by (simp_all add: SCVAL_def SSVAL_def SIVAL_def SBVAL_def Let_def)

lemma low_byte: "(0xFF :: u32) = mask 8" "(0xFFFF :: u32) = mask 16" "(0xFFFFFFFF :: u64) = mask 32"
  by (simp_all add: mask_eq_exp_minus_1)

lemma CVAL_SSVAL: "pos + 2 \<le> length buf \<Longrightarrow>
    CVAL (SSVAL buf pos v) i =
      (if i = pos then v AND 0xFF else if i = pos + 1 then drop_bit 8 v AND 0xFF else CVAL buf i)"
  unfolding CVAL_def SSVAL_def SCVAL_def Let_def low_byte
  by (auto simp: nth_list_update intro!: bit_word_eqI simp: bit_simps)

lemma SVAL_SSVAL [byteorder_simps]:
  "pos + 2 \<le> length buf \<Longrightarrow> SVAL (SSVAL buf pos v) pos = v AND 0xFFFF"
  unfolding SVAL_def low_byte
  by (rule bit_word_eqI) (auto simp: CVAL_SSVAL low_byte bit_simps)

lemma SVAL_SSVAL_other [byteorder_simps]:
  "pos + 2 \<le> length buf \<Longrightarrow> i + 2 \<le> pos \<or> pos + 2 \<le> i \<Longrightarrow> SVAL (SSVAL buf pos v) i = SVAL buf i"
  unfolding SVAL_def by (auto simp: CVAL_SSVAL)

lemma IVAL_SIVAL [byteorder_simps]:
  "pos + 4 \<le> length buf \<Longrightarrow> IVAL (SIVAL buf pos v) pos = v"
  unfolding IVAL_def SIVAL_def
  by (rule bit_word_eqI) (auto simp: byteorder_simps low_byte bit_simps)

lemma IVAL_SIVAL_other [byteorder_simps]:
  "pos + 4 \<le> length buf \<Longrightarrow> i + 4 \<le> pos \<or> pos + 4 \<le> i \<Longrightarrow> IVAL (SIVAL buf pos v) i = IVAL buf i"
  unfolding IVAL_def SIVAL_def by (auto simp: byteorder_simps)

lemma BVAL_SBVAL [byteorder_simps]:
  "ofs + 8 \<le> length p \<Longrightarrow> BVAL (SBVAL p ofs v) ofs = v"
  unfolding BVAL_def SBVAL_def
  by (rule bit_word_eqI) (auto simp: byteorder_simps low_byte bit_simps)

lemma BVAL_SBVAL_other [byteorder_simps]:
  "ofs + 8 \<le> length p \<Longrightarrow> i + 8 \<le> ofs \<or> ofs + 8 \<le> i \<Longrightarrow> BVAL (SBVAL p ofs v) i = BVAL p i"
  unfolding BVAL_def SBVAL_def by (auto simp: byteorder_simps)

lemma BVAL_SIVAL_other [byteorder_simps]:
  "ofs + 4 \<le> length p \<Longrightarrow> i + 8 \<le> ofs \<or> ofs + 4 \<le> i \<Longrightarrow> BVAL (SIVAL p ofs v) i = BVAL p i"
  unfolding BVAL_def by (auto simp: byteorder_simps)

lemma IVAL_SBVAL_other [byteorder_simps]:
  "ofs + 8 \<le> length p \<Longrightarrow> i + 4 \<le> ofs \<or> ofs + 8 \<le> i \<Longrightarrow> IVAL (SBVAL p ofs v) i = IVAL p i"
  unfolding SBVAL_def by (auto simp: byteorder_simps)

end
