(* ===== verification/Server_Id.thy ===== *)
theory Server_Id
  imports Byteorder C_Library
begin

text \<open>
  Server identifiers (\<open>lib/util/server_id.c\<close>): the name of an smbd process in a cluster, its
  printed and marshalled forms, and the placeholder for a disconnected client. The lemmas show
  that \<open>server_id_equal\<close> is equality, that the marshalled form is read back, and that the
  printed form with the unique id parses to the same identifier.
\<close>

section \<open>Data and comparison\<close>

record server_id =
  pid :: u64
  task_id :: u32
  vnn :: u32
  unique_id :: u64

definition NONCLUSTER_VNN :: u32 where
  "NONCLUSTER_VNN = 0xFFFFFFFF"

definition SERVERID_UNIQUE_ID_NOT_TO_VERIFY :: u64 where
  "SERVERID_UNIQUE_ID_NOT_TO_VERIFY = 0xFFFFFFFFFFFFFFFF"

definition UINT64_MAX :: u64 where
  "UINT64_MAX = 0xFFFFFFFFFFFFFFFF"

definition UINT32_MAX :: u32 where
  "UINT32_MAX = 0xFFFFFFFF"

definition server_id_same_process :: "server_id \<Rightarrow> server_id \<Rightarrow> bool" where
  "server_id_same_process p1 p2 = (pid p1 = pid p2 \<and> vnn p1 = vnn p2)"

definition server_id_equal :: "server_id \<Rightarrow> server_id \<Rightarrow> bool" where
  "server_id_equal p1 p2 =
     (if \<not> server_id_same_process p1 p2 then False
      else if task_id p1 \<noteq> task_id p2 then False
      else if unique_id p1 \<noteq> unique_id p2 then False
      else True)"

definition server_id_set_disconnected :: "server_id \<Rightarrow> server_id" where
  "server_id_set_disconnected i =
     i\<lparr>pid := UINT64_MAX, task_id := UINT32_MAX, vnn := NONCLUSTER_VNN,
       unique_id := SERVERID_UNIQUE_ID_NOT_TO_VERIFY\<rparr>"

text \<open>The local variable \<open>dis\<close> starts uninitialised; every field of it is assigned.\<close>

definition server_id_is_disconnected :: "server_id \<Rightarrow> bool" where
  "server_id_is_disconnected i = server_id_equal i (server_id_set_disconnected i)"

section \<open>Marshalling\<close>

definition SERVER_ID_BUF_LENGTH :: nat where
  "SERVER_ID_BUF_LENGTH = 24"

definition server_id_put :: "u8 list \<Rightarrow> server_id \<Rightarrow> u8 list" where
  "server_id_put buf i =
     SBVAL (SIVAL (SIVAL (SBVAL buf 0 (pid i)) 8 (task_id i)) 12 (vnn i)) 16 (unique_id i)"

definition server_id_get :: "u8 list \<Rightarrow> server_id" where
  "server_id_get buf =
     \<lparr>pid = BVAL buf 0, task_id = IVAL buf 8, vnn = IVAL buf 12, unique_id = BVAL buf 16\<rparr>"

section \<open>Printing and parsing\<close>

text \<open>\<open>snprintf\<close> and \<open>strlcpy\<close> into \<open>struct server_id_buf\<close>, 48 bytes with the final NUL.\<close>

definition server_id_buf :: "string \<Rightarrow> string" where
  "server_id_buf s = take 47 s"

definition server_id_str_buf :: "server_id \<Rightarrow> string" where
  "server_id_str_buf i =
     (if server_id_is_disconnected i then server_id_buf ''disconnected''
      else if vnn i = NONCLUSTER_VNN \<and> task_id i = 0 then
        server_id_buf (print_dec (unat (pid i)))
      else if vnn i = NONCLUSTER_VNN then
        server_id_buf (print_dec (unat (pid i)) @ ''.'' @ print_dec (unat (task_id i)))
      else if task_id i = 0 then
        server_id_buf (print_dec (unat (vnn i)) @ '':'' @ print_dec (unat (pid i)))
      else
        server_id_buf (print_dec (unat (vnn i)) @ '':'' @ print_dec (unat (pid i)) @ ''.'' @
          print_dec (unat (task_id i))))"

text \<open>The size the caller's buffer needs, and what is stored in it: nothing when it is too
  small.\<close>

definition server_id_str_buf_unique :: "server_id \<Rightarrow> nat \<Rightarrow> nat \<times> string option" where
  "server_id_str_buf_unique i buflen =
     (let idbuf = server_id_str_buf i;
          unique_buf = take 20 (print_dec (unat (unique_id i)));
          needed = length idbuf + length (print_dec (unat (unique_id i))) + 2
      in (needed, if buflen \<ge> needed then Some (idbuf @ ''/'' @ unique_buf) else None))"

definition templ :: server_id where
  "templ = \<lparr>pid = UINT64_MAX, task_id = 0, vnn = NONCLUSTER_VNN, unique_id = 0\<rparr>"

text \<open>The eight formats are tried in turn; \<open>None\<close> stands for the fall through to the
  comparison with \<open>disconnected\<close>.\<close>

definition scan_cluster_id :: "string \<Rightarrow> server_id option" where
  "scan_cluster_id s =
     (case sscanf [Scan_U 32, Scan_Lit CHR '':'', Scan_U 64, Scan_Lit CHR ''.'', Scan_U 32,
                   Scan_Lit CHR ''/'', Scan_U 64] s of
        [v, p, t, u] \<Rightarrow> Some (templ\<lparr>vnn := of_nat v, pid := of_nat p, task_id := of_nat t, unique_id := of_nat u\<rparr>)
      | _ \<Rightarrow>
     (case sscanf [Scan_U 32, Scan_Lit CHR '':'', Scan_U 64, Scan_Lit CHR ''.'', Scan_U 32] s of
        [v, p, t] \<Rightarrow> Some (templ\<lparr>vnn := of_nat v, pid := of_nat p, task_id := of_nat t\<rparr>)
      | _ \<Rightarrow>
     (case sscanf [Scan_U 32, Scan_Lit CHR '':'', Scan_U 64, Scan_Lit CHR ''/'', Scan_U 64] s of
        [v, p, u] \<Rightarrow> Some (templ\<lparr>vnn := of_nat v, pid := of_nat p, unique_id := of_nat u\<rparr>)
      | _ \<Rightarrow>
     (case sscanf [Scan_U 32, Scan_Lit CHR '':'', Scan_U 64] s of
        [v, p] \<Rightarrow> Some (templ\<lparr>vnn := of_nat v, pid := of_nat p\<rparr>)
      | _ \<Rightarrow> None))))"

definition scan_local_id :: "u32 \<Rightarrow> string \<Rightarrow> server_id option" where
  "scan_local_id local_vnn s =
     (case sscanf [Scan_U 64, Scan_Lit CHR ''.'', Scan_U 32, Scan_Lit CHR ''/'', Scan_U 64] s of
        [p, t, u] \<Rightarrow> Some (templ\<lparr>pid := of_nat p, task_id := of_nat t, unique_id := of_nat u, vnn := local_vnn\<rparr>)
      | _ \<Rightarrow>
     (case sscanf [Scan_U 64, Scan_Lit CHR ''.'', Scan_U 32] s of
        [p, t] \<Rightarrow> Some (templ\<lparr>pid := of_nat p, task_id := of_nat t, vnn := local_vnn\<rparr>)
      | _ \<Rightarrow>
     (case sscanf [Scan_U 64, Scan_Lit CHR ''/'', Scan_U 64] s of
        [p, u] \<Rightarrow> Some (templ\<lparr>pid := of_nat p, unique_id := of_nat u, vnn := local_vnn\<rparr>)
      | _ \<Rightarrow>
     (case sscanf [Scan_U 64] s of
        [p] \<Rightarrow> Some (templ\<lparr>pid := of_nat p, vnn := local_vnn\<rparr>)
      | _ \<Rightarrow> None))))"

definition server_id_from_string :: "u32 \<Rightarrow> string \<Rightarrow> server_id" where
  "server_id_from_string local_vnn pid_string =
     (case scan_cluster_id pid_string of
        Some result \<Rightarrow> result
      | None \<Rightarrow>
        (case scan_local_id local_vnn pid_string of
           Some result \<Rightarrow> result
         | None \<Rightarrow>
           if pid_string = ''disconnected'' then server_id_set_disconnected templ else templ))"

section \<open>Lemmas\<close>

lemma server_id_equal_iff [simp]: "server_id_equal p q \<longleftrightarrow> p = q"
  by (cases p; cases q) (auto simp: server_id_equal_def server_id_same_process_def)

definition disconnected_id :: server_id where
  "disconnected_id =
     \<lparr>pid = UINT64_MAX, task_id = UINT32_MAX, vnn = NONCLUSTER_VNN,
      unique_id = SERVERID_UNIQUE_ID_NOT_TO_VERIFY\<rparr>"

lemma server_id_set_disconnected_eq [simp]: "server_id_set_disconnected i = disconnected_id"
  by (cases i) (simp add: disconnected_id_def server_id_set_disconnected_def templ_def)

lemma server_id_is_disconnected_iff [simp]: "server_id_is_disconnected i \<longleftrightarrow> i = disconnected_id"
  by (simp add: server_id_is_disconnected_def)

lemma server_id_get_put:
  "length buf = SERVER_ID_BUF_LENGTH \<Longrightarrow> server_id_get (server_id_put buf i) = i"
  by (simp add: server_id_get_def server_id_put_def SERVER_ID_BUF_LENGTH_def byteorder_simps)

interpretation server_id_codec: codec "server_id_put (replicate 24 0)" "Some \<circ> server_id_get" "\<lambda>_. True"
  by unfold_locales (simp add: server_id_get_put SERVER_ID_BUF_LENGTH_def)

section \<open>The printed form\<close>

lemma unat_bounds: "unat (w :: u64) < 18446744073709551616" "unat (v :: u32) < 4294967296"
  using unsigned_less [where 'a = nat, of w] unsigned_less [where 'a = nat, of v] by simp_all

lemma print_dec_width:
  "length (print_dec (unat (w :: u64))) \<le> 20" "length (print_dec (unat (v :: u32))) \<le> 10"
proof -
  have "unat w < 10 ^ 20" using unat_bounds(1) [of w] by simp
  then show "length (print_dec (unat w)) \<le> 20"
    unfolding print_dec_def by (intro print_base_length_le) simp_all
  have "unat v < 10 ^ 10" using unat_bounds(2) [of v] by simp
  then show "length (print_dec (unat v)) \<le> 10"
    unfolding print_dec_def by (intro print_base_length_le) simp_all
qed

lemma unat_le_ULLONG_MAX: "unat (w :: u64) \<le> ULLONG_MAX" "unat (v :: u32) \<le> ULLONG_MAX"
  using unat_bounds(1) [of w] unat_bounds(2) [of v] by (simp_all add: ULLONG_MAX_def)

lemma unat_mod_width: "unat (w :: u64) mod 18446744073709551616 = unat w"
  "unat (v :: u32) mod 4294967296 = unat v"
  using unat_bounds(1) [of w] unat_bounds(2) [of v] by simp_all

lemma no_digit_ahead_simps [simp]:
  "no_digit_ahead 10 []" "no_digit_ahead 10 (CHR ''.'' # s)" "no_digit_ahead 10 (CHR '':'' # s)"
  "no_digit_ahead 10 (CHR ''/'' # s)"
  by (simp_all add: no_digit_ahead_def is_base_digit_def digit_val_def)

text \<open>The four printed forms; no buffer truncates any of them.\<close>

definition printed_id :: "server_id \<Rightarrow> string" where
  "printed_id i =
     (if vnn i = NONCLUSTER_VNN then [] else print_dec (unat (vnn i)) @ '':'') @
     print_dec (unat (pid i)) @
     (if task_id i = 0 then [] else ''.'' @ print_dec (unat (task_id i)))"

lemma printed_id_length: "length (printed_id i) \<le> 42"
  using print_dec_width(1) [of "pid i"] print_dec_width(2) [of "vnn i"] print_dec_width(2) [of "task_id i"]
  by (simp add: printed_id_def)

lemma server_id_str_buf_eq:
  "server_id_str_buf i = (if i = disconnected_id then ''disconnected'' else printed_id i)"
proof -
  have t: "length s \<le> 42 \<Longrightarrow> server_id_buf s = s" for s by (simp add: server_id_buf_def)
  have "i \<noteq> disconnected_id \<Longrightarrow> server_id_str_buf i = server_id_buf (printed_id i)"
    unfolding server_id_str_buf_def printed_id_def by simp
  then show ?thesis
    by (simp add: t [OF printed_id_length]) (simp add: server_id_str_buf_def t)
qed

lemma sscanf_print:
  "n \<le> ULLONG_MAX \<Longrightarrow> no_digit_ahead 10 s \<Longrightarrow>
     sscanf (Scan_U k # fs) (print_dec n @ s) = n mod 2 ^ k # sscanf fs s"
  "n \<le> ULLONG_MAX \<Longrightarrow> sscanf (Scan_U k # fs) (print_dec n) = n mod 2 ^ k # sscanf fs []"
  using scan_number_print_dec [of n s] scan_number_print_dec [of n "[]"] by simp_all

lemmas sscanf_steps = sscanf_print unat_le_ULLONG_MAX unat_mod_width

lemma from_string_printed:
  assumes "vnn i \<noteq> NONCLUSTER_VNN \<or> local_vnn = NONCLUSTER_VNN"
  shows "server_id_from_string local_vnn (printed_id i @ ''/'' @ print_dec (unat (unique_id i))) = i"
proof -
  consider "vnn i = NONCLUSTER_VNN" "task_id i = 0" | "vnn i = NONCLUSTER_VNN" "task_id i \<noteq> 0"
    | "vnn i \<noteq> NONCLUSTER_VNN" "task_id i = 0" | "vnn i \<noteq> NONCLUSTER_VNN" "task_id i \<noteq> 0"
    by blast
  then show ?thesis
    using assms
    by cases (cases i, simp_all add: printed_id_def server_id_from_string_def scan_cluster_id_def scan_local_id_def
        templ_def sscanf_steps del: sscanf.simps(3))+
qed

section \<open>Properties\<close>

text \<open>C28: a server id printed with its unique id fits the buffer of every caller that gives 64
  bytes, and parses to the same id: always for a cluster node, and for a process outside a cluster
  on a host outside a cluster. The placeholder of a disconnected client is excluded.\<close>

theorem server_id_unique_string_roundtrip:
  assumes "\<not> server_id_is_disconnected i" and "64 \<le> buflen"
    and "vnn i \<noteq> NONCLUSTER_VNN \<or> local_vnn = NONCLUSTER_VNN"
  shows "\<exists>s. server_id_str_buf_unique i buflen = (length s + 1, Some s) \<and>
    server_id_from_string local_vnn s = i"
proof -
  let ?u = "print_dec (unat (unique_id i))"
  have "length (printed_id i) + length ?u + 2 \<le> buflen" and "take 20 ?u = ?u"
    using printed_id_length [of i] print_dec_width(1) [of "unique_id i"] assms(2) by simp_all
  then have "server_id_str_buf_unique i buflen =
      (length (printed_id i @ ''/'' @ ?u) + 1, Some (printed_id i @ ''/'' @ ?u))"
    using assms(1) by (simp add: server_id_str_buf_unique_def server_id_str_buf_eq Let_def)
  then show ?thesis using from_string_printed [OF assms(3)] by blast
qed

theorem server_id_unique_string_roundtrip_witness:
  "\<exists>s. server_id_str_buf_unique \<lparr>pid = 4711, task_id = 3, vnn = 1, unique_id = 99\<rparr> 64
      = (length s + 1, Some s) \<and>
    server_id_from_string 0 s = \<lparr>pid = 4711, task_id = 3, vnn = 1, unique_id = 99\<rparr>"
  by (rule server_id_unique_string_roundtrip) (simp_all add: NONCLUSTER_VNN_def disconnected_id_def UINT64_MAX_def)

end
