(* ===== verification/Brl_Types.thy ===== *)
theory Brl_Types
  imports Server_Id
begin

text \<open>
  Byte range locks: the lock structure (\<open>source3/include/locking.h\<close>) and the predicates of
  \<open>source3/locking/brlock.c\<close> that compare two locks (same context, overlap, the three kinds of
  conflict, overlap with a pending lock), and the routine that splits and merges POSIX ranges.
  The lemmas give each of them its meaning on sets of bytes; the split and merge routine is shown
  equal to a four line reference definition on intervals.
\<close>

section \<open>Data\<close>

datatype brl_type = READ_LOCK | WRITE_LOCK | PENDING_READ_LOCK | PENDING_WRITE_LOCK | UNLOCK_LOCK

datatype brl_flavour = WINDOWS_LOCK | POSIX_LOCK

record lock_context =
  smblctx :: u64
  tid :: u32
  lock_pid :: server_id

record lock_struct =
  lock_ctx :: lock_context
  start :: u64
  lock_size :: u64
  fnum :: u64
  lock_type :: brl_type
  lock_flav :: brl_flavour

definition IS_PENDING_LOCK :: "brl_type \<Rightarrow> bool" where
  "IS_PENDING_LOCK t = (t = PENDING_READ_LOCK \<or> t = PENDING_WRITE_LOCK)"

section \<open>Comparing two locks\<close>

definition brl_same_context :: "lock_context \<Rightarrow> lock_context \<Rightarrow> bool" where
  "brl_same_context ctx1 ctx2 =
     (server_id_equal (lock_pid ctx1) (lock_pid ctx2) \<and> smblctx ctx1 = smblctx ctx2 \<and> tid ctx1 = tid ctx2)"

definition brl_overlap :: "lock_struct \<Rightarrow> lock_struct \<Rightarrow> bool" where
  "brl_overlap lck1 lck2 =
     (if lock_size lck1 \<noteq> 0 \<and> start lck1 = start lck2 \<and> lock_size lck1 = lock_size lck2 then True
      else if start lck1 \<ge> start lck2 + lock_size lck2 \<or> start lck2 \<ge> start lck1 + lock_size lck1
      then False
      else True)"

definition brl_conflict :: "lock_struct \<Rightarrow> lock_struct \<Rightarrow> bool" where
  "brl_conflict lck1 lck2 =
     (if IS_PENDING_LOCK (lock_type lck1) \<or> IS_PENDING_LOCK (lock_type lck2) then False
      else if lock_type lck1 = READ_LOCK \<and> lock_type lck2 = READ_LOCK then False
      else if lock_type lck1 = WRITE_LOCK \<and> lock_type lck2 = READ_LOCK \<and>
              brl_same_context (lock_ctx lck1) (lock_ctx lck2) \<and> fnum lck1 = fnum lck2
      then False
      else brl_overlap lck1 lck2)"

definition brl_conflict_posix :: "lock_struct \<Rightarrow> lock_struct \<Rightarrow> bool" where
  "brl_conflict_posix lck1 lck2 =
     (if IS_PENDING_LOCK (lock_type lck1) \<or> IS_PENDING_LOCK (lock_type lck2) then False
      else if lock_type lck1 = READ_LOCK \<and> lock_type lck2 = READ_LOCK then False
      else if brl_same_context (lock_ctx lck1) (lock_ctx lck2) then False
      else brl_overlap lck1 lck2)"

definition brl_conflict_other :: "lock_struct \<Rightarrow> lock_struct \<Rightarrow> bool" where
  "brl_conflict_other lock rw_probe =
     (if IS_PENDING_LOCK (lock_type lock) \<or> IS_PENDING_LOCK (lock_type rw_probe) then False
      else if lock_type lock = READ_LOCK \<and> lock_type rw_probe = READ_LOCK then False
      else if lock_flav lock = POSIX_LOCK \<and> lock_flav rw_probe = POSIX_LOCK then False
      else if \<not> brl_overlap lock rw_probe then False
      else if \<not> brl_same_context (lock_ctx lock) (lock_ctx rw_probe) then True
      else if fnum lock \<noteq> fnum rw_probe then True
      else if lock_type lock = READ_LOCK \<and> lock_type rw_probe = WRITE_LOCK then True
      else False)"

definition brl_pending_overlap :: "lock_struct \<Rightarrow> lock_struct \<Rightarrow> bool" where
  "brl_pending_overlap lock pend_lock =
     (if start lock \<le> start pend_lock \<and> start lock + lock_size lock > start pend_lock then True
      else if start lock \<ge> start pend_lock \<and> start lock < start pend_lock + lock_size pend_lock then True
      else False)"

section \<open>Splitting and merging POSIX ranges\<close>

text \<open>The result is the list of the entries written to \<open>lck_arr\<close>, in order, and the proposed lock
  as it is afterwards; \<open>None\<close> stands for \<open>smb_panic\<close>. The cases of the source follow each
  other; the last three (overlap after, overlap before, complete overlap) are in
  \<open>split_merge_overlap\<close>.\<close>

definition split_merge_overlap :: "lock_struct \<Rightarrow> lock_struct \<Rightarrow> (lock_struct list \<times> lock_struct) option" where
  "split_merge_overlap ex plock =
     (let lock_types_differ = (lock_type ex \<noteq> lock_type plock);
          ex_end = start ex + lock_size ex;
          plock_end = start plock + lock_size plock
      in if start ex \<ge> start plock \<and> start ex \<le> plock_end \<and> ex_end > plock_end then
           if lock_types_differ
           then Some ([ex\<lparr>start := plock_end, lock_size := ex_end - plock_end\<rparr>], plock)
           else Some ([], plock\<lparr>lock_size := lock_size plock + (ex_end - plock_end)\<rparr>)
         else if start ex < start plock \<and> ex_end \<ge> start plock \<and> ex_end \<le> plock_end then
           if lock_types_differ
           then Some ([ex\<lparr>lock_size := start plock - start ex\<rparr>], plock)
           else Some ([], plock\<lparr>lock_size := lock_size plock + (start plock - start ex), start := start ex\<rparr>)
         else if start ex < start plock \<and> ex_end > plock_end then
           if lock_types_differ
           then Some ([ex\<lparr>lock_size := start plock - start ex\<rparr>,
                       ex\<lparr>start := plock_end, lock_size := ex_end - plock_end\<rparr>], plock)
           else Some ([], plock\<lparr>start := start ex, lock_size := lock_size ex\<rparr>)
         else None)"

definition brlock_posix_split_merge ::
    "lock_struct \<Rightarrow> lock_struct \<Rightarrow> (lock_struct list \<times> lock_struct) option" where
  "brlock_posix_split_merge ex plock =
     (let lock_types_differ = (lock_type ex \<noteq> lock_type plock);
          ex_end = start ex + lock_size ex;
          plock_end = start plock + lock_size plock
      in if \<not> brl_same_context (lock_ctx ex) (lock_ctx plock) then Some ([ex], plock)
         else if start ex > plock_end \<or> start plock > ex_end then Some ([ex], plock)
         else if start ex \<ge> start plock \<and> ex_end \<le> plock_end then Some ([], plock)
         else if plock_end = start ex then
           if lock_types_differ then Some ([ex], plock)
           else Some ([], plock\<lparr>lock_size := lock_size plock + lock_size ex\<rparr>)
         else if ex_end = start plock then
           if lock_types_differ then Some ([ex], plock)
           else Some ([], plock\<lparr>start := start ex, lock_size := lock_size plock + lock_size ex\<rparr>)
         else split_merge_overlap ex plock)"

section \<open>The bytes of a lock\<close>

text \<open>The half open interval a lock stands for, on natural numbers. A range \<open>fits\<close> when it
  is not empty and ends below the end of the 64 bit offsets.\<close>

definition st :: "lock_struct \<Rightarrow> nat" where
  "st l = unat (start l)"

definition en :: "lock_struct \<Rightarrow> nat" where
  "en l = unat (start l) + unat (lock_size l)"

definition bytes :: "lock_struct \<Rightarrow> nat set" where
  "bytes l = {st l ..< en l}"

definition fits :: "lock_struct \<Rightarrow> bool" where
  "fits l \<longleftrightarrow> lock_size l \<noteq> 0 \<and> unat (start l) + unat (lock_size l) < 2 ^ 64"

lemma brl_same_context_iff [simp]: "brl_same_context c d \<longleftrightarrow> c = d"
  by (cases c; cases d) (auto simp: brl_same_context_def)

lemma fits_end: "fits l \<Longrightarrow> unat (start l + lock_size l) = en l"
  by (simp add: fits_def en_def unat_word_ariths)

lemma fits_st_en: "fits l \<Longrightarrow> st l < en l"
  by (simp add: fits_def st_def en_def unat_gt_0)

lemma fits_en: "fits l \<Longrightarrow> en l < 2 ^ 64"
  by (simp add: fits_def en_def)

lemmas fits_nat = fits_end st_def [symmetric] word_less_nat_alt word_le_nat_alt

lemma brl_overlap_bytes:
  assumes "fits a" "fits b"
  shows "brl_overlap a b \<longleftrightarrow> bytes a \<inter> bytes b \<noteq> {}"
proof -
  have "brl_overlap a b \<longleftrightarrow> st a < en b \<and> st b < en a"
    using assms fits_st_en [OF assms(1)] fits_st_en [OF assms(2)]
    by (auto simp: brl_overlap_def fits_end word_le_nat_alt st_def en_def not_le)
  then show ?thesis
    using fits_st_en [OF assms(1)] fits_st_en [OF assms(2)] by (auto simp: bytes_def)
qed

lemma brl_pending_overlap_bytes:
  assumes "fits a" "fits b"
  shows "brl_pending_overlap a b \<longleftrightarrow> bytes a \<inter> bytes b \<noteq> {}"
  using assms fits_st_en [OF assms(1)] fits_st_en [OF assms(2)]
  by (auto simp: brl_pending_overlap_def fits_nat bytes_def)

text \<open>Two ranges meet: on ranges that are not empty this is a common byte, and an empty range
  meets a range that it lies strictly inside of.\<close>

definition ranges_meet :: "lock_struct \<Rightarrow> lock_struct \<Rightarrow> bool" where
  "ranges_meet a b \<longleftrightarrow> st a < en b \<and> st b < en a"

lemma brl_overlap_meet:
  assumes "en a < 2 ^ 64" "en b < 2 ^ 64"
  shows "brl_overlap a b \<longleftrightarrow> ranges_meet a b"
proof -
  have e: "unat (start a + lock_size a) = en a" "unat (start b + lock_size b) = en b"
    using assms by (simp_all add: en_def unat_word_ariths)
  have "lock_size a \<noteq> 0 \<Longrightarrow> start a = start b \<Longrightarrow> lock_size a = lock_size b \<Longrightarrow> ranges_meet a b"
    by (simp add: ranges_meet_def st_def en_def unat_gt_0)
  then show ?thesis
    by (auto simp: brl_overlap_def word_le_nat_alt e st_def [symmetric] ranges_meet_def not_le)
qed

lemma ranges_meet_bytes: "lock_size a \<noteq> 0 \<Longrightarrow> lock_size b \<noteq> 0 \<Longrightarrow> ranges_meet a b \<longleftrightarrow> bytes a \<inter> bytes b \<noteq> {}"
proof -
  assume "lock_size a \<noteq> 0" "lock_size b \<noteq> 0"
  then have "st a < en a" "st b < en b" by (simp_all add: st_def en_def unat_gt_0)
  then show ?thesis by (auto simp: ranges_meet_def bytes_def)
qed

lemma brl_overlap_sym: "brl_overlap a b \<longleftrightarrow> brl_overlap b a"
  by (auto simp: brl_overlap_def)

section \<open>The reference definition of split and merge\<close>

text \<open>\<open>range_of l s e\<close> is the lock \<open>l\<close> moved to the interval from \<open>s\<close> to \<open>e\<close>.\<close>

definition range_of :: "lock_struct \<Rightarrow> nat \<Rightarrow> nat \<Rightarrow> lock_struct" where
  "range_of l s e = l\<lparr>start := word_of_nat s, lock_size := word_of_nat (e - s)\<rparr>"

lemma range_of_fields [simp]:
  "lock_ctx (range_of l s e) = lock_ctx l" "fnum (range_of l s e) = fnum l"
  "lock_type (range_of l s e) = lock_type l" "lock_flav (range_of l s e) = lock_flav l"
  by (simp_all add: range_of_def)

lemma unat_word_of_nat64: "n < 2 ^ 64 \<Longrightarrow> unat (word_of_nat n :: u64) = n"
  by (simp add: unat_of_nat)

lemma range_of_st_en:
  assumes "s < e" "e < 2 ^ 64"
  shows "st (range_of l s e) = s" "en (range_of l s e) = e" "fits (range_of l s e)"
proof -
  have "unat (word_of_nat s :: u64) = s" "unat (word_of_nat (e - s) :: u64) = e - s"
    using assms by (simp_all add: unat_word_of_nat64 del: of_nat_diff)
  then show "st (range_of l s e) = s" "en (range_of l s e) = e" "fits (range_of l s e)"
    using assms by (auto simp: range_of_def st_def en_def fits_def)
qed

lemma range_of_eqI:
  assumes "fits m" "st m = s" "en m = e" "m = l\<lparr>start := start m, lock_size := lock_size m\<rparr>"
  shows "m = range_of l s e"
proof -
  have "start m = word_of_nat s" "lock_size m = word_of_nat (e - s)"
    using assms(2,3) by (auto simp: st_def en_def)
  then show ?thesis using assms(4) by (simp add: range_of_def)
qed

text \<open>The reference: locks of other contexts and locks apart from the proposed one stay as they
  are; of an existing lock of the same context that touches the proposed one, the parts outside of
  the proposed range remain when the types differ and are merged into it when they are the same.\<close>

definition split_merge_ref :: "lock_struct \<Rightarrow> lock_struct \<Rightarrow> lock_struct list \<times> lock_struct" where
  "split_merge_ref x p =
     (if lock_ctx x \<noteq> lock_ctx p \<or> en p < st x \<or> en x < st p then ([x], p)
      else if lock_type x = lock_type p then ([], range_of p (min (st p) (st x)) (max (en p) (en x)))
      else ((if st x < st p then [range_of x (st x) (st p)] else []) @
            (if en p < en x then [range_of x (en p) (en x)] else []), p))"

lemma range_of_self: "fits l \<Longrightarrow> range_of l (st l) (en l) = l"
  by (rule range_of_eqI [symmetric]) simp_all

lemma range_of_words:
  "s \<le> e \<Longrightarrow> range_of l s e = l\<lparr>start := word_of_nat s, lock_size := word_of_nat e - word_of_nat s\<rparr>"
  by (simp add: range_of_def)

lemma word_of_st_en: "word_of_nat (st l) = start l" "word_of_nat (en l) = start l + lock_size l"
  by (simp_all add: st_def en_def)

lemma brlock_posix_split_merge_ref:
  assumes "fits x" "fits p"
  shows "brlock_posix_split_merge x p = Some (split_merge_ref x p)"
proof -
  have o: "st x < en x" "st p < en p" by (simp_all add: assms fits_st_en)
  have eq: "start p + lock_size p = start x \<longleftrightarrow> en p = st x" "start x + lock_size x = start p \<longleftrightarrow> en x = st p"
    using fits_end [OF assms(1)] fits_end [OF assms(2)] by (auto simp: st_def word_unat_eq_iff)
  note c = fits_end [OF assms(1)] fits_end [OF assms(2)] st_def [symmetric] word_less_nat_alt
    word_le_nat_alt eq
  consider "lock_ctx x \<noteq> lock_ctx p \<or> en p < st x \<or> en x < st p"
    | "lock_ctx x = lock_ctx p" "st p \<le> st x" "en x \<le> en p"
    | "lock_ctx x = lock_ctx p" "en p = st x" "en p < en x"
    | "lock_ctx x = lock_ctx p" "en x = st p" "st x < st p"
    | "lock_ctx x = lock_ctx p" "st p \<le> st x" "st x < en p" "en p < en x"
    | "lock_ctx x = lock_ctx p" "st x < st p" "st p < en x" "en x \<le> en p"
    | "lock_ctx x = lock_ctx p" "st x < st p" "en p < en x"
    using o by linarith
  then show ?thesis
  proof cases
    case 1
    then show ?thesis by (auto simp: brlock_posix_split_merge_def split_merge_ref_def c Let_def)
  next
    case 2
    then show ?thesis
      using o range_of_self [OF assms(2)]
      by (auto simp: brlock_posix_split_merge_def split_merge_ref_def c min_def max_def Let_def)
  next
    case 3
    then have "start x = start p + lock_size p" using eq(1) by simp
    then have "start x + lock_size x - start p = lock_size p + lock_size x" by (simp only:) simp
    with 3 show ?thesis
      using o range_of_self [OF assms(1)]
      by (auto simp: brlock_posix_split_merge_def split_merge_overlap_def split_merge_ref_def c
          min_def max_def range_of_words word_of_st_en Let_def)
  next
    case 4
    then have "start p = start x + lock_size x" using eq(2) by simp
    then have "start p + lock_size p - start x = lock_size p + lock_size x" by (simp only:) simp
    with 4 show ?thesis
      using o range_of_self [OF assms(1)]
      by (auto simp: brlock_posix_split_merge_def split_merge_overlap_def split_merge_ref_def c
          min_def max_def range_of_words word_of_st_en Let_def)
  next
    case 5
    then show ?thesis
      using o range_of_self [OF assms(1)]
      by (auto simp: brlock_posix_split_merge_def split_merge_overlap_def split_merge_ref_def c
          min_def max_def range_of_words word_of_st_en Let_def)
  next
    case 6
    then show ?thesis
      using o range_of_self [OF assms(1)]
      by (auto simp: brlock_posix_split_merge_def split_merge_overlap_def split_merge_ref_def c
          min_def max_def range_of_words word_of_st_en Let_def)
  next
    case 7
    then show ?thesis
      using o range_of_self [OF assms(1)]
      by (auto simp: brlock_posix_split_merge_def split_merge_overlap_def split_merge_ref_def c
          min_def max_def range_of_words word_of_st_en Let_def)
  qed
qed

end
