(* ===== verification/Brlock.thy ===== *)
theory Brlock
  imports Brl_Types
begin

text \<open>
  The operations of \<open>source3/locking/brlock.c\<close> on the lock array of one file: taking and
  releasing Windows and POSIX locks, testing and querying, cancelling and closing. The array
  \<open>lock_data\<close> with its \<open>num_locks\<close> entries is a list. What the operations ask of the rest of
  the server is the record \<open>brl_env\<close>; what they tell it (oplock contention, system locks
  released, messages to waiting processes) is returned as a list of events. \<open>None\<close> stands for a
  failed \<open>SMB_ASSERT\<close> and for \<open>smb_panic\<close>.
\<close>

section \<open>State\<close>

text \<open>The part of \<open>files_struct\<close> (\<open>source3/include/vfs.h\<close>) that the locking code uses, with
  the connection's fields it reaches through it: \<open>cnum\<close> is \<open>conn->cnum\<close>, \<open>lp_locking\<close> and
  \<open>lp_posix_locking\<close> the share options, \<open>server_self\<close> the id of this process, \<open>op\<close> the
  persistent id and the durable flag of the open, \<open>brlock_rec\<close> and \<open>brlock_seqnum\<close> the cached
  locks (the array and the oplock count) with the sequence number of the database they come
  from.\<close>

record file_id =
  devid :: u64
  inode :: u64
  extid :: u64

record files_struct =
  fsp_fnum :: u64
  fsp_file_id :: file_id
  print_file :: bool
  can_lock :: bool
  is_directory :: bool
  cnum :: u32
  lp_locking :: bool
  lp_posix_locking :: bool
  server_self :: server_id
  last_lock_failure :: lock_struct
  op :: "(u64 \<times> bool) option"
  current_lock_count :: int
  brlock_rec :: "(lock_struct list \<times> u32) option"
  brlock_seqnum :: int

record byte_range_lock =
  brl_fsp :: files_struct
  modified :: bool
  num_read_oplocks :: u32
  lock_data :: "lock_struct list"
  has_record :: bool

text \<open>The environment: which processes are alive, and the lower level POSIX locks, where \<open>None\<close>
  is success and a failure carries the reported \<open>errno_ret\<close> and the \<open>errno\<close> at that time.
  \<open>is_posix_locked\<close> gives the conflicting range when there is one.\<close>

record brl_env =
  serverid_exists :: "server_id \<Rightarrow> bool"
  set_posix_lock_windows_flavour ::
    "u64 \<Rightarrow> u64 \<Rightarrow> brl_type \<Rightarrow> lock_context \<Rightarrow> lock_struct list \<Rightarrow> (nat \<times> nat) option"
  set_posix_lock_posix_flavour :: "u64 \<Rightarrow> u64 \<Rightarrow> brl_type \<Rightarrow> lock_context \<Rightarrow> (nat \<times> nat) option"
  is_posix_locked :: "u64 \<Rightarrow> u64 \<Rightarrow> brl_type \<Rightarrow> brl_flavour \<Rightarrow> (u64 \<times> u64 \<times> brl_type) option"

datatype contend = LEVEL2_CONTEND_WINDOWS_BRL | LEVEL2_CONTEND_POSIX_BRL

datatype brl_event =
    Contend_begin contend
  | Contend_end contend
  | Release_posix_lock_windows_flavour u64 u64 brl_type lock_context "lock_struct list"
  | Release_posix_lock_posix_flavour u64 u64 lock_context "lock_struct list"
  | MSG_SMB_UNLOCK server_id

definition EACCES :: nat where
  "EACCES = 13"

definition EAGAIN :: nat where
  "EAGAIN = 11"

text \<open>Changing one field of the context of a lock.\<close>

definition set_lock_smblctx :: "u64 \<Rightarrow> lock_struct \<Rightarrow> lock_struct" where
  "set_lock_smblctx s l = l\<lparr>lock_ctx := (lock_ctx l)\<lparr>smblctx := s\<rparr>\<rparr>"

definition mark_dead :: "lock_struct \<Rightarrow> lock_struct" where
  "mark_dead l = l\<lparr>lock_ctx := (lock_ctx l)\<lparr>lock_pid := (lock_pid (lock_ctx l))\<lparr>pid := 0\<rparr>\<rparr>\<rparr>"

definition brl_num_locks :: "byte_range_lock \<Rightarrow> nat" where
  "brl_num_locks brl = length (lock_data brl)"

definition brl_num_read_oplocks :: "byte_range_lock \<Rightarrow> u32" where
  "brl_num_read_oplocks brl = num_read_oplocks brl"

definition brl_set_num_read_oplocks :: "byte_range_lock \<Rightarrow> u32 \<Rightarrow> byte_range_lock option" where
  "brl_set_num_read_oplocks brl n =
     (if has_record brl then Some (brl\<lparr>num_read_oplocks := n, modified := True\<rparr>) else None)"

section \<open>Taking a Windows lock\<close>

definition brl_lock_failed :: "files_struct \<Rightarrow> lock_struct \<Rightarrow> bool \<Rightarrow> NTSTATUS \<times> files_struct" where
  "brl_lock_failed fsp lock blocking_lock =
     (let remember = (if \<not> blocking_lock then fsp\<lparr>last_lock_failure := lock\<rparr> else fsp) in
      if start lock \<ge> 0xEF000000 \<and> drop_bit 63 (start lock) = 0 then
        (NT_STATUS_FILE_LOCK_CONFLICT, remember)
      else if server_id_equal (lock_pid (lock_ctx lock)) (lock_pid (lock_ctx (last_lock_failure fsp))) \<and>
              tid (lock_ctx lock) = tid (lock_ctx (last_lock_failure fsp)) \<and>
              fnum lock = fnum (last_lock_failure fsp) \<and>
              start lock = start (last_lock_failure fsp) then
        (NT_STATUS_FILE_LOCK_CONFLICT, fsp)
      else (NT_STATUS_LOCK_NOT_GRANTED, remember))"

text \<open>The search for a conflict: the array afterwards, where locks of dead processes in the way
  are marked, whether one was marked, and the context that blocks.\<close>

fun windows_conflict_loop ::
    "(server_id \<Rightarrow> bool) \<Rightarrow> lock_struct \<Rightarrow> lock_struct list \<Rightarrow> lock_struct list \<times> bool \<times> u64 option" where
  "windows_conflict_loop alive plock [] = ([], False, None)"
| "windows_conflict_loop alive plock (l # ls) =
     (if brl_conflict l plock then
        if \<not> alive (lock_pid (lock_ctx l)) then
          (case windows_conflict_loop alive plock ls of (ls', _, b) \<Rightarrow> (mark_dead l # ls', True, b))
        else (l # ls, False, Some (smblctx (lock_ctx l)))
      else (case windows_conflict_loop alive plock ls of (ls', m, b) \<Rightarrow> (l # ls', m, b)))"

definition brl_lock_windows_default ::
    "brl_env \<Rightarrow> talloc \<Rightarrow> byte_range_lock \<Rightarrow> lock_struct \<Rightarrow> bool \<Rightarrow>
     (NTSTATUS \<times> byte_range_lock \<times> lock_struct \<times> brl_event list) option" where
  "brl_lock_windows_default env mem br_lck plock blocking_lock =
     (if lock_type plock = UNLOCK_LOCK then None
      else if start plock + lock_size plock - 1 < start plock \<and> lock_size plock \<noteq> 0 then
        Some (NT_STATUS_INVALID_LOCK_RANGE, br_lck, plock, [])
      else
        (case windows_conflict_loop (serverid_exists env) plock (lock_data br_lck) of
           (locks, marked, Some s) \<Rightarrow>
             let blocked = set_lock_smblctx s plock in
             (case brl_lock_failed (brl_fsp br_lck) blocked blocking_lock of
                (status, fsp) \<Rightarrow>
                  Some (status, br_lck\<lparr>brl_fsp := fsp, lock_data := locks, modified := modified br_lck \<or> marked\<rparr>,
                        blocked, []))
         | (locks, marked, None) \<Rightarrow>
             let br = br_lck\<lparr>lock_data := locks, modified := modified br_lck \<or> marked\<rparr>;
                 pending = IS_PENDING_LOCK (lock_type plock);
                 begins = (if pending then [] else [Contend_begin LEVEL2_CONTEND_WINDOWS_BRL]);
                 ends = (if pending then [] else [Contend_end LEVEL2_CONTEND_WINDOWS_BRL])
             in (case (if \<not> pending \<and> lp_posix_locking (brl_fsp br)
                       then set_posix_lock_windows_flavour env (start plock) (lock_size plock)
                              (lock_type plock) (lock_ctx plock) locks
                       else None) of
                   Some (errno_ret, errno) \<Rightarrow>
                     Some (if errno_ret = EACCES \<or> errno_ret = EAGAIN then NT_STATUS_FILE_LOCK_CONFLICT
                           else NT_STATUS_UNIX errno,
                           br, set_lock_smblctx 0xFFFFFFFFFFFFFFFF plock, begins @ ends)
                 | None \<Rightarrow>
                     if talloc_fails mem 0 then Some (NT_STATUS_NO_MEMORY, br, plock, begins @ ends)
                     else Some (NT_STATUS_OK, br\<lparr>lock_data := locks @ [plock], modified := True\<rparr>,
                                plock, begins))))"

section \<open>Taking a POSIX lock\<close>

text \<open>What the loop over the array has found: the array with the locks of dead processes marked,
  the new array, the proposed lock after merging, the number of POSIX entries copied, whether a
  lock was marked, whether a pending read lock overlaps, and the context that blocks.\<close>

record posix_scan =
  scan_old :: "lock_struct list"
  scan_tp :: "lock_struct list"
  scan_plock :: lock_struct
  posix_count :: nat
  marked :: bool
  signal_pending_read :: bool
  blocker :: "u64 option"

definition scan_dead :: "lock_struct \<Rightarrow> bool \<Rightarrow> posix_scan \<Rightarrow> posix_scan" where
  "scan_dead l sig s =
     s\<lparr>scan_old := mark_dead l # scan_old s, marked := True,
       signal_pending_read := sig \<or> signal_pending_read s\<rparr>"

definition scan_copy :: "lock_struct \<Rightarrow> lock_struct list \<Rightarrow> nat \<Rightarrow> bool \<Rightarrow> posix_scan \<Rightarrow> posix_scan" where
  "scan_copy l out n sig s =
     s\<lparr>scan_old := l # scan_old s, scan_tp := out @ scan_tp s, posix_count := n + posix_count s,
       signal_pending_read := sig \<or> signal_pending_read s\<rparr>"

definition scan_blocked :: "lock_struct \<Rightarrow> lock_struct list \<Rightarrow> lock_struct \<Rightarrow> bool \<Rightarrow> posix_scan" where
  "scan_blocked l ls plock sig =
     \<lparr>scan_old = l # ls, scan_tp = [], scan_plock = set_lock_smblctx (smblctx (lock_ctx l)) plock,
      posix_count = 0, marked = False, signal_pending_read = sig, blocker = Some (smblctx (lock_ctx l))\<rparr>"

fun posix_lock_loop ::
    "(server_id \<Rightarrow> bool) \<Rightarrow> lock_struct \<Rightarrow> lock_struct list \<Rightarrow> posix_scan option" where
  "posix_lock_loop alive plock [] =
     Some \<lparr>scan_old = [], scan_tp = [], scan_plock = plock, posix_count = 0, marked = False,
           signal_pending_read = False, blocker = None\<rparr>"
| "posix_lock_loop alive plock (curr_lock # ls) =
     (let sig = (lock_type curr_lock = PENDING_READ_LOCK \<and> brl_pending_overlap plock curr_lock) in
      if lock_flav curr_lock = WINDOWS_LOCK then
        if brl_conflict curr_lock plock then
          if \<not> alive (lock_pid (lock_ctx curr_lock)) then
            map_option (scan_dead curr_lock sig) (posix_lock_loop alive plock ls)
          else Some (scan_blocked curr_lock ls plock sig)
        else map_option (scan_copy curr_lock [curr_lock] 0 sig) (posix_lock_loop alive plock ls)
      else
        if brl_conflict_posix curr_lock plock then
          if \<not> alive (lock_pid (lock_ctx curr_lock)) then
            map_option (scan_dead curr_lock sig) (posix_lock_loop alive plock ls)
          else Some (scan_blocked curr_lock ls plock sig)
        else
          (case brlock_posix_split_merge curr_lock plock of
             None \<Rightarrow> None
           | Some (out, plock') \<Rightarrow>
               map_option (scan_copy curr_lock out (length out) sig) (posix_lock_loop alive plock' ls)))"

text \<open>The search for the place to insert: both branches of the loop body go on to the next
  entry.\<close>

fun posix_insert_index :: "lock_struct \<Rightarrow> lock_struct list \<Rightarrow> nat \<Rightarrow> nat" where
  "posix_insert_index plock [] i = i"
| "posix_insert_index plock (curr_lock # ls) i =
     (if start curr_lock \<le> start plock then posix_insert_index plock ls (i + 1)
      else posix_insert_index plock ls (i + 1))"

definition posix_insert :: "lock_struct \<Rightarrow> lock_struct list \<Rightarrow> lock_struct list" where
  "posix_insert plock tp =
     (let i = posix_insert_index plock tp 0 in
      if i < length tp then take i tp @ plock # drop i tp else take i tp @ [plock])"

definition pending_read_messages :: "lock_struct \<Rightarrow> lock_struct list \<Rightarrow> brl_event list" where
  "pending_read_messages plock locks =
     map (\<lambda>p. MSG_SMB_UNLOCK (lock_pid (lock_ctx p)))
       (filter (\<lambda>p. IS_PENDING_LOCK (lock_type p) \<and> lock_type p = PENDING_READ_LOCK \<and>
                    brl_pending_overlap plock p) locks)"

text \<open>The second half of \<open>brl_lock_posix\<close>, once nothing blocks the lock.\<close>

definition posix_lock_commit ::
    "brl_env \<Rightarrow> talloc \<Rightarrow> byte_range_lock \<Rightarrow> posix_scan \<Rightarrow>
     NTSTATUS \<times> byte_range_lock \<times> lock_struct \<times> brl_event list" where
  "posix_lock_commit env mem br s =
     (let plock = scan_plock s;
          pending = IS_PENDING_LOCK (lock_type plock);
          break_oplocks = (\<not> pending \<and> posix_count s = 0);
          begins = (if break_oplocks then [Contend_begin LEVEL2_CONTEND_POSIX_BRL] else []);
          ends = (if break_oplocks then [Contend_end LEVEL2_CONTEND_POSIX_BRL] else []);
          tp = posix_insert plock (scan_tp s)
      in (case (if \<not> pending \<and> lp_posix_locking (brl_fsp br)
                then set_posix_lock_posix_flavour env (start plock) (lock_size plock)
                       (lock_type plock) (lock_ctx plock)
                else None) of
            Some (errno_ret, errno) \<Rightarrow>
              (if errno_ret = EACCES \<or> errno_ret = EAGAIN then NT_STATUS_FILE_LOCK_CONFLICT
               else NT_STATUS_UNIX errno,
               br, set_lock_smblctx 0xFFFFFFFFFFFFFFFF plock, begins @ ends)
          | None \<Rightarrow>
              if length tp < length (lock_data br) + 2 \<and> talloc_fails mem 1 then
                (NT_STATUS_NO_MEMORY, br, plock, begins @ ends)
              else
                (NT_STATUS_OK, br\<lparr>lock_data := tp, modified := True\<rparr>, plock,
                 begins @ (if signal_pending_read s then pending_read_messages plock tp else []))))"

definition brl_lock_posix ::
    "brl_env \<Rightarrow> talloc \<Rightarrow> byte_range_lock \<Rightarrow> lock_struct \<Rightarrow>
     (NTSTATUS \<times> byte_range_lock \<times> lock_struct \<times> brl_event list) option" where
  "brl_lock_posix env mem br_lck plock =
     (if start plock = 0 \<and> lock_size plock = 0 then Some (NT_STATUS_INVALID_PARAMETER, br_lck, plock, [])
      else if start plock + lock_size plock - 1 < start plock then
        Some (NT_STATUS_INVALID_PARAMETER, br_lck, plock, [])
      else if talloc_fails mem 0 then Some (NT_STATUS_NO_MEMORY, br_lck, plock, [])
      else
        (case posix_lock_loop (serverid_exists env) plock (lock_data br_lck) of
           None \<Rightarrow> None
         | Some s \<Rightarrow>
             let br = br_lck\<lparr>lock_data := scan_old s, modified := modified br_lck \<or> marked s\<rparr> in
             (case blocker s of
                Some _ \<Rightarrow> Some (NT_STATUS_FILE_LOCK_CONFLICT, br, scan_plock s, [])
              | None \<Rightarrow> Some (posix_lock_commit env mem br s))))"

section \<open>Taking a lock\<close>

text \<open>The default VFS module hands Windows locks back to \<open>brl_lock_windows_default\<close>.\<close>

definition vfswrap_brl_lock_windows ::
    "brl_env \<Rightarrow> talloc \<Rightarrow> byte_range_lock \<Rightarrow> lock_struct \<Rightarrow> bool \<Rightarrow>
     (NTSTATUS \<times> byte_range_lock \<times> lock_struct \<times> brl_event list) option" where
  "vfswrap_brl_lock_windows env mem br_lck plock blocking_lock =
     (if lock_flav plock = WINDOWS_LOCK then brl_lock_windows_default env mem br_lck plock blocking_lock
      else None)"

definition brl_request ::
    "files_struct \<Rightarrow> u64 \<Rightarrow> server_id \<Rightarrow> u64 \<Rightarrow> u64 \<Rightarrow> brl_type \<Rightarrow> brl_flavour \<Rightarrow> lock_struct" where
  "brl_request fsp smblctx0 pid0 start0 size0 ltype flav =
     \<lparr>lock_ctx = \<lparr>smblctx = smblctx0, tid = cnum fsp, lock_pid = pid0\<rparr>, start = start0, lock_size = size0,
      fnum = fsp_fnum fsp, lock_type = ltype, lock_flav = flav\<rparr>"

text \<open>The status, the lock array, the blocking context that is stored to \<open>psmblctx\<close> on an error,
  and the events.\<close>

definition brl_lock ::
    "brl_env \<Rightarrow> talloc \<Rightarrow> byte_range_lock \<Rightarrow> u64 \<Rightarrow> server_id \<Rightarrow> u64 \<Rightarrow> u64 \<Rightarrow> brl_type \<Rightarrow> brl_flavour \<Rightarrow> bool \<Rightarrow>
     (NTSTATUS \<times> byte_range_lock \<times> u64 option \<times> brl_event list) option" where
  "brl_lock env mem br_lck smblctx0 pid0 start0 size0 ltype flav blocking_lock =
     (let lock = brl_request (brl_fsp br_lck) smblctx0 pid0 start0 size0 ltype flav in
      map_option (\<lambda>(ret, br, lock', ev).
          (ret, br, if ret \<noteq> NT_STATUS_OK then Some (smblctx (lock_ctx lock')) else None, ev))
        (if flav = WINDOWS_LOCK then vfswrap_brl_lock_windows env mem br_lck lock blocking_lock
         else brl_lock_posix env mem br_lck lock))"

section \<open>Releasing a lock\<close>

definition brl_delete_lock_struct :: "lock_struct list \<Rightarrow> nat \<Rightarrow> lock_struct list" where
  "brl_delete_lock_struct locks del_idx =
     (if del_idx \<ge> length locks then locks else take del_idx locks @ drop (Suc del_idx) locks)"

fun find_lock :: "(lock_struct \<Rightarrow> bool) \<Rightarrow> lock_struct list \<Rightarrow> nat option" where
  "find_lock P [] = None"
| "find_lock P (l # ls) = (if P l then Some 0 else map_option Suc (find_lock P ls))"

definition unlock_windows_match :: "lock_struct \<Rightarrow> lock_struct \<Rightarrow> bool" where
  "unlock_windows_match plock lock =
     (\<not> IS_PENDING_LOCK (lock_type lock) \<and> brl_same_context (lock_ctx lock) (lock_ctx plock) \<and>
      fnum lock = fnum plock \<and> lock_flav lock = WINDOWS_LOCK \<and> start lock = start plock \<and>
      lock_size lock = lock_size plock)"

definition unlock_messages :: "lock_struct \<Rightarrow> lock_struct list \<Rightarrow> brl_event list" where
  "unlock_messages plock locks =
     map (\<lambda>p. MSG_SMB_UNLOCK (lock_pid (lock_ctx p)))
       (filter (\<lambda>p. IS_PENDING_LOCK (lock_type p) \<and> brl_pending_overlap plock p) locks)"

definition brl_unlock_windows_default ::
    "byte_range_lock \<Rightarrow> lock_struct \<Rightarrow> (bool \<times> byte_range_lock \<times> brl_event list) option" where
  "brl_unlock_windows_default br_lck plock =
     (if lock_type plock \<noteq> UNLOCK_LOCK then None
      else
        (case find_lock (unlock_windows_match plock) (lock_data br_lck) of
           None \<Rightarrow> Some (False, br_lck, [])
         | Some i \<Rightarrow>
             let deleted_lock_type = lock_type (lock_data br_lck ! i);
                 locks = brl_delete_lock_struct (lock_data br_lck) i
             in Some (True, br_lck\<lparr>lock_data := locks, modified := True\<rparr>,
                  (if lp_posix_locking (brl_fsp br_lck)
                   then [Release_posix_lock_windows_flavour (start plock) (lock_size plock)
                           deleted_lock_type (lock_ctx plock) locks] else []) @
                  unlock_messages plock locks @ [Contend_end LEVEL2_CONTEND_WINDOWS_BRL])))"

datatype unlock_scan = Unlock_panic | Unlock_conflict | Unlock_scanned "lock_struct list" bool

fun scan_append :: "lock_struct list \<Rightarrow> bool \<Rightarrow> unlock_scan \<Rightarrow> unlock_scan" where
  "scan_append out found (Unlock_scanned tp f) = Unlock_scanned (out @ tp) (found \<or> f)"
| "scan_append out found r = r"

fun posix_unlock_loop :: "lock_struct \<Rightarrow> lock_struct list \<Rightarrow> unlock_scan" where
  "posix_unlock_loop plock [] = Unlock_scanned [] False"
| "posix_unlock_loop plock (lock # ls) =
     (if IS_PENDING_LOCK (lock_type lock) \<or> \<not> brl_same_context (lock_ctx lock) (lock_ctx plock) then
        scan_append [lock] False (posix_unlock_loop plock ls)
      else if lock_flav lock = WINDOWS_LOCK then
        if brl_conflict lock plock then Unlock_conflict
        else scan_append [lock] False (posix_unlock_loop plock ls)
      else
        (case brlock_posix_split_merge lock plock of
           None \<Rightarrow> Unlock_panic
         | Some ([], plock') \<Rightarrow> scan_append [] True (posix_unlock_loop plock' ls)
         | Some ([l], plock') \<Rightarrow> scan_append [l] (lock_size l \<noteq> lock_size lock) (posix_unlock_loop plock' ls)
         | Some (out, plock') \<Rightarrow> Unlock_scanned (out @ ls) True))"

definition brl_unlock_posix ::
    "talloc \<Rightarrow> byte_range_lock \<Rightarrow> lock_struct \<Rightarrow> (bool \<times> byte_range_lock \<times> brl_event list) option" where
  "brl_unlock_posix mem br_lck plock =
     (if start plock = 0 \<and> lock_size plock = 0 then Some (False, br_lck, [])
      else if start plock + lock_size plock < start plock \<or> start plock + lock_size plock < lock_size plock then
        Some (False, br_lck, [])
      else if talloc_fails mem 0 then Some (False, br_lck, [])
      else
        (case posix_unlock_loop plock (lock_data br_lck) of
           Unlock_panic \<Rightarrow> None
         | Unlock_conflict \<Rightarrow> Some (False, br_lck, [])
         | Unlock_scanned tp overlap_found \<Rightarrow>
             if \<not> overlap_found then Some (True, br_lck, [])
             else
               let release = (if lp_posix_locking (brl_fsp br_lck)
                     then [Release_posix_lock_posix_flavour (start plock) (lock_size plock) (lock_ctx plock) tp]
                     else [])
               in if tp \<noteq> [] \<and> talloc_fails mem 1 then Some (False, br_lck, release)
                  else Some (True, br_lck\<lparr>lock_data := tp, modified := True\<rparr>,
                         release @ [Contend_end LEVEL2_CONTEND_POSIX_BRL] @ unlock_messages plock tp)))"

definition vfswrap_brl_unlock_windows ::
    "byte_range_lock \<Rightarrow> lock_struct \<Rightarrow> (bool \<times> byte_range_lock \<times> brl_event list) option" where
  "vfswrap_brl_unlock_windows br_lck plock =
     (if lock_flav plock = WINDOWS_LOCK then brl_unlock_windows_default br_lck plock else None)"

definition brl_unlock ::
    "talloc \<Rightarrow> byte_range_lock \<Rightarrow> u64 \<Rightarrow> server_id \<Rightarrow> u64 \<Rightarrow> u64 \<Rightarrow> brl_flavour \<Rightarrow>
     (bool \<times> byte_range_lock \<times> brl_event list) option" where
  "brl_unlock mem br_lck smblctx0 pid0 start0 size0 flav =
     (let lock = brl_request (brl_fsp br_lck) smblctx0 pid0 start0 size0 UNLOCK_LOCK flav in
      if flav = WINDOWS_LOCK then vfswrap_brl_unlock_windows br_lck lock
      else brl_unlock_posix mem br_lck lock)"

section \<open>Testing and querying\<close>

text \<open>The loop of \<open>brl_locktest\<close>: the array with dead locks marked, whether one was marked, and
  whether a live lock stands in the way.\<close>

fun locktest_loop ::
    "(server_id \<Rightarrow> bool) \<Rightarrow> bool \<Rightarrow> lock_struct \<Rightarrow> lock_struct list \<Rightarrow> lock_struct list \<times> bool \<times> bool" where
  "locktest_loop alive rw probe [] = ([], False, False)"
| "locktest_loop alive rw probe (l # ls) =
     (if brl_conflict_other l probe then
        if \<not> rw then (l # ls, False, True)
        else if \<not> alive (lock_pid (lock_ctx l)) then
          (case locktest_loop alive rw probe ls of (ls', _, c) \<Rightarrow> (mark_dead l # ls', True, c))
        else (l # ls, False, True)
      else (case locktest_loop alive rw probe ls of (ls', m, c) \<Rightarrow> (l # ls', m, c)))"

definition brl_locktest :: "brl_env \<Rightarrow> byte_range_lock \<Rightarrow> lock_struct \<Rightarrow> bool \<times> byte_range_lock" where
  "brl_locktest env br_lck rw_probe =
     (case locktest_loop (serverid_exists env) (has_record br_lck) rw_probe (lock_data br_lck) of
        (locks, m, conflict) \<Rightarrow>
          (if conflict then False
           else if lp_posix_locking (brl_fsp br_lck) \<and> lock_flav rw_probe = WINDOWS_LOCK then
             is_posix_locked env (start rw_probe) (lock_size rw_probe) (lock_type rw_probe) WINDOWS_LOCK = None
           else True,
           br_lck\<lparr>lock_data := locks, modified := modified br_lck \<or> m\<rparr>))"

definition lockquery_conflict :: "lock_struct \<Rightarrow> lock_struct \<Rightarrow> bool" where
  "lockquery_conflict lock exlock =
     (if lock_flav exlock = WINDOWS_LOCK then brl_conflict exlock lock else brl_conflict_posix exlock lock)"

text \<open>The status and the four values stored through the pointer arguments.\<close>

definition brl_lockquery ::
    "brl_env \<Rightarrow> byte_range_lock \<Rightarrow> u64 \<Rightarrow> server_id \<Rightarrow> u64 \<Rightarrow> u64 \<Rightarrow> brl_type \<Rightarrow> brl_flavour \<Rightarrow>
     NTSTATUS \<times> u64 \<times> u64 \<times> u64 \<times> brl_type" where
  "brl_lockquery env br_lck smblctx0 pid0 start0 size0 ltype flav =
     (let lock = brl_request (brl_fsp br_lck) smblctx0 pid0 start0 size0 ltype flav in
      case find_lock (lockquery_conflict lock) (lock_data br_lck) of
        Some i \<Rightarrow>
          let exlock = lock_data br_lck ! i in
          (NT_STATUS_LOCK_NOT_GRANTED, smblctx (lock_ctx exlock), start exlock, lock_size exlock, lock_type exlock)
      | None \<Rightarrow>
          if lp_posix_locking (brl_fsp br_lck) then
            (case is_posix_locked env start0 size0 ltype POSIX_LOCK of
               Some (s, z, t) \<Rightarrow> (NT_STATUS_LOCK_NOT_GRANTED, 0xFFFFFFFFFFFFFFFF, s, z, t)
             | None \<Rightarrow> (NT_STATUS_OK, smblctx0, start0, size0, ltype))
          else (NT_STATUS_OK, smblctx0, start0, size0, ltype))"

section \<open>Cancelling a pending lock and closing a file\<close>

definition cancel_match :: "lock_struct \<Rightarrow> lock_struct \<Rightarrow> bool" where
  "cancel_match plock lock =
     (brl_same_context (lock_ctx lock) (lock_ctx plock) \<and> fnum lock = fnum plock \<and>
      IS_PENDING_LOCK (lock_type lock) \<and> lock_flav lock = lock_flav plock \<and>
      start lock = start plock \<and> lock_size lock = lock_size plock)"

definition brl_lock_cancel_default :: "byte_range_lock \<Rightarrow> lock_struct \<Rightarrow> bool \<times> byte_range_lock" where
  "brl_lock_cancel_default br_lck plock =
     (case find_lock (cancel_match plock) (lock_data br_lck) of
        None \<Rightarrow> (False, br_lck)
      | Some i \<Rightarrow>
          (True, br_lck\<lparr>lock_data := brl_delete_lock_struct (lock_data br_lck) i, modified := True\<rparr>))"

text \<open>The type of the lock that \<open>brl_lock_cancel\<close> builds is left uninitialised and never
  read; any type serves.\<close>

definition brl_lock_cancel ::
    "byte_range_lock \<Rightarrow> u64 \<Rightarrow> server_id \<Rightarrow> u64 \<Rightarrow> u64 \<Rightarrow> brl_flavour \<Rightarrow> bool \<times> byte_range_lock" where
  "brl_lock_cancel br_lck smblctx0 pid0 start0 size0 flav =
     brl_lock_cancel_default br_lck
       (brl_request (brl_fsp br_lck) smblctx0 pid0 start0 size0 READ_LOCK flav)"

text \<open>The loop of \<open>brl_close_fnum\<close> over its copy of the array. Each call of \<open>brl_unlock\<close> makes
  at most two allocations.\<close>

fun close_fnum_loop ::
    "talloc \<Rightarrow> u32 \<Rightarrow> server_id \<Rightarrow> u64 \<Rightarrow> byte_range_lock \<Rightarrow> lock_struct list \<Rightarrow>
     (byte_range_lock \<times> brl_event list) option" where
  "close_fnum_loop mem tid0 pid0 fnum0 br_lck [] = Some (br_lck, [])"
| "close_fnum_loop mem tid0 pid0 fnum0 br_lck (lock # ls) =
     (if tid (lock_ctx lock) = tid0 \<and> server_id_equal (lock_pid (lock_ctx lock)) pid0 \<and> fnum lock = fnum0 then
        (case brl_unlock mem br_lck (smblctx (lock_ctx lock)) pid0 (start lock) (lock_size lock) (lock_flav lock) of
           None \<Rightarrow> None
         | Some (_, br, ev) \<Rightarrow>
             map_option (\<lambda>(br', ev'). (br', ev @ ev')) (close_fnum_loop (\<lambda>k. mem (k + 2)) tid0 pid0 fnum0 br ls))
      else close_fnum_loop mem tid0 pid0 fnum0 br_lck ls)"

definition brl_close_fnum :: "talloc \<Rightarrow> byte_range_lock \<Rightarrow> (byte_range_lock \<times> brl_event list) option" where
  "brl_close_fnum mem br_lck =
     (let fsp = brl_fsp br_lck in
      if lock_data br_lck \<noteq> [] \<and> talloc_fails mem 0 then None
      else close_fnum_loop (\<lambda>k. mem (k + 1)) (cnum fsp) (server_self fsp) (fsp_fnum fsp) br_lck (lock_data br_lck))"

end
