(* ===== verification/Brlock_Posix.thy ===== *)
theory Brlock_Posix
  imports Brlock
begin

text \<open>
  What the lock array means and what the POSIX operations do to it. The invariant of the array
  says that granted locks of different contexts never cover a common byte when one of them is a
  write lock, and that the POSIX ranges of one context are disjoint. Taking a POSIX lock keeps it
  and changes exactly the bytes of the request; releasing one frees exactly those bytes.
\<close>

section \<open>The invariant of the lock array\<close>

definition granted :: "lock_struct \<Rightarrow> bool" where
  "granted l \<longleftrightarrow> \<not> IS_PENDING_LOCK (lock_type l)"

definition posix :: "lock_struct \<Rightarrow> bool" where
  "posix l \<longleftrightarrow> lock_flav l = POSIX_LOCK"

text \<open>Entries end below the end of the 64 bit offsets, POSIX entries are not empty, and the type
  that only occurs in unlock requests is not stored.\<close>

definition lock_ok :: "lock_struct \<Rightarrow> bool" where
  "lock_ok l \<longleftrightarrow> en l < 2 ^ 64 \<and> (posix l \<longrightarrow> lock_size l \<noteq> 0) \<and> lock_type l \<noteq> UNLOCK_LOCK"

definition exclusive :: "lock_struct \<Rightarrow> lock_struct \<Rightarrow> bool" where
  "exclusive a b \<longleftrightarrow>
     (granted a \<and> granted b \<and> lock_ctx a \<noteq> lock_ctx b \<and>
        (lock_type a = WRITE_LOCK \<or> lock_type b = WRITE_LOCK) \<longrightarrow> bytes a \<inter> bytes b = {})"

definition posix_disjoint :: "lock_struct \<Rightarrow> lock_struct \<Rightarrow> bool" where
  "posix_disjoint a b \<longleftrightarrow>
     (posix a \<and> posix b \<and> lock_ctx a = lock_ctx b \<longrightarrow> bytes a \<inter> bytes b = {})"

definition lock_compat :: "lock_struct \<Rightarrow> lock_struct \<Rightarrow> bool" where
  "lock_compat a b \<longleftrightarrow> exclusive a b \<and> posix_disjoint a b"

definition brl_inv :: "lock_struct list \<Rightarrow> bool" where
  "brl_inv ls \<longleftrightarrow> (\<forall>l \<in> set ls. lock_ok l) \<and> sorted_wrt lock_compat ls"

lemma lock_compat_sym: "lock_compat a b \<longleftrightarrow> lock_compat b a"
  unfolding lock_compat_def exclusive_def posix_disjoint_def by (auto simp: Int_commute)

lemma brl_inv_Cons: "brl_inv (l # ls) \<longleftrightarrow> lock_ok l \<and> (\<forall>m \<in> set ls. lock_compat l m) \<and> brl_inv ls"
  by (auto simp: brl_inv_def)

lemma brl_inv_Nil [simp]: "brl_inv []"
  by (simp add: brl_inv_def)

lemma brl_inv_append:
  "brl_inv (xs @ ys) \<longleftrightarrow> brl_inv xs \<and> brl_inv ys \<and> (\<forall>x \<in> set xs. \<forall>y \<in> set ys. lock_compat x y)"
  by (auto simp: brl_inv_def sorted_wrt_append)

lemma brl_inv_filter: "brl_inv ls \<Longrightarrow> brl_inv (filter P ls)"
  by (simp add: brl_inv_def sorted_wrt_filter)

text \<open>An entry may be replaced by one that has the same attributes and fewer bytes.\<close>

definition same_attrs :: "lock_struct \<Rightarrow> lock_struct \<Rightarrow> bool" where
  "same_attrs a b \<longleftrightarrow> lock_ctx a = lock_ctx b \<and> fnum a = fnum b \<and> lock_type a = lock_type b \<and>
     lock_flav a = lock_flav b"

lemma same_attrs_refl [simp]: "same_attrs a a"
  by (simp add: same_attrs_def)

lemma same_attrs_props:
  "same_attrs a b \<Longrightarrow> granted a = granted b" "same_attrs a b \<Longrightarrow> posix a = posix b"
  by (simp_all add: same_attrs_def granted_def posix_def)

lemma lock_compat_part:
  assumes "lock_compat a m" "same_attrs o1 a" "bytes o1 \<subseteq> bytes a"
  shows "lock_compat o1 m"
  using assms unfolding lock_compat_def exclusive_def posix_disjoint_def
  by (auto simp: same_attrs_def granted_def posix_def)

lemma fits_iff: "fits l \<longleftrightarrow> lock_size l \<noteq> 0 \<and> en l < 2 ^ 64"
  by (simp add: fits_def en_def)

lemma lock_ok_fits: "lock_ok l \<Longrightarrow> posix l \<Longrightarrow> fits l"
  by (simp add: lock_ok_def fits_iff)

lemma not_overlap_disjoint:
  assumes "en a < 2 ^ 64" "en b < 2 ^ 64" "\<not> brl_overlap a b"
  shows "bytes a \<inter> bytes b = {}"
proof (cases "lock_size a = 0 \<or> lock_size b = 0")
  case True
  then have "bytes a = {} \<or> bytes b = {}" by (auto simp: bytes_def st_def en_def)
  then show ?thesis by blast
next
  case False
  then have "fits a" "fits b" using assms by (simp_all add: fits_iff)
  then show ?thesis using brl_overlap_bytes assms(3) by blast
qed

section \<open>Split and merge on bytes\<close>

text \<open>Either the existing lock is merged into the proposed one, or what lies outside of the
  proposed one remains.\<close>

lemma split_merge_ref_cases:
  assumes "fits x" "fits p" "lock_ctx x = lock_ctx p" "split_merge_ref x p = (out, p')"
  shows "(out = [] \<and> lock_type x = lock_type p \<and> fits p' \<and> same_attrs p' p \<and> bytes p' = bytes p \<union> bytes x) \<or>
    (p' = p \<and> (\<Union>o1 \<in> set out. bytes o1) = bytes x - bytes p \<and>
     (\<forall>o1 \<in> set out. fits o1 \<and> same_attrs o1 x) \<and> sorted_wrt (\<lambda>a b. bytes a \<inter> bytes b = {}) out)"
proof -
  have o: "st x < en x" "st p < en p" "en x < 2 ^ 64" "en p < 2 ^ 64"
    using assms fits_en [OF assms(1)] fits_en [OF assms(2)] by (simp_all add: fits_st_en)
  consider "en p < st x \<or> en x < st p" | "\<not> (en p < st x \<or> en x < st p)" "lock_type x = lock_type p"
    | "\<not> (en p < st x \<or> en x < st p)" "lock_type x \<noteq> lock_type p" by blast
  then show ?thesis
  proof cases
    case 1
    then have "bytes x \<inter> bytes p = {}" by (auto simp: bytes_def)
    with 1 assms show ?thesis by (auto simp: split_merge_ref_def)
  next
    case 2
    let ?s = "min (st p) (st x)" and ?e = "max (en p) (en x)"
    have "out = []" "p' = range_of p ?s ?e" using 2 assms(3,4) by (simp_all add: split_merge_ref_def)
    moreover have "st (range_of p ?s ?e) = ?s" "en (range_of p ?s ?e) = ?e" "fits (range_of p ?s ?e)"
      using o by (auto intro!: range_of_st_en)
    moreover have "{?s ..< ?e} = bytes p \<union> bytes x" using 2 o by (auto simp: bytes_def)
    ultimately show ?thesis using 2(2) by (simp add: bytes_def same_attrs_def)
  next
    case 3
    then have r: "p' = p" "out = (if st x < st p then [range_of x (st x) (st p)] else []) @
        (if en p < en x then [range_of x (en p) (en x)] else [])"
      using assms(3,4) by (auto simp: split_merge_ref_def)
    have a: "st x < st p \<Longrightarrow> fits (range_of x (st x) (st p)) \<and> bytes (range_of x (st x) (st p)) = {st x ..< st p}"
      and b: "en p < en x \<Longrightarrow> fits (range_of x (en p) (en x)) \<and> bytes (range_of x (en p) (en x)) = {en p ..< en x}"
      using o by (simp_all add: bytes_def range_of_st_en)
    have "(\<Union>o1 \<in> set out. bytes o1) =
        (if st x < st p then {st x ..< st p} else {}) \<union> (if en p < en x then {en p ..< en x} else {})"
      using a b unfolding r(2) by (cases "st x < st p"; cases "en p < en x") simp_all
    also have "\<dots> = {st x ..< en x} - {st p ..< en p}" using 3(1) o(1,2) by auto
    finally have "(\<Union>o1 \<in> set out. bytes o1) = bytes x - bytes p" by (simp add: bytes_def)
    moreover have "\<forall>o1 \<in> set out. fits o1 \<and> same_attrs o1 x" using a b unfolding r(2) by (cases "st x < st p"; cases "en p < en x") (simp_all add: same_attrs_def)
    moreover have "sorted_wrt (\<lambda>a b. bytes a \<inter> bytes b = {}) out"
      using a b o unfolding r(2) by (cases "st x < st p"; cases "en p < en x") simp_all
    ultimately show ?thesis using r(1) by blast
  qed
qed

text \<open>A step of the loop over the array, for an entry of either flavour that is not in the
  way: what is copied, and the proposed lock afterwards.\<close>

lemma split_merge_step:
  assumes "lock_ok x" "posix x" "fits p" "brlock_posix_split_merge x p = Some (out, p')"
  shows "(lock_ctx x \<noteq> lock_ctx p \<and> out = [x] \<and> p' = p) \<or>
    (lock_ctx x = lock_ctx p \<and> out = [] \<and> lock_type x = lock_type p \<and> fits p' \<and> same_attrs p' p \<and>
       bytes p' = bytes p \<union> bytes x) \<or>
    (lock_ctx x = lock_ctx p \<and> p' = p \<and> (\<Union>o1 \<in> set out. bytes o1) = bytes x - bytes p \<and>
       (\<forall>o1 \<in> set out. fits o1 \<and> same_attrs o1 x) \<and> sorted_wrt (\<lambda>a b. bytes a \<inter> bytes b = {}) out)"
proof -
  have f: "fits x" using assms(1,2) by (rule lock_ok_fits)
  have r: "split_merge_ref x p = (out, p')"
    using assms(4) brlock_posix_split_merge_ref [OF f assms(3)] by simp
  show ?thesis
  proof (cases "lock_ctx x = lock_ctx p")
    case True
    then show ?thesis using split_merge_ref_cases [OF f assms(3) True r] by blast
  next
    case False
    then show ?thesis using r by (simp add: split_merge_ref_def)
  qed
qed

lemma split_merge_total:
  "lock_ok x \<Longrightarrow> posix x \<Longrightarrow> fits p \<Longrightarrow> brlock_posix_split_merge x p \<noteq> None"
  by (simp add: brlock_posix_split_merge_ref lock_ok_fits)

section \<open>Taking a POSIX lock\<close>

text \<open>The growth of the proposed lock: it only takes in bytes of entries of its own context and
  type.\<close>

definition mergeable :: "lock_struct \<Rightarrow> lock_struct list \<Rightarrow> nat set" where
  "mergeable p ls = (\<Union>l \<in> {l \<in> set ls. posix l \<and> lock_ctx l = lock_ctx p \<and> lock_type l = lock_type p}. bytes l)"

lemma mergeable_simps [simp]:
  "mergeable p [] = {}"
  "mergeable p (l # ls) =
     (if posix l \<and> lock_ctx l = lock_ctx p \<and> lock_type l = lock_type p then bytes l \<union> mergeable p ls
      else mergeable p ls)"
  by (auto simp: mergeable_def)

lemma mergeable_cong: "same_attrs p q \<Longrightarrow> mergeable p ls = mergeable q ls"
  by (simp add: mergeable_def same_attrs_def)

lemma scan_fields [simp]:
  "scan_plock (scan_dead l g s) = scan_plock s" "scan_tp (scan_dead l g s) = scan_tp s"
  "blocker (scan_dead l g s) = blocker s" "scan_old (scan_dead l g s) = mark_dead l # scan_old s"
  "scan_plock (scan_copy l out n g s) = scan_plock s" "scan_tp (scan_copy l out n g s) = out @ scan_tp s"
  "blocker (scan_copy l out n g s) = blocker s" "scan_old (scan_copy l out n g s) = l # scan_old s"
  "blocker (scan_blocked l ls q g) = Some (smblctx (lock_ctx l))" "scan_old (scan_blocked l ls q g) = l # ls"
  by (simp_all add: scan_dead_def scan_copy_def scan_blocked_def)

text \<open>The conflict test that applies to an entry of the array.\<close>

definition in_the_way :: "lock_struct \<Rightarrow> lock_struct \<Rightarrow> bool" where
  "in_the_way l p \<longleftrightarrow> (if posix l then brl_conflict_posix l p else brl_conflict l p)"

lemma posix_lock_loop_Cons:
  "posix_lock_loop alive p (l # ls) =
     (let g = (lock_type l = PENDING_READ_LOCK \<and> brl_pending_overlap p l) in
      if in_the_way l p then
        if \<not> alive (lock_pid (lock_ctx l)) then map_option (scan_dead l g) (posix_lock_loop alive p ls)
        else Some (scan_blocked l ls p g)
      else if \<not> posix l then map_option (scan_copy l [l] 0 g) (posix_lock_loop alive p ls)
      else case brlock_posix_split_merge l p of
          None \<Rightarrow> None
        | Some (out, p') \<Rightarrow> map_option (scan_copy l out (length out) g) (posix_lock_loop alive p' ls))"
  by (cases "lock_flav l") (simp_all add: in_the_way_def posix_def Let_def)

declare posix_lock_loop.simps(2) [simp del]

lemma posix_lock_loop_induct [consumes 2, case_names Nil Dead Copy Split]:
  assumes "posix_lock_loop alive p ls = Some s" and "blocker s = None"
    and "\<And>p. P p [] \<lparr>scan_old = [], scan_tp = [], scan_plock = p, posix_count = 0, marked = False,
           signal_pending_read = False, blocker = None\<rparr>"
    and "\<And>p l ls s g. in_the_way l p \<Longrightarrow> \<not> alive (lock_pid (lock_ctx l)) \<Longrightarrow> blocker s = None \<Longrightarrow>
           posix_lock_loop alive p ls = Some s \<Longrightarrow> P p ls s \<Longrightarrow> P p (l # ls) (scan_dead l g s)"
    and "\<And>p l ls s g. \<not> posix l \<Longrightarrow> \<not> in_the_way l p \<Longrightarrow> blocker s = None \<Longrightarrow>
           posix_lock_loop alive p ls = Some s \<Longrightarrow> P p ls s \<Longrightarrow> P p (l # ls) (scan_copy l [l] 0 g s)"
    and "\<And>p l ls s g out p'. posix l \<Longrightarrow> \<not> in_the_way l p \<Longrightarrow> blocker s = None \<Longrightarrow>
           brlock_posix_split_merge l p = Some (out, p') \<Longrightarrow> posix_lock_loop alive p' ls = Some s \<Longrightarrow>
           P p' ls s \<Longrightarrow> P p (l # ls) (scan_copy l out (length out) g s)"
  shows "P p ls s"
  using assms(1,2)
proof (induction ls arbitrary: p s)
  case Nil
  then show ?case using assms(3) by auto
next
  case (Cons l ls)
  let ?g = "lock_type l = PENDING_READ_LOCK \<and> brl_pending_overlap p l"
  consider "in_the_way l p" | "\<not> in_the_way l p" "\<not> posix l" | "\<not> in_the_way l p" "posix l" by blast
  then show ?case
  proof cases
    case 1
    with Cons.prems obtain s' where "\<not> alive (lock_pid (lock_ctx l))" "posix_lock_loop alive p ls = Some s'"
      "s = scan_dead l ?g s'"
      by (auto simp: posix_lock_loop_Cons Let_def split: if_splits)
    then show ?thesis using assms(4) [OF 1] Cons by simp
  next
    case 2
    with Cons.prems obtain s' where "posix_lock_loop alive p ls = Some s'" "s = scan_copy l [l] 0 ?g s'"
      by (auto simp: posix_lock_loop_Cons Let_def split: if_splits)
    then show ?thesis using assms(5) [OF 2(2,1)] Cons by simp
  next
    case 3
    with Cons.prems obtain s' out p' where "brlock_posix_split_merge l p = Some (out, p')"
      "posix_lock_loop alive p' ls = Some s'" "s = scan_copy l out (length out) ?g s'"
      by (auto simp: posix_lock_loop_Cons Let_def split: option.splits)
    then show ?thesis using assms(6) [OF 3(2,1)] Cons by simp
  qed
qed

lemma not_in_the_way_disjoint:
  assumes "\<not> in_the_way l p" "en l < 2 ^ 64" "en p < 2 ^ 64"
    and "granted l" "granted p" "lock_ctx l \<noteq> lock_ctx p" "lock_type l = WRITE_LOCK \<or> lock_type p = WRITE_LOCK"
  shows "bytes l \<inter> bytes p = {}"
proof (rule not_overlap_disjoint [OF assms(2,3)])
  show "\<not> brl_overlap l p"
    using assms(1,4-) by (auto simp: in_the_way_def brl_conflict_def brl_conflict_posix_def granted_def split: if_splits)
qed

lemma posix_lock_loop_plock:
  assumes "posix_lock_loop alive p ls = Some s" "blocker s = None" "brl_inv ls" "fits p"
  shows "fits (scan_plock s) \<and> same_attrs (scan_plock s) p \<and> bytes p \<subseteq> bytes (scan_plock s) \<and>
    bytes (scan_plock s) \<subseteq> bytes p \<union> mergeable p ls"
  using assms
proof (induction rule: posix_lock_loop_induct)
  case (Split p l ls s g out p')
  then have l: "lock_ok l" and i: "brl_inv ls" by (simp_all add: brl_inv_Cons)
  from split_merge_step [OF l Split.hyps(1) \<open>fits p\<close> Split.hyps(4)] show ?case
  proof (elim disjE conjE)
    assume a: "lock_ctx l = lock_ctx p" "out = []" "lock_type l = lock_type p" "fits p'" "same_attrs p' p"
      "bytes p' = bytes p \<union> bytes l"
    with Split i Split.IH show ?thesis
      by (auto simp: mergeable_cong [OF a(5)]) (auto simp: same_attrs_def)
  qed (use Split i in auto)
qed (auto simp: brl_inv_Cons)

text \<open>Every entry of the new array is a part of an entry of the old one.\<close>

definition part_of :: "lock_struct \<Rightarrow> lock_struct \<Rightarrow> bool" where
  "part_of o1 l \<longleftrightarrow> same_attrs o1 l \<and> bytes o1 \<subseteq> bytes l \<and> lock_ok o1"

lemma part_of_self: "lock_ok l \<Longrightarrow> part_of l l"
  by (simp add: part_of_def)

lemma split_parts:
  assumes "lock_ok x" "posix x" "fits p" "brlock_posix_split_merge x p = Some (out, p')" "o1 \<in> set out"
  shows "part_of o1 x" and "lock_ctx x = lock_ctx p \<Longrightarrow> bytes o1 \<inter> bytes p = {} \<and> p' = p"
proof -
  have t: "lock_type x \<noteq> UNLOCK_LOCK" using assms(1) by (simp add: lock_ok_def)
  from split_merge_step [OF assms(1-4)] have "part_of o1 x \<and> (lock_ctx x = lock_ctx p \<longrightarrow> bytes o1 \<inter> bytes p = {} \<and> p' = p)"
  proof (elim disjE conjE)
    assume "(\<Union>o1 \<in> set out. bytes o1) = bytes x - bytes p" "\<forall>o1 \<in> set out. fits o1 \<and> same_attrs o1 x" "p' = p"
    with assms(5) t show ?thesis by (auto simp: part_of_def lock_ok_def fits_iff same_attrs_def)
  qed (use assms in \<open>auto simp: part_of_def\<close>)
  then show "part_of o1 x" and "lock_ctx x = lock_ctx p \<Longrightarrow> bytes o1 \<inter> bytes p = {} \<and> p' = p" by auto
qed

lemma split_keeps_inv:
  assumes "lock_ok x" "posix x" "fits p" "brlock_posix_split_merge x p = Some (out, p')"
  shows "brl_inv out"
proof -
  have "sorted_wrt lock_compat out"
    using split_merge_step [OF assms]
  proof (elim disjE conjE)
    assume a: "\<forall>o1 \<in> set out. fits o1 \<and> same_attrs o1 x" "sorted_wrt (\<lambda>a b. bytes a \<inter> bytes b = {}) out"
    then show ?thesis
      by (elim sorted_wrt_weaken) (auto simp: lock_compat_def exclusive_def posix_disjoint_def)
  qed simp_all
  then show ?thesis using split_parts(1) [OF assms] by (auto simp: brl_inv_def part_of_def)
qed

lemma posix_lock_loop_parts:
  assumes "posix_lock_loop alive p ls = Some s" "blocker s = None" "brl_inv ls" "fits p" "o1 \<in> set (scan_tp s)"
  shows "\<exists>l \<in> set ls. part_of o1 l"
  using assms
proof (induction rule: posix_lock_loop_induct)
  case (Split p l ls s g out p')
  then have l: "lock_ok l" and i: "brl_inv ls" by (simp_all add: brl_inv_Cons)
  have "fits p'" using split_merge_step [OF l Split.hyps(1) \<open>fits p\<close> Split.hyps(4)] \<open>fits p\<close> by auto
  then show ?case
    using Split.prems(3) Split.IH [OF i] split_parts(1) [OF l Split.hyps(1) \<open>fits p\<close> Split.hyps(4)] by auto
qed (auto simp: brl_inv_Cons part_of_def)

lemma lock_compat_parts: "lock_compat a b \<Longrightarrow> part_of o1 a \<Longrightarrow> part_of o2 b \<Longrightarrow> lock_compat o1 o2"
  by (meson lock_compat_part lock_compat_sym part_of_def)

lemma exclusive_grown:
  assumes "lock_ok l" "fits p" "\<not> in_the_way l p" "\<forall>m \<in> set ls. lock_compat l m"
    and "same_attrs q p" "bytes q \<subseteq> bytes p \<union> mergeable p ls"
  shows "exclusive l q"
proof -
  have "bytes l \<inter> (bytes p \<union> mergeable p ls) = {}"
    if g: "granted l" "granted p" "lock_ctx l \<noteq> lock_ctx p" "lock_type l = WRITE_LOCK \<or> lock_type p = WRITE_LOCK"
  proof -
    have "bytes l \<inter> bytes p = {}"
      using not_in_the_way_disjoint [OF assms(3) _ _ g] assms(1,2) by (simp add: lock_ok_def fits_iff)
    moreover have "bytes l \<inter> bytes m = {}" if "m \<in> set ls" "lock_ctx m = lock_ctx p" "lock_type m = lock_type p" for m
      using that g assms(4) by (auto simp: lock_compat_def exclusive_def granted_def)
    ultimately show ?thesis by (auto simp: mergeable_def)
  qed
  then show ?thesis
    using assms(5,6) unfolding exclusive_def by (auto simp: same_attrs_def granted_def)
qed

lemma posix_disjoint_grown:
  assumes "posix l" "\<forall>m \<in> set ls. lock_compat l m" "part_of o1 l" "lock_ctx l = lock_ctx p \<Longrightarrow> bytes o1 \<inter> bytes p = {}"
    and "same_attrs q p" "bytes q \<subseteq> bytes p \<union> mergeable p ls"
  shows "posix_disjoint o1 q"
proof -
  have "bytes o1 \<inter> mergeable p ls = {}" if "lock_ctx l = lock_ctx p"
    using that assms(1-3) by (fastforce simp: mergeable_def part_of_def lock_compat_def posix_disjoint_def)
  then show ?thesis using assms by (auto simp: posix_disjoint_def part_of_def same_attrs_def)
qed

lemma split_compat_grown:
  assumes l: "lock_ok l" and st: "posix l" "fits p" "brlock_posix_split_merge l p = Some (out, p')"
    and c: "\<forall>m \<in> set ls. lock_compat l m" and w: "\<not> in_the_way l p"
    and q: "same_attrs q p'" "bytes q \<subseteq> bytes p' \<union> mergeable p' ls" and o: "o1 \<in> set out"
  shows "lock_compat o1 q"
proof -
  have e: "p' = p" using split_merge_step [OF l st] o by auto
  note q = q [unfolded e]
  have "exclusive l q" by (rule exclusive_grown [OF l st(2) w c q])
  moreover have "posix_disjoint o1 q"
    using posix_disjoint_grown [OF st(1) c split_parts(1) [OF l st o] _ q] split_parts(2) [OF l st o] by blast
  ultimately show ?thesis
    using split_parts(1) [OF l st o]
    by (auto simp: lock_compat_def exclusive_def part_of_def same_attrs_def granted_def)
qed

lemma posix_lock_loop_inv:
  assumes "posix_lock_loop alive p ls = Some s" "blocker s = None" "brl_inv ls" "fits p"
    and "lock_type p \<noteq> UNLOCK_LOCK"
  shows "brl_inv (scan_tp s @ [scan_plock s])"
proof -
  let ?q = "\<lambda>s. scan_plock s"
  have "brl_inv (scan_tp s) \<and> (\<forall>o1 \<in> set (scan_tp s). lock_compat o1 (?q s))"
    using assms(1-4)
  proof (induction rule: posix_lock_loop_induct)
    case (Dead p l ls s g)
    then show ?case by (simp add: brl_inv_Cons)
  next
    case (Copy p l ls s g)
    then have l: "lock_ok l" and i: "brl_inv ls" and c: "\<forall>m \<in> set ls. lock_compat l m"
      by (simp_all add: brl_inv_Cons)
    have q: "same_attrs (?q s) p" "bytes (?q s) \<subseteq> bytes p \<union> mergeable p ls"
      using posix_lock_loop_plock [OF Copy.hyps(4,3) i \<open>fits p\<close>] by simp_all
    have "lock_compat l (?q s)"
      using exclusive_grown [OF l \<open>fits p\<close> Copy.hyps(2) c q] Copy.hyps(1)
      by (simp add: lock_compat_def posix_disjoint_def)
    moreover have "\<forall>m \<in> set (scan_tp s). lock_compat l m"
      using posix_lock_loop_parts [OF Copy.hyps(4,3) i \<open>fits p\<close>] c l
      by (meson lock_compat_part lock_compat_sym part_of_def)
    ultimately show ?case using Copy.IH [OF i \<open>fits p\<close>] l by (auto simp: brl_inv_Cons)
  next
    case (Split p l ls s g out p')
    then have l: "lock_ok l" and i: "brl_inv ls" and c: "\<forall>m \<in> set ls. lock_compat l m"
      by (simp_all add: brl_inv_Cons)
    note st = Split.hyps(1) \<open>fits p\<close> Split.hyps(4)
    have p': "fits p'" using split_merge_step [OF l st] \<open>fits p\<close> by auto
    have q: "same_attrs (?q s) p'" "bytes (?q s) \<subseteq> bytes p' \<union> mergeable p' ls"
      using posix_lock_loop_plock [OF Split.hyps(5,3) i p'] by simp_all
    have "\<forall>o1 \<in> set out. lock_compat o1 (?q s)"
      using split_compat_grown [OF l st c Split.hyps(2) q] by blast
    moreover have "\<forall>o1 \<in> set out. \<forall>m \<in> set (scan_tp s). lock_compat o1 m"
      using posix_lock_loop_parts [OF Split.hyps(5,3) i p'] c split_parts(1) [OF l st]
      by (meson lock_compat_parts)
    ultimately show ?case
      using Split.IH [OF i p'] split_keeps_inv [OF l st] by (auto simp: brl_inv_append)
  qed simp
  then show ?thesis
    using posix_lock_loop_plock [OF assms(1-4)] assms(4,5)
    by (auto simp: brl_inv_append brl_inv_Cons lock_ok_def fits_iff same_attrs_def)
qed

section \<open>The bytes held through POSIX locks\<close>

text \<open>\<open>held ls c t b\<close>: the context \<open>c\<close> holds the byte \<open>b\<close> with a POSIX lock of type \<open>t\<close>.\<close>

definition held :: "lock_struct list \<Rightarrow> lock_context \<Rightarrow> brl_type \<Rightarrow> nat \<Rightarrow> bool" where
  "held ls c t b \<longleftrightarrow> (\<exists>l \<in> set ls. posix l \<and> lock_ctx l = c \<and> lock_type l = t \<and> b \<in> bytes l)"

lemma held_simps [simp]:
  "\<not> held [] c t b"
  "held (l # ls) c t b \<longleftrightarrow> (posix l \<and> lock_ctx l = c \<and> lock_type l = t \<and> b \<in> bytes l) \<or> held ls c t b"
  "held (xs @ ys) c t b \<longleftrightarrow> held xs c t b \<or> held ys c t b"
  by (auto simp: held_def)

lemma held_parts:
  "(\<forall>o1 \<in> set out. same_attrs o1 x) \<Longrightarrow>
   held out c t b \<longleftrightarrow> posix x \<and> lock_ctx x = c \<and> lock_type x = t \<and> b \<in> (\<Union>o1 \<in> set out. bytes o1)"
  by (auto simp: held_def same_attrs_def posix_def)

lemma held_compat:
  "posix x \<Longrightarrow> \<forall>m \<in> set ls. lock_compat x m \<Longrightarrow> b \<in> bytes x \<Longrightarrow> \<not> held ls (lock_ctx x) t b"
  by (fastforce simp: held_def lock_compat_def posix_disjoint_def)

lemma conflict_posix_grown:
  assumes "lock_ok m" "posix m" "fits p" "fits p'" "same_attrs p' p" "bytes p' = bytes p \<union> bytes x"
    and "lock_compat x m" "lock_ctx x = lock_ctx p" "lock_type x = lock_type p" "lock_type p \<noteq> UNLOCK_LOCK"
  shows "brl_conflict_posix m p' \<longleftrightarrow> brl_conflict_posix m p"
proof -
  note f = lock_ok_fits [OF assms(1,2)]
  have "bytes m \<inter> bytes x = {}"
    if "granted m" "granted p" "lock_ctx m \<noteq> lock_ctx p" "\<not> (lock_type m = READ_LOCK \<and> lock_type p = READ_LOCK)"
    using that assms(1,7-10)
    by (cases "lock_type m"; cases "lock_type p")
      (auto simp: lock_compat_def exclusive_def granted_def IS_PENDING_LOCK_def lock_ok_def Int_commute)
  then show ?thesis
    using assms(5,6)
    by (auto simp: brl_conflict_posix_def brl_overlap_bytes [OF f assms(3)] brl_overlap_bytes [OF f assms(4)]
        same_attrs_def granted_def Int_Un_distrib)
qed

definition without_conflicts :: "lock_struct \<Rightarrow> lock_struct list \<Rightarrow> lock_struct list" where
  "without_conflicts p ls = filter (\<lambda>l. \<not> brl_conflict_posix l p) ls"

lemma without_conflicts_simps [simp]:
  "without_conflicts p [] = []"
  "without_conflicts p (l # ls) =
     (if brl_conflict_posix l p then without_conflicts p ls else l # without_conflicts p ls)"
  by (simp_all add: without_conflicts_def)

lemma held_without_conflicts_cong:
  "(\<And>m. m \<in> set ls \<Longrightarrow> posix m \<Longrightarrow> brl_conflict_posix m p' \<longleftrightarrow> brl_conflict_posix m p) \<Longrightarrow>
   held (without_conflicts p' ls) c t b \<longleftrightarrow> held (without_conflicts p ls) c t b"
  by (auto simp: held_def without_conflicts_def)

lemma held_without_conflicts_same: "held (without_conflicts p ls) (lock_ctx p) t b \<longleftrightarrow> held ls (lock_ctx p) t b"
  by (auto simp: held_def without_conflicts_def brl_conflict_posix_def)

lemma posix_lock_loop_held:
  assumes "posix_lock_loop alive p ls = Some s" "blocker s = None" "brl_inv ls" "fits p"
    and "lock_type p \<noteq> UNLOCK_LOCK" "posix p"
  shows "held (scan_tp s @ [scan_plock s]) c t b \<longleftrightarrow>
    (if c = lock_ctx p \<and> b \<in> bytes p then t = lock_type p else held (without_conflicts p ls) c t b)"
  using assms
proof (induction rule: posix_lock_loop_induct)
  case (Split p l ls s g out p')
  then have l: "lock_ok l" and i: "brl_inv ls" and cm: "\<forall>m \<in> set ls. lock_compat l m"
    by (simp_all add: brl_inv_Cons)
  have w: "\<not> brl_conflict_posix l p" using Split.hyps(1,2) by (simp add: in_the_way_def)
  from split_merge_step [OF l Split.hyps(1) \<open>fits p\<close> Split.hyps(4)] show ?case
  proof (elim disjE conjE)
    assume a: "lock_ctx l = lock_ctx p" "out = []" "lock_type l = lock_type p" "fits p'" "same_attrs p' p"
      "bytes p' = bytes p \<union> bytes l"
    have c: "held (without_conflicts p' ls) c t b \<longleftrightarrow> held (without_conflicts p ls) c t b"
    proof (rule held_without_conflicts_cong)
      fix m
      assume m: "m \<in> set ls" "posix m"
      then have "lock_ok m" "lock_compat l m" using i cm by (simp_all add: brl_inv_def)
      then show "brl_conflict_posix m p' \<longleftrightarrow> brl_conflict_posix m p"
        using conflict_posix_grown [OF _ m(2) \<open>fits p\<close> a(4,5,6) _ a(1,3)] Split.prems by blast
    qed
    have e: "lock_type p' = lock_type p" "lock_ctx p' = lock_ctx p" "posix p'"
      using a(5) Split.prems by (simp_all add: same_attrs_def posix_def)
    have "lock_type p' \<noteq> UNLOCK_LOCK" using e(1) Split.prems by simp
    note ih = Split.IH [OF i a(4) this e(3), unfolded e(1,2) a(6) c]
    have n: "b \<in> bytes l \<Longrightarrow> c = lock_ctx p \<Longrightarrow> \<not> held (without_conflicts p ls) c t b"
      using held_compat [OF Split.hyps(1) cm] a(1) by (simp add: held_without_conflicts_same)
    show ?thesis
      unfolding scan_fields a(2) append_Nil ih using n a(1,3) w Split.hyps(1)
      by (cases "c = lock_ctx p"; cases "b \<in> bytes p") auto
  next
    assume a: "lock_ctx l = lock_ctx p" "p' = p" "(\<Union>o1 \<in> set out. bytes o1) = bytes l - bytes p"
      "\<forall>o1 \<in> set out. fits o1 \<and> same_attrs o1 l"
    then have "held out c t b \<longleftrightarrow> posix l \<and> lock_ctx l = c \<and> lock_type l = t \<and> b \<in> bytes l - bytes p"
      using held_parts [of out l c t b] by simp
    then show ?thesis using Split.IH [OF i] Split.prems a w by auto
  qed (use Split.IH [OF i] Split.prems w in auto)
qed (auto simp: brl_inv_Cons in_the_way_def)

section \<open>When a POSIX lock is granted\<close>

text \<open>Merging does not bring new locks into the way, as long as the Windows locks are those of
  other contexts and not empty.\<close>

definition ordinary_for :: "lock_struct \<Rightarrow> lock_struct \<Rightarrow> bool" where
  "ordinary_for p l \<longleftrightarrow> posix l \<or> lock_ctx l \<noteq> lock_ctx p \<and> lock_size l \<noteq> 0"

lemma in_the_way_grown:
  assumes "lock_ok m" "ordinary_for p m" "fits p" "fits p'" "same_attrs p' p" "bytes p' = bytes p \<union> bytes x"
    and "lock_compat x m" "lock_ctx x = lock_ctx p" "lock_type x = lock_type p" "lock_type p \<noteq> UNLOCK_LOCK"
  shows "in_the_way m p' \<longleftrightarrow> in_the_way m p"
proof (cases "posix m")
  case True
  then show ?thesis using conflict_posix_grown [OF assms(1) True assms(3-)] by (simp add: in_the_way_def)
next
  case False
  then have c: "lock_ctx m \<noteq> lock_ctx p" and f: "fits m"
    using assms(1,2) by (simp_all add: ordinary_for_def lock_ok_def fits_iff)
  have "bytes m \<inter> bytes x = {}"
    if "granted m" "granted p" "\<not> (lock_type m = READ_LOCK \<and> lock_type p = READ_LOCK)"
    using that assms(1,7-10) c
    by (cases "lock_type m"; cases "lock_type p")
      (auto simp: lock_compat_def exclusive_def granted_def IS_PENDING_LOCK_def lock_ok_def Int_commute)
  then show ?thesis
    using assms(5,6) c False
    by (auto simp: in_the_way_def brl_conflict_def brl_overlap_bytes [OF f assms(3)]
        brl_overlap_bytes [OF f assms(4)] same_attrs_def granted_def Int_Un_distrib)
qed

lemma split_merge_way:
  assumes "lock_ok l" "posix l" "fits p" "brlock_posix_split_merge l p = Some (out, p')"
    and "lock_type p \<noteq> UNLOCK_LOCK" "lock_ok m" "lock_compat l m" "ordinary_for p m"
  shows "in_the_way m p' \<longleftrightarrow> in_the_way m p"
  using split_merge_step [OF assms(1-4)] in_the_way_grown [OF assms(6,8,3)] assms(5,7) by auto

lemma posix_lock_loop_blocked:
  assumes "brl_inv ls" "fits p" "lock_type p \<noteq> UNLOCK_LOCK" "\<forall>l \<in> set ls. ordinary_for p l"
  shows "\<exists>s. posix_lock_loop alive p ls = Some s \<and>
    (blocker s = None \<longleftrightarrow> (\<forall>l \<in> set ls. in_the_way l p \<longrightarrow> \<not> alive (lock_pid (lock_ctx l))))"
  using assms
proof (induction ls arbitrary: p)
  case (Cons l ls)
  then have l: "lock_ok l" and i: "brl_inv ls" and c: "\<forall>m \<in> set ls. lock_compat l m"
    and o: "\<forall>m \<in> set ls. ordinary_for p m"
    by (simp_all add: brl_inv_Cons)
  show ?case
  proof (cases "in_the_way l p \<or> \<not> posix l")
    case True
    obtain s where s: "posix_lock_loop alive p ls = Some s"
      and b: "blocker s = None \<longleftrightarrow> (\<forall>m \<in> set ls. in_the_way m p \<longrightarrow> \<not> alive (lock_pid (lock_ctx m)))"
      using Cons.IH [OF i Cons.prems(2,3) o] by (elim exE conjE)
    show ?thesis
      using True unfolding posix_lock_loop_Cons Let_def s
      by (cases "in_the_way l p"; cases "alive (lock_pid (lock_ctx l))") (simp_all add: b)
  next
    case False
    then have p: "posix l" and w: "\<not> in_the_way l p" by simp_all
    obtain out p' where m: "brlock_posix_split_merge l p = Some (out, p')"
      using split_merge_total [OF l p \<open>fits p\<close>] by (cases "brlock_posix_split_merge l p") auto
    have p': "fits p'" "same_attrs p' p" using split_merge_step [OF l p \<open>fits p\<close> m] \<open>fits p\<close> by auto
    then have "lock_type p' \<noteq> UNLOCK_LOCK" "\<forall>m \<in> set ls. ordinary_for p' m"
      using Cons.prems(3) o by (simp_all add: same_attrs_def ordinary_for_def)
    from Cons.IH [OF i p'(1) this] obtain s where s: "posix_lock_loop alive p' ls = Some s"
      and b: "blocker s = None \<longleftrightarrow> (\<forall>m \<in> set ls. in_the_way m p' \<longrightarrow> \<not> alive (lock_pid (lock_ctx m)))"
      by (elim exE conjE)
    have "lock_ok m" if "m \<in> set ls" for m using i that by (simp add: brl_inv_def)
    then have "in_the_way m p' \<longleftrightarrow> in_the_way m p" if "m \<in> set ls" for m
      using split_merge_way [OF l p \<open>fits p\<close> m Cons.prems(3)] c o that by blast
    then have b': "blocker s = None \<longleftrightarrow> (\<forall>m \<in> set ls. in_the_way m p \<longrightarrow> \<not> alive (lock_pid (lock_ctx m)))"
      unfolding b by blast
    show ?thesis using w p unfolding posix_lock_loop_Cons Let_def m by (simp add: s b')
  qed
qed simp

section \<open>The new array fits its allocation\<close>

lemma posix_insert_eq [simp]: "posix_insert p tp = tp @ [p]"
proof -
  have "posix_insert_index p tp i = i + length tp" for i by (induction tp arbitrary: i) simp_all
  then show ?thesis by (simp add: posix_insert_def)
qed

lemma split_merge_ref_length:
  "split_merge_ref x p = (out, p') \<Longrightarrow>
     length out \<le> 2 \<and> (length out = 2 \<longrightarrow> lock_ctx x = lock_ctx p \<and> st x < st p \<and> en p < en x \<and> p' = p)"
  by (auto simp: split_merge_ref_def split: if_splits)

text \<open>A proposed lock strictly inside an entry of its context touches no other entry.\<close>

lemma inside_apart:
  assumes "fits x" "fits p" "posix x" "lock_ctx x = lock_ctx p" "st x < st p" "en p < en x"
    and "fits m" "posix m" "lock_compat x m"
  shows "split_merge_ref m p = ([m], p)"
proof (cases "lock_ctx m = lock_ctx p")
  case True
  then have d: "bytes x \<inter> bytes m = {}" using assms by (simp add: lock_compat_def posix_disjoint_def)
  then have "st m \<notin> bytes x" "st x \<notin> bytes m" using fits_st_en [OF assms(1)] fits_st_en [OF assms(7)] by (auto simp: bytes_def)
  then have "en m \<le> st x \<or> en x \<le> st m" by (auto simp: bytes_def)
  then show ?thesis using assms(5,6) by (auto simp: split_merge_ref_def)
qed (simp add: split_merge_ref_def)

lemma posix_lock_loop_inside:
  assumes "posix_lock_loop alive p ls = Some s" "blocker s = None" "brl_inv ls" "fits p"
    and "fits x" "posix x" "lock_ctx x = lock_ctx p" "st x < st p" "en p < en x" "\<forall>m \<in> set ls. lock_compat x m"
  shows "length (scan_tp s) \<le> length ls"
  using assms
proof (induction rule: posix_lock_loop_induct)
  case (Split p l ls s g out p')
  then have l: "lock_ok l" "fits l" by (simp_all add: brl_inv_Cons lock_ok_fits)
  have "split_merge_ref l p = ([l], p)"
    using inside_apart [OF Split.prems(3,2,4,5,6,7) l(2) Split.hyps(1)] Split.prems(8) by simp
  then have "out = [l]" "p' = p"
    using Split.hyps(4) brlock_posix_split_merge_ref [OF l(2) \<open>fits p\<close>] by simp_all
  then show ?case using Split by (simp add: brl_inv_Cons)
qed (auto simp: brl_inv_Cons intro: le_SucI)

lemma posix_lock_loop_length:
  assumes "posix_lock_loop alive p ls = Some s" "blocker s = None" "brl_inv ls" "fits p"
  shows "length (scan_tp s) \<le> length ls + 1"
  using assms
proof (induction rule: posix_lock_loop_induct)
  case (Split p l ls s g out p')
  then have l: "lock_ok l" "fits l" and i: "brl_inv ls" and c: "\<forall>m \<in> set ls. lock_compat l m"
    by (simp_all add: brl_inv_Cons lock_ok_fits)
  have p': "fits p'" using split_merge_step [OF l(1) Split.hyps(1) \<open>fits p\<close> Split.hyps(4)] \<open>fits p\<close> by auto
  note n = split_merge_ref_length [of l p out p']
  have r: "split_merge_ref l p = (out, p')"
    using Split.hyps(4) brlock_posix_split_merge_ref [OF l(2) \<open>fits p\<close>] by simp
  show ?case
  proof (cases "length out = 2")
    case True
    then have "lock_ctx l = lock_ctx p" "st l < st p" "en p < en l" "p' = p" using n r by simp_all
    then have "length (scan_tp s) \<le> length ls"
      using posix_lock_loop_inside [OF Split.hyps(5,3) i p' l(2) Split.hyps(1) _ _ _ c] by simp
    then show ?thesis using True by simp
  next
    case False
    then have "length out \<le> 1" using n r by simp
    then show ?thesis using Split.IH [OF i p'] by simp
  qed
qed (auto simp: brl_inv_Cons)

section \<open>The old array\<close>

text \<open>Whatever the outcome, the old array changes only where a lock of a dead process was marked.\<close>

definition marked_from :: "(server_id \<Rightarrow> bool) \<Rightarrow> lock_struct \<Rightarrow> lock_struct \<Rightarrow> bool" where
  "marked_from alive l l' \<longleftrightarrow> l' = l \<or> l' = mark_dead l \<and> \<not> alive (lock_pid (lock_ctx l))"

lemma marked_from_simps [simp]:
  "marked_from alive l l" "\<not> alive (lock_pid (lock_ctx l)) \<Longrightarrow> marked_from alive l (mark_dead l)"
  by (simp_all add: marked_from_def)

lemma marked_from_refl [simp]: "list_all2 (marked_from alive) ls ls"
  by (induction ls) simp_all

lemma posix_lock_loop_old:
  "posix_lock_loop alive p ls = Some s \<Longrightarrow> list_all2 (marked_from alive) ls (scan_old s)"
proof (induction ls arbitrary: p s)
  case (Cons l ls)
  then show ?case
    by (auto simp: posix_lock_loop_Cons Let_def split: if_splits option.splits)
qed auto

text \<open>The lock that stands in the way of a read or write request of a context that holds no Windows
  locks: a granted lock of another context with a common byte, when one of the two is a write
  lock.\<close>

definition excludes :: "lock_struct \<Rightarrow> lock_struct \<Rightarrow> bool" where
  "excludes l p \<longleftrightarrow> granted l \<and> lock_ctx l \<noteq> lock_ctx p \<and>
     (lock_type l = WRITE_LOCK \<or> lock_type p = WRITE_LOCK) \<and> bytes l \<inter> bytes p \<noteq> {}"

lemma in_the_way_excludes:
  assumes "lock_ok l" "ordinary_for p l" "fits p" "lock_type p = READ_LOCK \<or> lock_type p = WRITE_LOCK"
  shows "in_the_way l p \<longleftrightarrow> excludes l p"
proof -
  have "fits l" using assms(1,2) by (auto simp: ordinary_for_def lock_ok_def fits_iff)
  then have "brl_overlap l p \<longleftrightarrow> bytes l \<inter> bytes p \<noteq> {}" using assms(3) by (rule brl_overlap_bytes)
  then show ?thesis
    using assms(1,2,4)
    by (cases "lock_type l")
      (auto simp: in_the_way_def brl_conflict_def brl_conflict_posix_def excludes_def granted_def ordinary_for_def
        lock_ok_def IS_PENDING_LOCK_def)
qed

text \<open>The entries of the old array that were marked stood in the way of the request, and the
  Windows locks that did not are copied to the new array.\<close>

lemma split_merge_ways:
  assumes "brl_inv (l # ls)" "posix l" "fits p" "brlock_posix_split_merge l p = Some (out, p')"
    and "lock_type p \<noteq> UNLOCK_LOCK" "\<forall>m \<in> set ls. ordinary_for p m"
  shows "fits p'" "lock_type p' \<noteq> UNLOCK_LOCK" "\<forall>m \<in> set ls. ordinary_for p' m"
    "\<forall>m \<in> set ls. in_the_way m p' \<longleftrightarrow> in_the_way m p"
proof -
  have l: "lock_ok l" "\<forall>m \<in> set ls. lock_ok m \<and> lock_compat l m"
    using assms(1) by (auto simp: brl_inv_Cons brl_inv_def)
  have a: "fits p'" "same_attrs p' p" using split_merge_step [OF l(1) assms(2-4)] assms(3) by auto
  then show "fits p'" "lock_type p' \<noteq> UNLOCK_LOCK" "\<forall>m \<in> set ls. ordinary_for p' m"
    using assms(5,6) by (simp_all add: same_attrs_def ordinary_for_def)
  show "\<forall>m \<in> set ls. in_the_way m p' \<longleftrightarrow> in_the_way m p"
    using split_merge_way [OF l(1) assms(2-5)] l(2) assms(6) by blast
qed

definition marked_for :: "(server_id \<Rightarrow> bool) \<Rightarrow> lock_struct \<Rightarrow> lock_struct \<Rightarrow> lock_struct \<Rightarrow> bool" where
  "marked_for alive p l l' \<longleftrightarrow> l' = l \<or> l' = mark_dead l \<and> in_the_way l p \<and> \<not> alive (lock_pid (lock_ctx l))"

lemma marked_for_refl [simp]: "marked_for alive p l l" "list_all2 (marked_for alive p) ls ls"
  by (simp_all add: marked_for_def list_all2_refl)

lemma posix_lock_loop_marked:
  assumes "posix_lock_loop alive p ls = Some s" "brl_inv ls" "fits p" "lock_type p \<noteq> UNLOCK_LOCK"
    and "\<forall>l \<in> set ls. ordinary_for p l"
  shows "list_all2 (marked_for alive p) ls (scan_old s)"
  using assms
proof (induction ls arbitrary: p s)
  case (Cons l ls)
  have i: "brl_inv ls" and o: "\<forall>m \<in> set ls. ordinary_for p m" using Cons.prems(2,5) by (simp_all add: brl_inv_Cons)
  let ?g = "lock_type l = PENDING_READ_LOCK \<and> brl_pending_overlap p l"
  show ?case
  proof (cases "in_the_way l p \<or> \<not> posix l")
    case True
    then consider "s = scan_blocked l ls p ?g"
      | s' where "posix_lock_loop alive p ls = Some s'" "scan_old s = mark_dead l # scan_old s'"
          "in_the_way l p" "\<not> alive (lock_pid (lock_ctx l))"
      | s' where "posix_lock_loop alive p ls = Some s'" "scan_old s = l # scan_old s'"
      using Cons.prems(1) by (auto simp: posix_lock_loop_Cons Let_def split: if_splits)
    then show ?thesis
      using Cons.IH [OF _ i Cons.prems(3,4) o] by cases (auto simp: marked_for_def [of alive p l])
  next
    case False
    then obtain s' out p' where m: "brlock_posix_split_merge l p = Some (out, p')"
      "posix_lock_loop alive p' ls = Some s'" "scan_old s = l # scan_old s'"
      using Cons.prems(1) by (auto simp: posix_lock_loop_Cons Let_def split: option.splits)
    have "posix l" using False by simp
    note w = split_merge_ways [OF Cons.prems(2) this Cons.prems(3) m(1) Cons.prems(4) o]
    have "list_all2 (marked_for alive p) ls (scan_old s')"
      using Cons.IH [OF m(2) i w(1,2,3)] by (rule list.rel_mono_strong) (use w(4) in \<open>auto simp: marked_for_def\<close>)
    then show ?thesis using m(3) by simp
  qed
qed auto

lemma posix_lock_loop_windows:
  assumes "posix_lock_loop alive p ls = Some s" "blocker s = None" "brl_inv ls" "fits p" "lock_type p \<noteq> UNLOCK_LOCK"
    and "\<forall>l \<in> set ls. ordinary_for p l"
  shows "filter (\<lambda>l. \<not> posix l) (scan_tp s) = filter (\<lambda>l. \<not> posix l \<and> \<not> in_the_way l p) ls"
  using assms
proof (induction rule: posix_lock_loop_induct)
  case (Split p l ls s g out p')
  have i: "brl_inv ls" and l: "lock_ok l" and o: "\<forall>m \<in> set ls. ordinary_for p m"
    using Split.prems by (simp_all add: brl_inv_Cons)
  note w = split_merge_ways [OF Split.prems(1) Split.hyps(1) \<open>fits p\<close> Split.hyps(4) Split.prems(3) o]
  have "filter (\<lambda>l. \<not> posix l) out = []"
    using split_parts(1) [OF l Split.hyps(1) \<open>fits p\<close> Split.hyps(4)] Split.hyps(1)
    by (auto simp: filter_empty_conv part_of_def same_attrs_def posix_def)
  moreover have "filter (\<lambda>l. \<not> posix l \<and> \<not> in_the_way l p') ls = filter (\<lambda>l. \<not> posix l \<and> \<not> in_the_way l p) ls"
    using w(4) by (intro filter_cong) auto
  ultimately show ?case using Split.IH [OF i w(1,2,3)] Split.hyps(1) by simp
qed (auto simp: brl_inv_Cons)

section \<open>Taking a POSIX lock: the whole operation\<close>

lemma fits_no_wrap:
  assumes "fits p"
  shows "\<not> start p + lock_size p - 1 < start p" "\<not> (start p = 0 \<and> lock_size p = 0)"
    "\<not> start p + lock_size p < start p" "\<not> start p + lock_size p < lock_size p"
proof -
  have e: "unat (start p + lock_size p) = unat (start p) + unat (lock_size p)"
    using fits_end [OF assms] by (simp add: en_def)
  have z: "0 < unat (lock_size p)" using assms by (simp add: fits_def unat_gt_0)
  then have "start p + lock_size p \<noteq> 0" using e by (metis add_is_0 not_less0 unat_0)
  then have "unat (start p + lock_size p - 1) = unat (start p) + unat (lock_size p) - 1"
    using e by (simp add: unat_minus_one)
  then show "\<not> start p + lock_size p - 1 < start p" using z by (simp add: word_less_nat_alt)
  show "\<not> (start p = 0 \<and> lock_size p = 0)" using assms by (simp add: fits_def)
  show "\<not> start p + lock_size p < start p" "\<not> start p + lock_size p < lock_size p"
    using e by (simp_all add: word_less_nat_alt)
qed

text \<open>A request that asks for a read or a write lock.\<close>

definition posix_request :: "lock_struct \<Rightarrow> bool" where
  "posix_request p \<longleftrightarrow> fits p \<and> posix p \<and> (lock_type p = READ_LOCK \<or> lock_type p = WRITE_LOCK)"

lemma posix_request_props:
  assumes "posix_request p"
  shows "fits p" "posix p" "lock_type p \<noteq> UNLOCK_LOCK" "\<not> IS_PENDING_LOCK (lock_type p)"
  using assms by (auto simp: posix_request_def IS_PENDING_LOCK_def)

text \<open>What the lower level lock of a range reports, \<open>None\<close> when it is not asked or
  succeeds.\<close>

definition lower_lock :: "brl_env \<Rightarrow> byte_range_lock \<Rightarrow> lock_struct \<Rightarrow> (nat \<times> nat) option" where
  "lower_lock env br q =
     (if lp_posix_locking (brl_fsp br)
      then set_posix_lock_posix_flavour env (start q) (lock_size q) (lock_type q) (lock_ctx q) else None)"

definition lower_status :: "(nat \<times> nat) option \<Rightarrow> NTSTATUS" where
  "lower_status r =
     (case r of None \<Rightarrow> NT_STATUS_OK
      | Some (errno_ret, errno) \<Rightarrow>
          if errno_ret = 13 \<or> errno_ret = 11 then NT_STATUS_FILE_LOCK_CONFLICT else NT_STATUS_UNIX errno)"

lemma posix_lock_commit_cases:
  assumes "\<not> IS_PENDING_LOCK (lock_type (scan_plock s))" "mem 1 \<noteq> None"
  shows "\<exists>br' p' ev. posix_lock_commit env mem br s = (lower_status (lower_lock env br (scan_plock s)), br', p', ev) \<and>
    (if lower_lock env br (scan_plock s) = None
     then br' = br\<lparr>lock_data := scan_tp s @ [scan_plock s], modified := True\<rparr> else br' = br)"
  using assms
  by (cases "lower_lock env br (scan_plock s)")
    (auto simp: posix_lock_commit_def lower_lock_def lower_status_def EACCES_def EAGAIN_def Let_def
      split: prod.splits if_splits)

definition live_in_the_way :: "brl_env \<Rightarrow> lock_struct list \<Rightarrow> lock_struct \<Rightarrow> bool" where
  "live_in_the_way env ls p \<longleftrightarrow> (\<exists>l \<in> set ls. excludes l p \<and> serverid_exists env (lock_pid (lock_ctx l)))"

lemma brl_lock_posix_cases:
  assumes "brl_inv (lock_data br)" "posix_request p" "\<forall>l \<in> set (lock_data br). ordinary_for p l"
    and "mem 0 \<noteq> None" "mem 1 \<noteq> None"
  obtains (Blocked) s br' p' ev where "live_in_the_way env (lock_data br) p"
      "posix_lock_loop (serverid_exists env) p (lock_data br) = Some s"
      "brl_lock_posix env mem br p = Some (NT_STATUS_FILE_LOCK_CONFLICT, br', p', ev)" "lock_data br' = scan_old s"
    | (Free) s br' p' ev where "\<not> live_in_the_way env (lock_data br) p"
      "posix_lock_loop (serverid_exists env) p (lock_data br) = Some s" "blocker s = None"
      "brl_lock_posix env mem br p = Some (lower_status (lower_lock env br (scan_plock s)), br', p', ev)"
      "if lower_lock env br (scan_plock s) = None
       then lock_data br' = scan_tp s @ [scan_plock s] \<and> modified br' else lock_data br' = scan_old s"
proof -
  note p = posix_request_props [OF assms(2)]
  obtain s where s: "posix_lock_loop (serverid_exists env) p (lock_data br) = Some s"
    and b: "blocker s = None \<longleftrightarrow> (\<forall>l \<in> set (lock_data br). in_the_way l p \<longrightarrow> \<not> serverid_exists env (lock_pid (lock_ctx l)))"
    using posix_lock_loop_blocked [OF assms(1) p(1,3) assms(3), of "serverid_exists env"] by (elim exE conjE)
  have w: "in_the_way l p \<longleftrightarrow> excludes l p" if "l \<in> set (lock_data br)" for l
    using that assms(1-3) by (intro in_the_way_excludes) (auto simp: brl_inv_def posix_request_def)
  have b: "blocker s = None \<longleftrightarrow> \<not> live_in_the_way env (lock_data br) p"
    unfolding b live_in_the_way_def using w by blast
  let ?br = "br\<lparr>lock_data := scan_old s, modified := modified br \<or> marked s\<rparr>"
  have e: "brl_lock_posix env mem br p =
      (case blocker s of Some _ \<Rightarrow> Some (NT_STATUS_FILE_LOCK_CONFLICT, ?br, scan_plock s, [])
       | None \<Rightarrow> Some (posix_lock_commit env mem ?br s))"
    using fits_no_wrap [OF p(1)] assms(4) by (auto simp: brl_lock_posix_def s Let_def)
  show ?thesis
  proof (cases "blocker s")
    case None
    have "same_attrs (scan_plock s) p" using posix_lock_loop_plock [OF s None assms(1) p(1)] by simp
    then have g: "\<not> IS_PENDING_LOCK (lock_type (scan_plock s))" using p(4) by (simp add: same_attrs_def)
    have "lower_lock env ?br (scan_plock s) = lower_lock env br (scan_plock s)" by (simp add: lower_lock_def)
    then obtain br' p' ev where
      "posix_lock_commit env mem ?br s = (lower_status (lower_lock env br (scan_plock s)), br', p', ev)"
      "if lower_lock env br (scan_plock s) = None
       then lock_data br' = scan_tp s @ [scan_plock s] \<and> modified br' else lock_data br' = scan_old s"
      using posix_lock_commit_cases [OF g, of mem env ?br] assms(5)
      by (cases "lower_lock env br (scan_plock s) = None") auto
    then show ?thesis using Free [OF _ s None] e None b by simp
  next
    case (Some x)
    then show ?thesis using Blocked [OF _ s] e b by simp
  qed
qed

section \<open>Releasing a POSIX lock\<close>

lemma bytes_card: "card (bytes a) = unat (lock_size a)"
  by (simp add: bytes_def st_def en_def)

lemma bytes_subset_size:
  assumes "bytes a \<subseteq> bytes b"
  shows "lock_size a = lock_size b \<longleftrightarrow> bytes a = bytes b"
proof
  assume "lock_size a = lock_size b"
  then have "card (bytes a) = card (bytes b)" by (simp add: bytes_card)
  then show "bytes a = bytes b" using assms by (simp add: bytes_def card_subset_eq)
next
  assume "bytes a = bytes b"
  then show "lock_size a = lock_size b" using bytes_card [of a] bytes_card [of b] by (simp add: word_unat_eq_iff)
qed

declare posix_unlock_loop.simps(2) [simp del]

text \<open>What the routine leaves of an entry when the request is an unlock: never a merge.\<close>

lemma split_unlock:
  assumes "lock_ok l" "posix l" "fits p" "lock_ctx l = lock_ctx p" "lock_type p = UNLOCK_LOCK"
  obtains out where "brlock_posix_split_merge l p = Some (out, p)"
    "(\<Union>o1 \<in> set out. bytes o1) = bytes l - bytes p" "\<forall>o1 \<in> set out. part_of o1 l" "brl_inv out"
    "length out \<le> 2" "length out = 2 \<Longrightarrow> st l < st p \<and> en p < en l"
proof -
  have t: "lock_type l \<noteq> lock_type p" using assms(1,5) by (auto simp: lock_ok_def)
  obtain out p' where m: "brlock_posix_split_merge l p = Some (out, p')"
    using split_merge_total [OF assms(1-3)] by (cases "brlock_posix_split_merge l p") auto
  have u: "p' = p" "(\<Union>o1 \<in> set out. bytes o1) = bytes l - bytes p"
    using split_merge_step [OF assms(1-3) m] t assms(4) by auto
  have "split_merge_ref l p = (out, p')"
    using m brlock_posix_split_merge_ref [OF lock_ok_fits [OF assms(1,2)] assms(3)] by simp
  then have "length out \<le> 2" "length out = 2 \<Longrightarrow> st l < st p \<and> en p < en l"
    using split_merge_ref_length by blast+
  then show ?thesis
    using that m u split_parts(1) [OF assms(1-3) m] split_keeps_inv [OF assms(1-3) m] by blast
qed

lemma scan_append_cases [simp]:
  "scan_append out f r = Unlock_panic \<longleftrightarrow> r = Unlock_panic"
  "scan_append out f r = Unlock_conflict \<longleftrightarrow> r = Unlock_conflict"
  "scan_append out f r = Unlock_scanned tp g \<longleftrightarrow>
     (\<exists>tp' g'. r = Unlock_scanned tp' g' \<and> tp = out @ tp' \<and> g = (f \<or> g'))"
  by (cases r; auto)+

text \<open>The cases of the loop.\<close>

lemma posix_unlock_loop_Cons:
  assumes "lock_ok l" "fits p" "lock_type p = UNLOCK_LOCK" "posix_unlock_loop p (l # ls) = Unlock_scanned tp found"
  obtains (Copy) tp' where "tp = l # tp'" "posix_unlock_loop p ls = Unlock_scanned tp' found"
      "\<not> (granted l \<and> posix l \<and> lock_ctx l = lock_ctx p)"
    | (Part) out tp' f where "granted l" "posix l" "lock_ctx l = lock_ctx p"
      "(\<Union>o1 \<in> set out. bytes o1) = bytes l - bytes p" "\<forall>o1 \<in> set out. part_of o1 l" "brl_inv out" "length out \<le> 1"
      "tp = out @ tp'" "posix_unlock_loop p ls = Unlock_scanned tp' f"
      "found \<longleftrightarrow> bytes l \<inter> bytes p \<noteq> {} \<or> f"
    | (Hole) out where "granted l" "posix l" "lock_ctx l = lock_ctx p"
      "(\<Union>o1 \<in> set out. bytes o1) = bytes l - bytes p" "\<forall>o1 \<in> set out. part_of o1 l" "brl_inv out" "length out = 2"
      "st l < st p" "en p < en l" "tp = out @ ls" "found"
proof (cases "granted l \<and> posix l \<and> lock_ctx l = lock_ctx p")
  case False
  have f: "lock_flav l = WINDOWS_LOCK \<longleftrightarrow> \<not> posix l" by (cases "lock_flav l") (simp_all add: posix_def)
  show ?thesis
    using False assms(4) Copy by (auto simp: posix_unlock_loop.simps f granted_def split: if_splits)
next
  case True
  then have a: "granted l" "posix l" "lock_ctx l = lock_ctx p" by simp_all
  obtain out where o: "brlock_posix_split_merge l p = Some (out, p)"
    "(\<Union>o1 \<in> set out. bytes o1) = bytes l - bytes p" "\<forall>o1 \<in> set out. part_of o1 l" "brl_inv out"
    "length out \<le> 2" "length out = 2 \<Longrightarrow> st l < st p \<and> en p < en l"
    using split_unlock [OF assms(1) a(2) assms(2) a(3) assms(3)] by blast
  have e: "posix_unlock_loop p (l # ls) =
      (case out of [] \<Rightarrow> scan_append [] True (posix_unlock_loop p ls)
       | [m] \<Rightarrow> scan_append [m] (lock_size m \<noteq> lock_size l) (posix_unlock_loop p ls)
       | _ \<Rightarrow> Unlock_scanned (out @ ls) True)"
    using a o(1) by (simp add: posix_unlock_loop.simps granted_def posix_def split: list.splits)
  have n: "bytes l \<noteq> {}" using fits_st_en [OF lock_ok_fits [OF assms(1) a(2)]] by (simp add: bytes_def)
  consider "out = []" | m where "out = [m]" | m m' where "out = [m, m']"
    using o(5) by (cases out; cases "tl out"; cases "tl (tl out)") auto
  then show ?thesis
  proof cases
    case 1
    then have "bytes l \<inter> bytes p \<noteq> {}" using o(2) n by auto
    moreover have "scan_append [] True (posix_unlock_loop p ls) = Unlock_scanned tp found"
      using assms(4) e 1 by simp
    ultimately show ?thesis using Part [OF a o(2-4)] 1 by auto
  next
    case 2
    then have m: "bytes m = bytes l - bytes p" using o(2) by simp
    then have "lock_size m \<noteq> lock_size l \<longleftrightarrow> bytes l \<inter> bytes p \<noteq> {}"
      using bytes_subset_size [of m l] by auto
    moreover have "scan_append [m] (lock_size m \<noteq> lock_size l) (posix_unlock_loop p ls) = Unlock_scanned tp found"
      using assms(4) e 2 by simp
    ultimately show ?thesis using Part [OF a o(2-4)] 2 by auto
  next
    case 3
    moreover have "Unlock_scanned (out @ ls) True = Unlock_scanned tp found" using assms(4) e 3 by simp
    ultimately show ?thesis using Hole [OF a o(2-4)] o(6) by simp
  qed
qed

lemma posix_unlock_loop_no_panic:
  "brl_inv ls \<Longrightarrow> fits p \<Longrightarrow> lock_type p = UNLOCK_LOCK \<Longrightarrow> posix_unlock_loop p ls \<noteq> Unlock_panic"
proof (induction ls)
  case (Cons l ls)
  then have l: "lock_ok l" and i: "posix_unlock_loop p ls \<noteq> Unlock_panic" by (simp_all add: brl_inv_Cons)
  show ?case
  proof (cases "posix l \<and> lock_ctx l = lock_ctx p")
    case True
    then have a: "posix l" "lock_ctx l = lock_ctx p" by simp_all
    obtain out where "brlock_posix_split_merge l p = Some (out, p)"
      by (rule split_unlock [OF l a(1) Cons.prems(2) a(2) Cons.prems(3)])
    then show ?thesis
      using a i by (simp add: posix_unlock_loop.simps posix_def split: list.splits)
  next
    case False
    have "lock_flav l = WINDOWS_LOCK \<longleftrightarrow> \<not> posix l" by (cases "lock_flav l") (simp_all add: posix_def)
    then show ?thesis using False i by (auto simp: posix_unlock_loop.simps)
  qed
qed simp

lemma parts_compat:
  assumes "\<forall>m \<in> set ls. lock_compat l m" "\<forall>o2 \<in> set tp. \<exists>m \<in> set ls. part_of o2 m" "part_of o1 l"
  shows "\<forall>o2 \<in> set tp. lock_compat o1 o2"
  using assms lock_compat_parts by meson

lemma posix_unlock_loop_inv:
  assumes "brl_inv ls" "fits p" "lock_type p = UNLOCK_LOCK" "posix_unlock_loop p ls = Unlock_scanned tp found"
  shows "brl_inv tp \<and> (\<forall>o1 \<in> set tp. \<exists>l \<in> set ls. part_of o1 l)"
  using assms
proof (induction ls arbitrary: tp found)
  case (Cons l ls)
  then have l: "lock_ok l" and i: "brl_inv ls" and c: "\<forall>m \<in> set ls. lock_compat l m"
    by (simp_all add: brl_inv_Cons)
  have self: "part_of l l" "\<forall>m \<in> set ls. \<exists>m' \<in> set ls. part_of m m'"
    using l i part_of_self unfolding brl_inv_def by blast+
  show ?case
  proof (cases rule: posix_unlock_loop_Cons [OF l Cons.prems(2-4), case_names Copy Part Hole])
    case (Copy tp')
    note ih = Cons.IH [OF i Cons.prems(2,3) Copy(2)]
    show ?thesis
      using ih l self(1) parts_compat [OF c conjunct2 [OF ih] self(1)] unfolding Copy(1) by (simp add: brl_inv_Cons)
  next
    case (Part out tp' f)
    note ih = Cons.IH [OF i Cons.prems(2,3) Part(9)]
    show ?thesis
      using ih Part(5,6) parts_compat [OF c conjunct2 [OF ih]] unfolding Part(8) by (auto simp: brl_inv_append)
  next
    case (Hole out)
    show ?thesis
      using i self(2) Hole(5,6) parts_compat [OF c self(2)] unfolding Hole(10) by (auto simp: brl_inv_append)
  qed
qed simp

text \<open>A POSIX unlock leaves the Windows locks alone.\<close>

lemma posix_unlock_loop_windows:
  assumes "brl_inv ls" "fits p" "lock_type p = UNLOCK_LOCK" "posix_unlock_loop p ls = Unlock_scanned tp found"
  shows "filter (\<lambda>l. \<not> posix l) tp = filter (\<lambda>l. \<not> posix l) ls"
  using assms
proof (induction ls arbitrary: tp found)
  case (Cons l ls)
  then have l: "lock_ok l" and i: "brl_inv ls" by (simp_all add: brl_inv_Cons)
  have out: "filter (\<lambda>l. \<not> posix l) out = []" if "\<forall>o1 \<in> set out. part_of o1 l" "posix l" for out
    using that by (auto simp: filter_empty_conv part_of_def same_attrs_def posix_def)
  show ?case
  proof (cases rule: posix_unlock_loop_Cons [OF l Cons.prems(2-4), case_names Copy Part Hole])
    case (Copy tp')
    then show ?thesis using Cons.IH [OF i Cons.prems(2,3) Copy(2)] by simp
  next
    case (Part out tp' f)
    then show ?thesis using Cons.IH [OF i Cons.prems(2,3) Part(9)] out [OF Part(5,2)] by simp
  next
    case (Hole out)
    then show ?thesis using out [OF Hole(5,2)] by simp
  qed
qed simp

text \<open>The bytes held afterwards: those of the request are released, everything else stays.\<close>

lemma posix_unlock_loop_held:
  assumes "brl_inv ls" "fits p" "lock_type p = UNLOCK_LOCK" "posix_unlock_loop p ls = Unlock_scanned tp found"
  shows "held tp c t b \<longleftrightarrow> held ls c t b \<and> \<not> (c = lock_ctx p \<and> b \<in> bytes p \<and> \<not> IS_PENDING_LOCK t)"
  using assms
proof (induction ls arbitrary: tp found)
  case (Cons l ls)
  then have l: "lock_ok l" and i: "brl_inv ls" and cm: "\<forall>m \<in> set ls. lock_compat l m"
    by (simp_all add: brl_inv_Cons)
  show ?case
  proof (cases rule: posix_unlock_loop_Cons [OF l Cons.prems(2-4), case_names Copy Part Hole])
    case (Copy tp')
    then show ?thesis using Cons.IH [OF i Cons.prems(2,3)] by (auto simp: granted_def)
  next
    case (Part out tp' f)
    then have "held out c t b \<longleftrightarrow> posix l \<and> lock_ctx l = c \<and> lock_type l = t \<and> b \<in> bytes l - bytes p"
      using held_parts [of out l c t b] by (simp add: part_of_def)
    then show ?thesis using Cons.IH [OF i Cons.prems(2,3)] Part by (auto simp: granted_def)
  next
    case (Hole out)
    then have h: "held out c t b \<longleftrightarrow> posix l \<and> lock_ctx l = c \<and> lock_type l = t \<and> b \<in> bytes l - bytes p"
      using held_parts [of out l c t b] by (simp add: part_of_def)
    have "bytes p \<subseteq> bytes l" using Hole by (auto simp: bytes_def)
    then have "b \<in> bytes p \<Longrightarrow> \<not> held ls (lock_ctx p) t b"
      using held_compat [OF Hole(2) cm] Hole(3) by auto
    then show ?thesis using h Hole by (auto simp: granted_def)
  qed
qed simp

lemma posix_unlock_loop_found:
  assumes "brl_inv ls" "fits p" "lock_type p = UNLOCK_LOCK" "posix_unlock_loop p ls = Unlock_scanned tp found"
  shows "(found \<longleftrightarrow> (\<exists>l \<in> set ls. granted l \<and> posix l \<and> lock_ctx l = lock_ctx p \<and> bytes l \<inter> bytes p \<noteq> {})) \<and>
    length tp \<le> length ls + 1"
  using assms
proof (induction ls arbitrary: tp found)
  case (Cons l ls)
  then have l: "lock_ok l" and i: "brl_inv ls" by (simp_all add: brl_inv_Cons)
  show ?case
  proof (cases rule: posix_unlock_loop_Cons [OF l Cons.prems(2-4), case_names Copy Part Hole])
    case (Copy tp')
    then show ?thesis using Cons.IH [OF i Cons.prems(2,3)] by auto
  next
    case (Part out tp' f)
    then show ?thesis using Cons.IH [OF i Cons.prems(2,3)] by auto
  next
    case (Hole out)
    then have "bytes l \<inter> bytes p \<noteq> {}" using fits_st_en [OF Cons.prems(2)] by (auto simp: bytes_def)
    then show ?thesis using Hole by auto
  qed
qed simp

lemma posix_unlock_loop_conflict:
  assumes "brl_inv ls" "fits p" "lock_type p = UNLOCK_LOCK" "posix_unlock_loop p ls = Unlock_conflict"
  shows "\<exists>l \<in> set ls. granted l \<and> \<not> posix l \<and> lock_ctx l = lock_ctx p \<and> ranges_meet l p"
  using assms
proof (induction ls)
  case (Cons l ls)
  then have l: "lock_ok l" and i: "brl_inv ls" by (simp_all add: brl_inv_Cons)
  show ?case
  proof (cases "posix l \<and> lock_ctx l = lock_ctx p \<and> granted l")
    case True
    then obtain out where "brlock_posix_split_merge l p = Some (out, p)"
      by (elim conjE) (rule split_unlock [OF l _ Cons.prems(2) _ Cons.prems(3)])
    then have "posix_unlock_loop p ls = Unlock_conflict"
      using True Cons.prems(4) by (simp add: posix_unlock_loop.simps posix_def granted_def split: list.splits)
    then show ?thesis using Cons.IH [OF i Cons.prems(2,3)] by auto
  next
    case False
    have f: "lock_flav l = WINDOWS_LOCK \<longleftrightarrow> \<not> posix l" by (cases "lock_flav l") (simp_all add: posix_def)
    have "brl_overlap l p \<longleftrightarrow> ranges_meet l p"
      using l Cons.prems(2) by (intro brl_overlap_meet) (simp_all add: lock_ok_def fits_iff)
    then show ?thesis
      using False Cons.prems(4) Cons.IH [OF i Cons.prems(2,3)]
      by (auto simp: posix_unlock_loop.simps f granted_def brl_conflict_def split: if_splits)
  qed
qed simp

section \<open>Concrete locks\<close>

definition sample_pid :: "u64 \<Rightarrow> server_id" where
  "sample_pid n = \<lparr>pid = n, task_id = 0, vnn = NONCLUSTER_VNN, unique_id = n\<rparr>"

definition sample_lock :: "u64 \<Rightarrow> u64 \<Rightarrow> u64 \<Rightarrow> brl_type \<Rightarrow> brl_flavour \<Rightarrow> lock_struct" where
  "sample_lock n s z t f =
     \<lparr>lock_ctx = \<lparr>smblctx = n, tid = 1, lock_pid = sample_pid n\<rparr>, start = s, lock_size = z, fnum = n,
      lock_type = t, lock_flav = f\<rparr>"

definition sample_fsp :: "u64 \<Rightarrow> files_struct" where
  "sample_fsp n =
     \<lparr>fsp_fnum = n, fsp_file_id = \<lparr>devid = 1, inode = 2, extid = 0\<rparr>, print_file = False, can_lock = True,
      is_directory = False, cnum = 1, lp_locking = True, lp_posix_locking = False, server_self = sample_pid n,
      last_lock_failure = sample_lock 0 0 0 READ_LOCK WINDOWS_LOCK, op = None, current_lock_count = 0,
      brlock_rec = None, brlock_seqnum = 0\<rparr>"

definition sample_brl :: "u64 \<Rightarrow> lock_struct list \<Rightarrow> byte_range_lock" where
  "sample_brl n ls =
     \<lparr>brl_fsp = sample_fsp n, modified = False, num_read_oplocks = 0, lock_data = ls, has_record = True\<rparr>"

text \<open>All processes are alive, and there are no lower level locks.\<close>

definition sample_env :: brl_env where
  "sample_env =
     \<lparr>serverid_exists = (\<lambda>_. True), set_posix_lock_windows_flavour = (\<lambda>_ _ _ _ _. None),
      set_posix_lock_posix_flavour = (\<lambda>_ _ _ _. None), is_posix_locked = (\<lambda>_ _ _ _. None)\<rparr>"

lemmas sample_simps = sample_lock_def sample_pid_def sample_fsp_def sample_brl_def sample_env_def

lemmas brl_spec_simps = brl_inv_def lock_ok_def lock_compat_def exclusive_def posix_disjoint_def granted_def
  posix_def posix_request_def ordinary_for_def fits_def bytes_def st_def en_def live_in_the_way_def
  in_the_way_def brl_conflict_posix_def brl_conflict_def brl_overlap_def IS_PENDING_LOCK_def

section \<open>Properties\<close>

text \<open>C4: taking a POSIX lock. On an array that satisfies the invariant, for a read or write
  request whose range is not empty and ends below the end of the 64 bit offsets, when the context
  holds no Windows lock and no Windows lock is empty, and with memory for the new array,
  \<open>brl_lock_posix\<close> never panics. A lock of a living process that excludes the request refuses it
  with \<open>NT_STATUS_FILE_LOCK_CONFLICT\<close>. Otherwise the status is that of the lower level lock, when
  the share uses them, on a range that holds the bytes of the request and beyond them only bytes that
  the context has locked with the same type. When the lock is granted, the invariant holds again, every
  byte is held through POSIX locks as before except that the bytes of the request are now held by
  the requesting context with exactly the requested type, the Windows locks are those of before, and
  of the locks of others only those that exclude the request go, which are locks of dead
  processes. When it is not granted, the array is the same but for such locks, which are
  marked by the process id zero.\<close>

theorem posix_lock_semantics:
  assumes "brl_inv (lock_data br)" and "posix_request p"
    and "\<forall>l \<in> set (lock_data br). ordinary_for p l"
    and "mem 0 \<noteq> None" and "mem 1 \<noteq> None"
  shows "\<exists>st br' p' ev. brl_lock_posix env mem br p = Some (st, br', p', ev) \<and>
    (if \<exists>l \<in> set (lock_data br). excludes l p \<and> serverid_exists env (lock_pid (lock_ctx l))
     then st = NT_STATUS_FILE_LOCK_CONFLICT
     else \<exists>q. same_attrs q p \<and> bytes p \<subseteq> bytes q \<and> bytes q \<subseteq> bytes p \<union> mergeable p (lock_data br) \<and>
       st = lower_status (lower_lock env br q)) \<and>
    (if st = NT_STATUS_OK
     then modified br' \<and> brl_inv (lock_data br') \<and>
       (\<forall>c t b. held (lock_data br') c t b \<longleftrightarrow>
          (if c = lock_ctx p \<and> b \<in> bytes p then t = lock_type p
           else held (filter (\<lambda>l. \<not> excludes l p) (lock_data br)) c t b)) \<and>
       filter (\<lambda>l. \<not> posix l) (lock_data br') = filter (\<lambda>l. \<not> posix l \<and> \<not> excludes l p) (lock_data br)
     else list_all2 (\<lambda>l l'. l' = l \<or> pid (lock_pid (lock_ctx l')) = 0 \<and> excludes l p \<and>
         \<not> serverid_exists env (lock_pid (lock_ctx l))) (lock_data br) (lock_data br'))"
proof -
  note p = posix_request_props [OF assms(2)]
  have w: "in_the_way l p \<longleftrightarrow> excludes l p" if "l \<in> set (lock_data br)" for l
    using that assms(1-3) by (intro in_the_way_excludes) (auto simp: brl_inv_def posix_request_def)
  have old: "list_all2 (\<lambda>l l'. l' = l \<or> pid (lock_pid (lock_ctx l')) = 0 \<and> excludes l p \<and>
      \<not> serverid_exists env (lock_pid (lock_ctx l))) (lock_data br) (scan_old s)"
    if "posix_lock_loop (serverid_exists env) p (lock_data br) = Some s" for s
    using posix_lock_loop_marked [OF that assms(1) p(1,3) assms(3)]
    by (rule list.rel_mono_strong) (auto simp: marked_for_def mark_dead_def w)
  show ?thesis
  proof (cases rule: brl_lock_posix_cases [OF assms, of env, case_names Blocked Free])
    case (Blocked s br' p' ev)
    then show ?thesis using old [OF Blocked(2)] by (simp add: live_in_the_way_def)
  next
    case (Free s br' p' ev)
    let ?q = "scan_plock s"
    note q = posix_lock_loop_plock [OF Free(2,3) assms(1) p(1)]
    have c: "held (without_conflicts p (lock_data br)) c t b \<longleftrightarrow> held (filter (\<lambda>l. \<not> excludes l p) (lock_data br)) c t b" for c t b
    proof -
      have "brl_conflict_posix l p \<longleftrightarrow> excludes l p" if "l \<in> set (lock_data br)" "posix l" for l
        using w [OF that(1)] that(2) by (simp add: in_the_way_def)
      then show ?thesis by (auto simp: held_def without_conflicts_def)
    qed
    have n: "lower_status (lower_lock env br ?q) = NT_STATUS_OK \<longleftrightarrow> lower_lock env br ?q = None"
      by (auto simp: lower_status_def split: option.splits)
    have f: "filter (\<lambda>l. \<not> posix l) (scan_tp s) = filter (\<lambda>l. \<not> posix l \<and> \<not> excludes l p) (lock_data br)"
      unfolding posix_lock_loop_windows [OF Free(2,3) assms(1) p(1,3) assms(3)] using w by (intro filter_cong) auto
    have "posix ?q" using q p(2) by (simp add: same_attrs_def posix_def)
    then have "lower_lock env br ?q = None \<Longrightarrow> modified br' \<and> brl_inv (lock_data br') \<and>
       (\<forall>c t b. held (lock_data br') c t b \<longleftrightarrow>
          (if c = lock_ctx p \<and> b \<in> bytes p then t = lock_type p
           else held (filter (\<lambda>l. \<not> excludes l p) (lock_data br)) c t b)) \<and>
       filter (\<lambda>l. \<not> posix l) (lock_data br') = filter (\<lambda>l. \<not> posix l \<and> \<not> excludes l p) (lock_data br)"
      using posix_lock_loop_inv [OF Free(2,3) assms(1) p(1,3)] posix_lock_loop_held [OF Free(2,3) assms(1) p(1,3,2)]
        Free(5) f by (simp add: c del: held_simps)
    moreover have "lower_lock env br ?q \<noteq> None \<Longrightarrow> lock_data br' = scan_old s" using Free(5) by simp
    ultimately show ?thesis
      using Free(1,4) q n old [OF Free(2)] unfolding live_in_the_way_def
      by (intro exI [of _ "lower_status (lower_lock env br ?q)"] exI [of _ br'] exI [of _ p'] exI [of _ ev]) auto
  qed
qed

theorem posix_lock_semantics_witness:
  "\<exists>br' p' ev. brl_lock_posix sample_env (\<lambda>_. Some [])
      (sample_brl 7 [sample_lock 7 0 10 READ_LOCK POSIX_LOCK, sample_lock 8 20 10 READ_LOCK POSIX_LOCK])
      (sample_lock 7 5 10 WRITE_LOCK POSIX_LOCK) = Some (NT_STATUS_OK, br', p', ev) \<and>
    brl_inv (lock_data br') \<and> held (lock_data br') (lock_ctx (sample_lock 7 0 0 READ_LOCK POSIX_LOCK)) WRITE_LOCK 14"
proof -
  let ?ls = "[sample_lock 7 0 10 READ_LOCK POSIX_LOCK, sample_lock 8 20 10 READ_LOCK POSIX_LOCK]"
  let ?p = "sample_lock 7 5 10 WRITE_LOCK POSIX_LOCK" and ?br = "\<lambda>ls. sample_brl 7 ls"
  have i: "brl_inv (lock_data (?br ?ls))" "posix_request ?p" "\<forall>l \<in> set (lock_data (?br ?ls)). ordinary_for ?p l"
    by (simp_all add: brl_spec_simps sample_simps)
  have n: "\<not> (\<exists>l \<in> set (lock_data (?br ?ls)). excludes l ?p \<and> serverid_exists sample_env (lock_pid (lock_ctx l)))"
    by (simp add: brl_spec_simps excludes_def sample_simps)
  have l: "lower_status (lower_lock sample_env (?br ?ls) q) = NT_STATUS_OK" for q
    by (simp add: lower_lock_def lower_status_def sample_simps)
  have b: "lock_ctx (sample_lock 7 0 0 READ_LOCK POSIX_LOCK) = lock_ctx ?p" "14 \<in> bytes ?p" "lock_type ?p = WRITE_LOCK"
    by (simp_all add: bytes_def st_def en_def sample_simps)
  obtain st br' p' ev where r: "brl_lock_posix sample_env (\<lambda>_. Some []) (?br ?ls) ?p = Some (st, br', p', ev)"
    and s: "st = NT_STATUS_OK"
    and h: "if st = NT_STATUS_OK then modified br' \<and> brl_inv (lock_data br') \<and>
       (\<forall>c t b. held (lock_data br') c t b \<longleftrightarrow>
          (if c = lock_ctx ?p \<and> b \<in> bytes ?p then t = lock_type ?p
           else held (filter (\<lambda>l. \<not> excludes l ?p) (lock_data (?br ?ls))) c t b)) \<and>
       filter (\<lambda>l. \<not> posix l) (lock_data br') = filter (\<lambda>l. \<not> posix l \<and> \<not> excludes l ?p) (lock_data (?br ?ls))
     else list_all2 (\<lambda>l l'. l' = l \<or> pid (lock_pid (lock_ctx l')) = 0 \<and> excludes l ?p \<and>
         \<not> serverid_exists sample_env (lock_pid (lock_ctx l))) (lock_data (?br ?ls)) (lock_data br')"
    using posix_lock_semantics [OF i, of "\<lambda>_. Some []" sample_env, unfolded if_not_P [OF n] l] by auto
  then show ?thesis unfolding s b(1) using b(2,3) by auto
qed

text \<open>C27: the new array of \<open>brl_lock_posix\<close> never outgrows its allocation of
  \<open>num_locks + 2\<close> entries, and that of \<open>brl_unlock_posix\<close> never outgrows its allocation of
  \<open>num_locks + 1\<close>, on arrays that satisfy the invariant.\<close>

theorem posix_array_bounds:
  assumes "brl_inv ls" and "fits p" and "fits q" and "lock_type q = UNLOCK_LOCK"
  shows "(\<forall>s. posix_lock_loop alive p ls = Some s \<and> blocker s = None \<longrightarrow>
      length (posix_insert (scan_plock s) (scan_tp s)) \<le> length ls + 2) \<and>
    (\<forall>tp found. posix_unlock_loop q ls = Unlock_scanned tp found \<longrightarrow> length tp \<le> length ls + 1)"
  using posix_lock_loop_length [OF _ _ assms(1,2)] posix_unlock_loop_found [OF assms(1,3,4)] by fastforce

theorem posix_array_bounds_witness:
  "\<exists>s. posix_lock_loop (\<lambda>_. True) (sample_lock 7 10 10 READ_LOCK POSIX_LOCK)
      [sample_lock 7 0 30 WRITE_LOCK POSIX_LOCK] = Some s \<and>
    length (posix_insert (scan_plock s) (scan_tp s)) = 3 \<and>
    length (posix_insert (scan_plock s) (scan_tp s)) \<le> length [sample_lock 7 0 30 WRITE_LOCK POSIX_LOCK] + 2"
proof -
  let ?x = "sample_lock 7 0 30 WRITE_LOCK POSIX_LOCK" and ?p = "sample_lock 7 10 10 READ_LOCK POSIX_LOCK"
  have i: "brl_inv [?x]" "fits ?p" "fits (?p\<lparr>lock_type := UNLOCK_LOCK\<rparr>)"
    by (simp_all add: brl_spec_simps sample_simps)
  have "brlock_posix_split_merge ?x ?p = Some (split_merge_ref ?x ?p)"
    by (rule brlock_posix_split_merge_ref) (simp_all add: fits_def sample_simps)
  moreover have "split_merge_ref ?x ?p = ([range_of ?x 0 10, range_of ?x 20 30], ?p)"
    by (simp add: split_merge_ref_def sample_simps st_def en_def)
  moreover have "\<not> in_the_way ?x ?p" "posix ?x" by (simp_all add: brl_spec_simps sample_simps)
  ultimately obtain s where "posix_lock_loop (\<lambda>_. True) ?p [?x] = Some s" "blocker s = None" "length (scan_tp s) = 2"
    by (simp add: posix_lock_loop_Cons Let_def)
  then show ?thesis
    using posix_array_bounds [OF i(1,2,3), of "\<lambda>_. True"] by auto
qed

text \<open>C16: releasing a POSIX range that is not empty and ends below the end of the 64 bit offsets.
  On an array that satisfies the invariant and with memory for the new array
  \<open>brl_unlock_posix\<close> never panics and keeps the invariant. When it returns true the context has
  lost exactly the bytes of the range from its granted POSIX locks: POSIX locks of other contexts,
  pending locks and all other bytes stay, and so do all Windows locks. It returns false only
  when a granted Windows lock of the same context meets the range, and then changes
  nothing.\<close>

theorem posix_unlock_releases:
  assumes "brl_inv (lock_data br)" and "fits p" and "lock_type p = UNLOCK_LOCK"
    and "mem 0 \<noteq> None" and "mem 1 \<noteq> None"
  shows "\<exists>ok br' ev. brl_unlock_posix mem br p = Some (ok, br', ev) \<and> brl_inv (lock_data br') \<and>
    (if ok then (\<forall>c t b. held (lock_data br') c t b \<longleftrightarrow>
         held (lock_data br) c t b \<and> \<not> (c = lock_ctx p \<and> b \<in> bytes p \<and> \<not> IS_PENDING_LOCK t)) \<and>
       filter (\<lambda>l. \<not> posix l) (lock_data br') = filter (\<lambda>l. \<not> posix l) (lock_data br)
     else br' = br \<and>
       (\<exists>l \<in> set (lock_data br). granted l \<and> \<not> posix l \<and> lock_ctx l = lock_ctx p \<and> ranges_meet l p))"
proof -
  note a = assms(1-3)
  note w = fits_no_wrap [OF assms(2)]
  consider "posix_unlock_loop p (lock_data br) = Unlock_conflict"
    | tp where "posix_unlock_loop p (lock_data br) = Unlock_scanned tp False"
    | tp where "posix_unlock_loop p (lock_data br) = Unlock_scanned tp True"
    using posix_unlock_loop_no_panic [OF a] by (cases "posix_unlock_loop p (lock_data br)") auto
  then show ?thesis
  proof cases
    case 1
    then show ?thesis
      using w assms(4) a(1) posix_unlock_loop_conflict [OF a 1] by (auto simp: brl_unlock_posix_def)
  next
    case (2 tp)
    have "brl_unlock_posix mem br p = Some (True, br, [])" using w assms(4) 2 by (auto simp: brl_unlock_posix_def)
    moreover have "\<not> (held (lock_data br) (lock_ctx p) t b \<and> b \<in> bytes p \<and> \<not> IS_PENDING_LOCK t)" for t b
      using posix_unlock_loop_found [OF a 2] by (auto simp: held_def granted_def)
    ultimately show ?thesis using a(1) by auto
  next
    case (3 tp)
    obtain ev where "brl_unlock_posix mem br p = Some (True, br\<lparr>lock_data := tp, modified := True\<rparr>, ev)"
      using w assms(4,5) 3 by (auto simp: brl_unlock_posix_def)
    then show ?thesis
      using posix_unlock_loop_inv [OF a 3] posix_unlock_loop_held [OF a 3] posix_unlock_loop_windows [OF a 3]
      by (intro exI [of _ True] exI [of _ "br\<lparr>lock_data := tp, modified := True\<rparr>"] exI [of _ ev]) simp
  qed
qed

theorem posix_unlock_releases_witness:
  "\<exists>br' ev. brl_unlock_posix (\<lambda>_. Some []) (sample_brl 7 [sample_lock 7 0 30 WRITE_LOCK POSIX_LOCK])
      (sample_lock 7 10 10 UNLOCK_LOCK POSIX_LOCK) = Some (True, br', ev) \<and> brl_inv (lock_data br') \<and>
    held (lock_data br') (lock_ctx (sample_lock 7 0 0 READ_LOCK POSIX_LOCK)) WRITE_LOCK 5 \<and>
    \<not> held (lock_data br') (lock_ctx (sample_lock 7 0 0 READ_LOCK POSIX_LOCK)) WRITE_LOCK 15"
proof -
  let ?x = "sample_lock 7 0 30 WRITE_LOCK POSIX_LOCK" and ?p = "sample_lock 7 10 10 UNLOCK_LOCK POSIX_LOCK"
  have a: "brl_inv (lock_data (sample_brl 7 [?x]))" "fits ?p" "lock_type ?p = UNLOCK_LOCK"
    by (simp_all add: brl_spec_simps sample_simps)
  have c: "lock_ctx (sample_lock 7 0 0 READ_LOCK POSIX_LOCK) = lock_ctx ?p"
    "held (lock_data (sample_brl 7 [?x])) (lock_ctx ?p) WRITE_LOCK 5" "5 \<notin> bytes ?p" "15 \<in> bytes ?p"
    by (simp_all add: brl_spec_simps sample_simps)
  have "posix l" if "l \<in> set (lock_data (sample_brl 7 [?x]))" for l
    using that by (simp add: posix_def sample_simps)
  then have n: "\<not> (\<exists>l \<in> set (lock_data (sample_brl 7 [?x])). granted l \<and> \<not> posix l \<and> lock_ctx l = lock_ctx ?p \<and>
      ranges_meet l ?p)"
    by blast
  have "\<not> IS_PENDING_LOCK WRITE_LOCK" by (simp add: IS_PENDING_LOCK_def)
  then show ?thesis
    unfolding c(1) using posix_unlock_releases [OF a, of "\<lambda>_. Some []"] n c(2-4) by (auto split: if_splits)
qed

end
