(* ===== verification/Brlock_Windows.thy ===== *)
theory Brlock_Windows
  imports Brlock_Posix
begin

text \<open>
  What the Windows operations do to the lock array: when a lock is granted or refused, that
  releasing it undoes taking it, that the operations keep the invariant of the array, and who is
  woken up when a lock is released. Arrays are compared after dropping the entries whose
  process id was set to zero, as the store of the array does.
\<close>

section \<open>Dropping the entries of dead processes\<close>

definition dead :: "lock_struct \<Rightarrow> bool" where
  "dead l \<longleftrightarrow> pid (lock_pid (lock_ctx l)) = 0"

definition stored :: "lock_struct list \<Rightarrow> lock_struct list" where
  "stored ls = filter (\<lambda>l. \<not> dead l) ls"

lemma dead_mark_dead [simp]: "dead (mark_dead l)"
  by (simp add: dead_def mark_dead_def)

lemma stored_simps [simp]:
  "stored [] = []" "stored (l # ls) = (if dead l then stored ls else l # stored ls)"
  "stored (xs @ ys) = stored xs @ stored ys"
  by (simp_all add: stored_def)

lemma set_stored: "set (stored ls) = {l \<in> set ls. \<not> dead l}"
  by (simp add: stored_def)

lemma stored_marked_subset:
  "list_all2 (marked_from alive) ls ls' \<Longrightarrow> set (stored ls') \<subseteq> set ls"
  by (induction rule: list_all2_induct) (auto simp: marked_from_def)

lemma brl_inv_marked:
  "list_all2 (marked_from alive) ls ls' \<Longrightarrow> brl_inv ls \<Longrightarrow> brl_inv (stored ls')"
proof (induction rule: list_all2_induct)
  case (Cons l ls l' ls')
  then have "brl_inv (stored ls')" "set (stored ls') \<subseteq> set ls"
    using stored_marked_subset by (auto simp: brl_inv_Cons)
  with Cons show ?case by (auto simp: brl_inv_Cons marked_from_def)
qed simp

section \<open>The search for a conflict\<close>

lemma windows_conflict_loop_marked:
  "windows_conflict_loop alive p ls = (ls', m, b) \<Longrightarrow> list_all2 (marked_from alive) ls ls'"
  by (induction ls arbitrary: ls' m b) (auto split: if_splits prod.splits)

lemma windows_conflict_loop_None:
  "windows_conflict_loop alive p ls = (ls', m, None) \<Longrightarrow>
     ls' = map (\<lambda>l. if brl_conflict l p then mark_dead l else l) ls \<and>
     (\<forall>l \<in> set ls. brl_conflict l p \<longrightarrow> \<not> alive (lock_pid (lock_ctx l)))"
  by (induction ls arbitrary: ls' m) (auto split: if_splits prod.splits)

lemma windows_conflict_loop_Some:
  "windows_conflict_loop alive p ls = (ls', m, Some s) \<Longrightarrow>
     \<exists>l \<in> set ls. brl_conflict l p \<and> alive (lock_pid (lock_ctx l)) \<and> s = smblctx (lock_ctx l)"
  by (induction ls arbitrary: ls' m) (auto split: if_splits prod.splits)


lemma stored_map_marked:
  "stored (map (\<lambda>l. if P l then mark_dead l else l) ls) = filter (\<lambda>l. \<not> P l) (stored ls)"
  by (induction ls) auto

lemma windows_grant_inv:
  assumes "brl_inv ls" "lock_ok p" "lock_flav p = WINDOWS_LOCK"
  shows "brl_inv (filter (\<lambda>l. \<not> brl_conflict l p) ls @ [p])"
proof -
  have "lock_compat l p" if "l \<in> set ls" "\<not> brl_conflict l p" for l
  proof -
    have "lock_ok l" using assms(1) that(1) by (simp add: brl_inv_def)
    then have "exclusive l p"
      using not_overlap_disjoint [of l p] assms(2) that(2)
      by (auto simp: exclusive_def brl_conflict_def granted_def lock_ok_def split: if_splits)
    then show ?thesis using assms(3) by (simp add: lock_compat_def posix_disjoint_def posix_def)
  qed
  then show ?thesis using assms(1,2) by (auto simp: brl_inv_append brl_inv_Cons intro: brl_inv_filter)
qed

section \<open>Every operation keeps the invariant\<close>

lemma brl_inv_stored: "brl_inv ls \<Longrightarrow> brl_inv (stored ls)"
  by (simp add: stored_def brl_inv_filter)

lemma brl_lock_windows_result:
  assumes "brl_lock_windows_default env mem br p blocking = Some (status, br', p', ev)"
  shows "list_all2 (marked_from (serverid_exists env)) (lock_data br) (lock_data br') \<or>
    (status = NT_STATUS_OK \<and>
     lock_data br' = map (\<lambda>l. if brl_conflict l p then mark_dead l else l) (lock_data br) @ [p])"
proof (cases "start p + lock_size p - 1 < start p \<and> lock_size p \<noteq> 0")
  case True
  then show ?thesis using assms by (auto simp: brl_lock_windows_default_def split: if_splits)
next
  case False
  obtain ls' m b where w: "windows_conflict_loop (serverid_exists env) p (lock_data br) = (ls', m, b)"
    by (cases "windows_conflict_loop (serverid_exists env) p (lock_data br)")
  note l = windows_conflict_loop_marked [OF w]
  show ?thesis
  proof (cases b)
    case (Some x)
    then show ?thesis
      using assms False w l
      by (auto simp: brl_lock_windows_default_def Let_def split: if_splits prod.splits)
  next
    case None
    note n = windows_conflict_loop_None [OF w [unfolded None]]
    show ?thesis
      using assms False w l n None
      by (auto simp: brl_lock_windows_default_def Let_def split: if_splits prod.splits option.splits)
  qed
qed

lemma brl_lock_windows_inv:
  assumes "brl_lock_windows_default env mem br p blocking = Some (status, br', p', ev)"
    and "brl_inv (lock_data br)" "lock_ok p" "lock_flav p = WINDOWS_LOCK"
  shows "brl_inv (stored (lock_data br'))"
  using brl_lock_windows_result [OF assms(1)]
proof
  assume "list_all2 (marked_from (serverid_exists env)) (lock_data br) (lock_data br')"
  then show ?thesis using assms(2) by (rule brl_inv_marked)
next
  assume "status = NT_STATUS_OK \<and>
     lock_data br' = map (\<lambda>l. if brl_conflict l p then mark_dead l else l) (lock_data br) @ [p]"
  then have e: "stored (lock_data br') = filter (\<lambda>l. \<not> brl_conflict l p) (stored (lock_data br)) @ stored [p]"
    by (simp add: stored_map_marked)
  have "brl_inv (filter (\<lambda>l. \<not> brl_conflict l p) (stored (lock_data br)) @ [p])"
    using windows_grant_inv [OF brl_inv_stored [OF assms(2)] assms(3,4)] .
  then show ?thesis unfolding e by (auto simp: brl_inv_append)
qed

lemma posix_lock_commit_data:
  "posix_lock_commit env mem br s = (status, br', p', ev) \<Longrightarrow>
     lock_data br' = lock_data br \<or> lock_data br' = scan_tp s @ [scan_plock s]"
  by (auto simp: posix_lock_commit_def Let_def split: option.splits if_splits prod.splits)

lemma brl_lock_posix_inv:
  assumes "brl_lock_posix env mem br p = Some (status, br', p', ev)" "brl_inv (lock_data br)"
    and "en p < 2 ^ 64" "lock_type p \<noteq> UNLOCK_LOCK"
  shows "brl_inv (stored (lock_data br'))"
proof (cases "lock_size p = 0 \<or> start p + lock_size p - 1 < start p \<or> mem 0 = None")
  case True
  have "start p \<noteq> 0 \<Longrightarrow> lock_size p = 0 \<Longrightarrow> start p + lock_size p - 1 < start p"
    by (simp add: word_less_nat_alt unat_minus_one unat_gt_0)
  then have "br' = br" using True assms(1) by (auto simp: brl_lock_posix_def split: if_splits)
  then show ?thesis using brl_inv_stored assms(2) by simp
next
  case False
  then have f: "fits p" using assms(3) by (simp add: fits_iff)
  then obtain s where s: "posix_lock_loop (serverid_exists env) p (lock_data br) = Some s"
    using assms(1) False by (auto simp: brl_lock_posix_def split: if_splits option.splits)
  let ?br = "br\<lparr>lock_data := scan_old s, modified := modified br \<or> marked s\<rparr>"
  have m: "brl_inv (stored (scan_old s))"
    by (rule brl_inv_marked [OF posix_lock_loop_old [OF s] assms(2)])
  show ?thesis
  proof (cases "blocker s")
    case (Some x)
    then have "lock_data br' = scan_old s"
      using assms(1) False s by (auto simp: brl_lock_posix_def split: if_splits)
    then show ?thesis using m by simp
  next
    case None
    then have "posix_lock_commit env mem ?br s = (status, br', p', ev)"
      using assms(1) False s by (auto simp: brl_lock_posix_def Let_def split: if_splits)
    from posix_lock_commit_data [OF this] show ?thesis
      using m posix_lock_loop_inv [OF s None assms(2) f assms(4), THEN brl_inv_stored] by auto
  qed
qed

text \<open>What a request must look like: its range ends below the end of the 64 bit offsets.\<close>

definition in_range :: "u64 \<Rightarrow> u64 \<Rightarrow> bool" where
  "in_range s z \<longleftrightarrow> unat s + unat z < 2 ^ 64"

lemma brl_request_fields [simp]:
  "lock_ctx (brl_request fsp c i s z t f) = \<lparr>smblctx = c, tid = cnum fsp, lock_pid = i\<rparr>"
  "start (brl_request fsp c i s z t f) = s" "lock_size (brl_request fsp c i s z t f) = z"
  "fnum (brl_request fsp c i s z t f) = fsp_fnum fsp" "lock_type (brl_request fsp c i s z t f) = t"
  "lock_flav (brl_request fsp c i s z t f) = f"
  by (simp_all add: brl_request_def)

lemma brl_request_en [simp]: "en (brl_request fsp c i s z t f) < 2 ^ 64 \<longleftrightarrow> in_range s z"
  by (simp add: en_def in_range_def)

lemma brl_lock_inv:
  assumes "brl_lock env mem br c i s z t f blocking = Some (status, br', b, ev)"
    and "brl_inv (lock_data br)" "in_range s z" "t \<noteq> UNLOCK_LOCK"
  shows "brl_inv (stored (lock_data br'))"
proof -
  let ?p = "brl_request (brl_fsp br) c i s z t f"
  show ?thesis
  proof (cases f)
    case WINDOWS_LOCK
    then have "lock_ok ?p" using assms(3,4) by (simp add: lock_ok_def posix_def del: brl_request_en) (simp add: en_def in_range_def)
    then show ?thesis
      using assms WINDOWS_LOCK brl_lock_windows_inv
      by (fastforce simp: brl_lock_def vfswrap_brl_lock_windows_def Let_def)
  next
    case POSIX_LOCK
    then show ?thesis
      using assms brl_lock_posix_inv [of env mem br ?p]
      by (auto simp: brl_lock_def Let_def en_def in_range_def)
  qed
qed

lemma find_lock_Some: "find_lock P ls = Some i \<Longrightarrow> i < length ls \<and> P (ls ! i)"
  by (induction ls arbitrary: i) (auto split: if_splits)

lemma find_lock_None: "find_lock P ls = None \<longleftrightarrow> (\<forall>l \<in> set ls. \<not> P l)"
  by (induction ls) auto


lemma brl_inv_delete: "brl_inv ls \<Longrightarrow> brl_inv (brl_delete_lock_struct ls i)"
proof (cases "i < length ls")
  case True
  assume "brl_inv ls"
  then have "brl_inv (take i ls @ ls ! i # drop (Suc i) ls)" using True by (simp add: id_take_nth_drop [symmetric])
  then show ?thesis using True by (simp add: brl_delete_lock_struct_def brl_inv_append brl_inv_Cons)
qed (simp add: brl_delete_lock_struct_def)

text \<open>An unlock keeps the invariant and touches nothing but the array and its flag.\<close>

lemma brl_unlock_inv:
  assumes "brl_unlock mem br c i s z f = Some (ok, br', ev)"
    and "brl_inv (lock_data br)" "in_range s z" "f = POSIX_LOCK \<Longrightarrow> z \<noteq> 0"
  shows "brl_inv (lock_data br')" and "brl_fsp br' = brl_fsp br"
proof -
  let ?p = "brl_request (brl_fsp br) c i s z UNLOCK_LOCK f"
  have "brl_inv (lock_data br') \<and> brl_fsp br' = brl_fsp br"
  proof (cases f)
    case WINDOWS_LOCK
    then show ?thesis
      using assms(1,2) brl_inv_delete
      by (auto simp: brl_unlock_def vfswrap_brl_unlock_windows_def brl_unlock_windows_default_def Let_def
          split: option.splits)
  next
    case POSIX_LOCK
    then have f: "fits ?p" using assms(3,4) by (simp add: fits_def in_range_def)
    have "brl_unlock_posix mem br ?p = Some (ok, br', ev)" using assms(1) POSIX_LOCK by (simp add: brl_unlock_def)
    then show ?thesis
      using assms(2) posix_unlock_loop_inv [OF assms(2) f]
      by (auto simp: brl_unlock_posix_def Let_def split: if_splits unlock_scan.splits)
  qed
  then show "brl_inv (lock_data br')" and "brl_fsp br' = brl_fsp br" by simp_all
qed

lemma brl_lock_cancel_inv:
  "brl_lock_cancel br c i s z f = (ok, br') \<Longrightarrow> brl_inv (lock_data br) \<Longrightarrow> brl_inv (lock_data br')"
  using brl_inv_delete by (auto simp: brl_lock_cancel_def brl_lock_cancel_default_def split: option.splits)

lemma close_fnum_loop_inv:
  assumes "close_fnum_loop mem tid0 pid0 fnum0 br ls = Some (br', ev)"
    and "brl_inv (lock_data br)" "\<forall>l \<in> set ls. lock_ok l"
  shows "brl_inv (lock_data br')"
  using assms
proof (induction ls arbitrary: mem br ev)
  case (Cons l ls)
  then have "in_range (start l) (lock_size l)" "lock_flav l = POSIX_LOCK \<Longrightarrow> lock_size l \<noteq> 0"
    by (simp_all add: lock_ok_def in_range_def en_def posix_def)
  then show ?case
    using Cons brl_unlock_inv(1) by (auto split: if_splits option.splits)
qed simp

lemma brl_close_fnum_inv:
  assumes "brl_close_fnum mem br = Some (br', ev)" "brl_inv (lock_data br)"
  shows "brl_inv (lock_data br')"
proof -
  have "close_fnum_loop (\<lambda>k. mem (k + 1)) (cnum (brl_fsp br)) (server_self (brl_fsp br)) (fsp_fnum (brl_fsp br))
      br (lock_data br) = Some (br', ev)"
    using assms(1) by (simp add: brl_close_fnum_def Let_def split: if_splits)
  then show ?thesis using assms(2) by (rule close_fnum_loop_inv) (use assms(2) in \<open>simp add: brl_inv_def\<close>)
qed


section \<open>When a Windows lock is refused\<close>

text \<open>An entry of the array blocks a request: neither is pending, not both are read locks, it is not the
  write lock of the same handle that asks for a read lock, and the ranges meet.\<close>

definition windows_blocks :: "lock_struct \<Rightarrow> lock_struct \<Rightarrow> bool" where
  "windows_blocks l p \<longleftrightarrow> granted l \<and> granted p \<and> \<not> (lock_type l = READ_LOCK \<and> lock_type p = READ_LOCK) \<and>
     \<not> (lock_type l = WRITE_LOCK \<and> lock_type p = READ_LOCK \<and> lock_ctx l = lock_ctx p \<and> fnum l = fnum p) \<and>
     ranges_meet l p"

lemma brl_conflict_blocks: "en l < 2 ^ 64 \<Longrightarrow> en p < 2 ^ 64 \<Longrightarrow> brl_conflict l p \<longleftrightarrow> windows_blocks l p"
  by (auto simp: brl_conflict_def windows_blocks_def granted_def brl_overlap_meet)

text \<open>The same request failed on the handle before, and the offsets for which a refusal is always
  reported as a conflict.\<close>

definition refused_before :: "files_struct \<Rightarrow> lock_struct \<Rightarrow> bool" where
  "refused_before fsp p \<longleftrightarrow>
     (let last = last_lock_failure fsp in
      lock_pid (lock_ctx p) = lock_pid (lock_ctx last) \<and> tid (lock_ctx p) = tid (lock_ctx last) \<and>
      fnum p = fnum last \<and> start p = start last)"

definition far_offset :: "lock_struct \<Rightarrow> bool" where
  "far_offset p \<longleftrightarrow> 0xEF000000 \<le> st p \<and> st p < 2 ^ 63"

lemma brl_lock_failed_spec:
  "brl_lock_failed fsp p blocking =
     (if far_offset p \<or> refused_before fsp p then NT_STATUS_FILE_LOCK_CONFLICT else NT_STATUS_LOCK_NOT_GRANTED,
      if blocking \<or> \<not> far_offset p \<and> refused_before fsp p then fsp else fsp\<lparr>last_lock_failure := p\<rparr>)"
proof -
  have "drop_bit 63 (start p) = 0 \<longleftrightarrow> st p < 2 ^ 63"
    by (simp add: word_unat_eq_iff drop_bit_eq_div unat_div_distrib st_def div_eq_0_iff)
  moreover have "start p \<ge> 0xEF000000 \<longleftrightarrow> 0xEF000000 \<le> st p"
    by (simp add: word_le_nat_alt st_def)
  ultimately have "start p \<ge> 0xEF000000 \<and> drop_bit 63 (start p) = 0 \<longleftrightarrow> far_offset p"
    by (simp add: far_offset_def)
  then show ?thesis
    by (simp add: brl_lock_failed_def refused_before_def server_id_equal_iff Let_def)
qed

lemma windows_conflict_loop_blocked:
  "windows_conflict_loop alive p ls = (ls', m, Some s) \<Longrightarrow>
     \<exists>pre l post. ls = pre @ l # post \<and> brl_conflict l p \<and> alive (lock_pid (lock_ctx l)) \<and>
       (\<forall>x \<in> set pre. brl_conflict x p \<longrightarrow> \<not> alive (lock_pid (lock_ctx x))) \<and> s = smblctx (lock_ctx l) \<and>
       ls' = map (\<lambda>x. if brl_conflict x p then mark_dead x else x) pre @ l # post"
proof (induction ls arbitrary: ls' m)
  case (Cons x ls)
  show ?case
  proof (cases "brl_conflict x p \<and> alive (lock_pid (lock_ctx x))")
    case True
    then show ?thesis using Cons.prems by (intro exI [of _ "[]"] exI [of _ x] exI [of _ ls]) auto
  next
    case False
    then obtain ls1 m1 where "windows_conflict_loop alive p ls = (ls1, m1, Some s)"
      "ls' = (if brl_conflict x p then mark_dead x else x) # ls1"
      using Cons.prems by (auto split: if_splits prod.splits)
    then obtain pre l post where "ls = pre @ l # post" "brl_conflict l p" "alive (lock_pid (lock_ctx l))"
      "\<forall>x \<in> set pre. brl_conflict x p \<longrightarrow> \<not> alive (lock_pid (lock_ctx x))" "s = smblctx (lock_ctx l)"
      "ls' = (if brl_conflict x p then mark_dead x else x) #
         map (\<lambda>x. if brl_conflict x p then mark_dead x else x) pre @ l # post"
      using Cons.IH by blast
    then show ?thesis using False by (intro exI [of _ "x # pre"] exI [of _ l] exI [of _ post]) auto
  qed
qed simp

text \<open>What the lower level lock reports, given the array as the search has left it.\<close>

definition lower_lock_windows :: "brl_env \<Rightarrow> byte_range_lock \<Rightarrow> lock_struct \<Rightarrow> (nat \<times> nat) option" where
  "lower_lock_windows env br p =
     (if granted p \<and> lp_posix_locking (brl_fsp br)
      then set_posix_lock_windows_flavour env (start p) (lock_size p) (lock_type p) (lock_ctx p)
             (map (\<lambda>l. if windows_blocks l p then mark_dead l else l) (lock_data br))
      else None)"

lemma windows_range_wraps:
  "start p + lock_size p - 1 < start p \<and> lock_size p \<noteq> 0 \<longleftrightarrow> 2 ^ 64 < en p"
proof (cases "lock_size p = 0")
  case True
  moreover have "unat (start p) < 2 ^ 64" using unsigned_less [of "start p"] by simp
  ultimately show ?thesis by (simp add: en_def)
next
  case False
  then have z: "0 < unat (lock_size p)" by (simp add: unat_gt_0)
  have e: "start p + lock_size p - 1 = start p + (lock_size p - 1)" by (simp add: diff_add_eq)
  have "unat (lock_size p - 1) = unat (lock_size p) - 1" using False by (simp add: unat_minus_one)
  then have "start p + lock_size p - 1 < start p \<longleftrightarrow> \<not> unat (start p) + (unat (lock_size p) - 1) < 2 ^ 64"
    using no_olen_add_nat [of "start p" "lock_size p - 1"] unfolding e by (simp add: not_le [symmetric])
  then show ?thesis using False z unfolding en_def by arith
qed

lemma windows_lock_refused:
  assumes "lock_type p \<noteq> UNLOCK_LOCK" "\<not> (start p + lock_size p - 1 < start p \<and> lock_size p \<noteq> 0)"
    and "windows_conflict_loop (serverid_exists env) p (lock_data br) = (ls', m, Some s)"
    and c: "\<And>l. l \<in> set (lock_data br) \<Longrightarrow> brl_conflict l p \<longleftrightarrow> windows_blocks l p"
  shows "\<exists>status br' p' ev. brl_lock_windows_default env mem br p blocking = Some (status, br', p', ev) \<and>
    (\<exists>pre l post. lock_data br = pre @ l # post \<and> windows_blocks l p \<and>
       serverid_exists env (lock_pid (lock_ctx l)) \<and>
       (\<forall>x \<in> set pre. windows_blocks x p \<longrightarrow> \<not> serverid_exists env (lock_pid (lock_ctx x))) \<and>
       stored (lock_data br') = filter (\<lambda>x. \<not> windows_blocks x p) (stored pre) @ stored (l # post) \<and>
       p' = p\<lparr>lock_ctx := (lock_ctx p)\<lparr>smblctx := smblctx (lock_ctx l)\<rparr>\<rparr> \<and>
       status = (if far_offset p \<or> refused_before (brl_fsp br) p then NT_STATUS_FILE_LOCK_CONFLICT
                 else NT_STATUS_LOCK_NOT_GRANTED) \<and>
       brl_fsp br' = (if blocking \<or> \<not> far_offset p \<and> refused_before (brl_fsp br) p then brl_fsp br
                      else (brl_fsp br)\<lparr>last_lock_failure := p'\<rparr>))"
proof -
  obtain pre l post where l: "lock_data br = pre @ l # post" "brl_conflict l p" "serverid_exists env (lock_pid (lock_ctx l))"
    "\<forall>x \<in> set pre. brl_conflict x p \<longrightarrow> \<not> serverid_exists env (lock_pid (lock_ctx x))" "s = smblctx (lock_ctx l)"
    "ls' = map (\<lambda>x. if brl_conflict x p then mark_dead x else x) pre @ l # post"
    using windows_conflict_loop_blocked [OF assms(3)] by blast
  have b: "\<And>x. x \<in> set (l # pre) \<Longrightarrow> brl_conflict x p \<longleftrightarrow> windows_blocks x p" using c l(1) by auto
  define q where "q = set_lock_smblctx s p"
  have q: "far_offset q = far_offset p" "refused_before fsp q = refused_before fsp p" for fsp
    by (simp_all add: q_def set_lock_smblctx_def far_offset_def refused_before_def st_def)
  have q': "q = p\<lparr>lock_ctx := (lock_ctx p)\<lparr>smblctx := smblctx (lock_ctx l)\<rparr>\<rparr>"
    by (simp add: q_def set_lock_smblctx_def l(5))
  have e: "filter (\<lambda>x. \<not> brl_conflict x p) (stored pre) = filter (\<lambda>x. \<not> windows_blocks x p) (stored pre)"
    using b by (intro filter_cong) (auto simp: set_stored)
  obtain status fsp where f: "brl_lock_failed (brl_fsp br) q blocking = (status, fsp)"
    by (cases "brl_lock_failed (brl_fsp br) q blocking")
  define br' where "br' = br\<lparr>brl_fsp := fsp, lock_data := ls', modified := modified br \<or> m\<rparr>"
  have r: "brl_lock_windows_default env mem br p blocking = Some (status, br', q, [])"
    using assms(1-3) f by (auto simp: brl_lock_windows_default_def q_def br'_def Let_def)
  have "stored (lock_data br') = filter (\<lambda>x. \<not> windows_blocks x p) (stored pre) @ stored (l # post)"
    using e by (simp add: br'_def l(6) stored_map_marked)
  moreover have "windows_blocks l p"
    "\<forall>x \<in> set pre. windows_blocks x p \<longrightarrow> \<not> serverid_exists env (lock_pid (lock_ctx x))"
    using b l(2,4) by auto
  moreover have "status = (if far_offset p \<or> refused_before (brl_fsp br) p then NT_STATUS_FILE_LOCK_CONFLICT
                 else NT_STATUS_LOCK_NOT_GRANTED)"
    "brl_fsp br' = (if blocking \<or> \<not> far_offset p \<and> refused_before (brl_fsp br) p then brl_fsp br
                      else (brl_fsp br)\<lparr>last_lock_failure := q\<rparr>)"
    using f by (auto simp: brl_lock_failed_spec q br'_def)
  ultimately show ?thesis
    using r l(1,3) q' by (intro exI conjI)
qed

lemma windows_lock_free:
  assumes "lock_type p \<noteq> UNLOCK_LOCK" "\<not> (start p + lock_size p - 1 < start p \<and> lock_size p \<noteq> 0)"
    and "windows_conflict_loop (serverid_exists env) p (lock_data br) = (ls', m, None)"
    and c: "\<And>l. l \<in> set (lock_data br) \<Longrightarrow> brl_conflict l p \<longleftrightarrow> windows_blocks l p"
  shows "\<exists>status br' p' ev. brl_lock_windows_default env mem br p blocking = Some (status, br', p', ev) \<and>
    brl_fsp br' = brl_fsp br \<and>
    (if lower_lock_windows env br p \<noteq> None
     then status = lower_status (lower_lock_windows env br p) \<and> smblctx (lock_ctx p') = 2 ^ 64 - 1 \<and>
       stored (lock_data br') = filter (\<lambda>l. \<not> windows_blocks l p) (stored (lock_data br))
     else if mem 0 = None
     then status = NT_STATUS_NO_MEMORY \<and>
       stored (lock_data br') = filter (\<lambda>l. \<not> windows_blocks l p) (stored (lock_data br))
     else status = NT_STATUS_OK \<and> modified br' \<and>
       stored (lock_data br') = filter (\<lambda>l. \<not> windows_blocks l p) (stored (lock_data br)) @ stored [p])"
proof -
  have l: "ls' = map (\<lambda>l. if windows_blocks l p then mark_dead l else l) (lock_data br)"
    using windows_conflict_loop_None [OF assms(3)] c by (auto intro: map_cong)
  have s: "stored ls' = filter (\<lambda>l. \<not> windows_blocks l p) (stored (lock_data br))"
    unfolding l by (rule stored_map_marked)
  have w: "lower_lock_windows env br p = (if \<not> IS_PENDING_LOCK (lock_type p) \<and> lp_posix_locking (brl_fsp br)
      then set_posix_lock_windows_flavour env (start p) (lock_size p) (lock_type p) (lock_ctx p) ls' else None)"
    by (simp add: lower_lock_windows_def granted_def l)
  show ?thesis
  proof (cases "lower_lock_windows env br p")
    case None
    then show ?thesis
      using assms(1-3) s unfolding w
      by (cases "mem 0") (auto simp: brl_lock_windows_default_def Let_def)
  next
    case (Some x)
    then show ?thesis
      using assms(1-3) s unfolding w
      by (cases x) (auto simp: brl_lock_windows_default_def lower_status_def EACCES_def EAGAIN_def
          set_lock_smblctx_def Let_def split: if_splits)
  qed
qed

section \<open>Properties\<close>

text \<open>C17: taking a Windows lock. The request does not end exactly at the end of the 64 bit offsets
  and the ranges in the array end below it. A range that reaches beyond the end is refused with its own
  status and changes nothing. Otherwise a blocking lock of a living process refuses the request:
  the first such lock is reported, with \<open>NT_STATUS_FILE_LOCK_CONFLICT\<close> when the same request was refused
  before on the handle or the offset is far, and \<open>NT_STATUS_LOCK_NOT_GRANTED\<close> else, and the failure is
  remembered; of the entries in front of it the blocking ones, of dead processes, go, and
  the others stay. Otherwise the lower level lock can refuse it with its own status, or memory can be
  short, and in both cases the array loses only the blocking entries of dead processes.
  Otherwise the lock is granted and appended.\<close>

theorem windows_lock_decides:
  assumes "lock_type p \<noteq> UNLOCK_LOCK" and "en p \<noteq> 2 ^ 64" and "\<forall>l \<in> set (lock_data br). en l < 2 ^ 64"
  shows "\<exists>status br' p' ev. brl_lock_windows_default env mem br p blocking = Some (status, br', p', ev) \<and>
    (if 2 ^ 64 < en p then status = NT_STATUS_INVALID_LOCK_RANGE \<and> br' = br
     else if \<exists>l \<in> set (lock_data br). windows_blocks l p \<and> serverid_exists env (lock_pid (lock_ctx l))
     then \<exists>pre l post. lock_data br = pre @ l # post \<and> windows_blocks l p \<and>
       serverid_exists env (lock_pid (lock_ctx l)) \<and>
       (\<forall>x \<in> set pre. windows_blocks x p \<longrightarrow> \<not> serverid_exists env (lock_pid (lock_ctx x))) \<and>
       stored (lock_data br') = filter (\<lambda>x. \<not> windows_blocks x p) (stored pre) @ stored (l # post) \<and>
       p' = p\<lparr>lock_ctx := (lock_ctx p)\<lparr>smblctx := smblctx (lock_ctx l)\<rparr>\<rparr> \<and>
       status = (if far_offset p \<or> refused_before (brl_fsp br) p then NT_STATUS_FILE_LOCK_CONFLICT
                 else NT_STATUS_LOCK_NOT_GRANTED) \<and>
       brl_fsp br' = (if blocking \<or> \<not> far_offset p \<and> refused_before (brl_fsp br) p then brl_fsp br
                      else (brl_fsp br)\<lparr>last_lock_failure := p'\<rparr>)
     else brl_fsp br' = brl_fsp br \<and>
       (if lower_lock_windows env br p \<noteq> None
        then status = lower_status (lower_lock_windows env br p) \<and> smblctx (lock_ctx p') = 2 ^ 64 - 1 \<and>
          stored (lock_data br') = filter (\<lambda>l. \<not> windows_blocks l p) (stored (lock_data br))
        else if mem 0 = None
        then status = NT_STATUS_NO_MEMORY \<and>
          stored (lock_data br') = filter (\<lambda>l. \<not> windows_blocks l p) (stored (lock_data br))
        else status = NT_STATUS_OK \<and> modified br' \<and>
          stored (lock_data br') = filter (\<lambda>l. \<not> windows_blocks l p) (stored (lock_data br)) @ stored [p]))"
proof (cases "2 ^ 64 < en p")
  case True
  then show ?thesis
    using assms(1) windows_range_wraps [of p] by (simp add: brl_lock_windows_default_def)
next
  case False
  then have p: "en p < 2 ^ 64" and n: "\<not> (start p + lock_size p - 1 < start p \<and> lock_size p \<noteq> 0)"
    using assms(2) windows_range_wraps [of p] by simp_all
  have c: "brl_conflict l p \<longleftrightarrow> windows_blocks l p" if "l \<in> set (lock_data br)" for l
    using brl_conflict_blocks assms(3) p that by simp
  obtain ls' m b where w: "windows_conflict_loop (serverid_exists env) p (lock_data br) = (ls', m, b)"
    by (cases "windows_conflict_loop (serverid_exists env) p (lock_data br)")
  show ?thesis
  proof (cases b)
    case (Some s)
    have "\<exists>l \<in> set (lock_data br). windows_blocks l p \<and> serverid_exists env (lock_pid (lock_ctx l))"
      using windows_conflict_loop_Some [OF w [unfolded Some]] c by auto
    then show ?thesis
      unfolding if_not_P [OF False]
      by (simp only: if_True) (rule windows_lock_refused [OF assms(1) n w [unfolded Some] c])
  next
    case None
    have "\<not> (\<exists>l \<in> set (lock_data br). windows_blocks l p \<and> serverid_exists env (lock_pid (lock_ctx l)))"
      using windows_conflict_loop_None [OF w [unfolded None]] c by auto
    then show ?thesis
      unfolding if_not_P [OF False]
      by (simp only: if_False) (rule windows_lock_free [OF assms(1) n w [unfolded None] c])
  qed
qed

theorem windows_lock_decides_witness:
  "\<exists>br' p' ev. brl_lock_windows_default sample_env (\<lambda>_. Some [])
      (sample_brl 7 [sample_lock 8 0 10 READ_LOCK WINDOWS_LOCK]) (sample_lock 7 5 10 WRITE_LOCK WINDOWS_LOCK) False
      = Some (NT_STATUS_LOCK_NOT_GRANTED, br', p', ev) \<and> smblctx (lock_ctx p') = 8 \<and>
    stored (lock_data br') = [sample_lock 8 0 10 READ_LOCK WINDOWS_LOCK] \<and> last_lock_failure (brl_fsp br') = p'"
proof -
  let ?l = "sample_lock 8 0 10 READ_LOCK WINDOWS_LOCK" and ?p = "sample_lock 7 5 10 WRITE_LOCK WINDOWS_LOCK"
  let ?br = "sample_brl 7 [?l]"
  have a: "lock_type ?p \<noteq> UNLOCK_LOCK" "en ?p \<noteq> 2 ^ 64" "\<forall>l \<in> set (lock_data ?br). en l < 2 ^ 64"
    by (simp_all add: en_def sample_simps)
  have n: "\<not> 2 ^ 64 < en ?p" by (simp add: en_def sample_simps)
  have e: "\<exists>l \<in> set (lock_data ?br). windows_blocks l ?p \<and> serverid_exists sample_env (lock_pid (lock_ctx l))"
    by (simp add: windows_blocks_def ranges_meet_def brl_spec_simps sample_simps)
  have d: "lock_data ?br = pre @ l # post \<Longrightarrow> pre = [] \<and> l = ?l \<and> post = []" for pre l post
    by (auto simp: sample_brl_def Cons_eq_append_conv)
  have f: "\<not> far_offset ?p" "\<not> refused_before (brl_fsp ?br) ?p" "\<not> dead ?l" "smblctx (lock_ctx ?l) = 8"
    by (simp_all add: far_offset_def refused_before_def st_def stored_def dead_def sample_simps)
  show ?thesis
    using windows_lock_decides [OF a, of sample_env "\<lambda>_. Some []" False, unfolded if_not_P [OF n] if_P [OF e]]
    by (auto dest!: d simp: f)
qed



text \<open>C24: releasing a lock wakes the waiters. When an unlock of either flavour has changed the
  array, every process with a pending lock that has a byte in common with the released range is
  sent a message, as long as both ranges end below the end of the 64 bit offsets.\<close>

theorem unlock_wakes_waiters:
  assumes "brl_unlock mem br c i s z f = Some (ok, br', ev)" and "\<not> modified br" and "modified br'"
    and "l \<in> set (lock_data br')" and "lock_type l = PENDING_READ_LOCK \<or> lock_type l = PENDING_WRITE_LOCK"
    and "b \<in> bytes l" and "unat s \<le> b" and "b < unat s + unat z"
    and "en l < 2 ^ 64" and "unat s + unat z < 2 ^ 64"
  shows "ok \<and> MSG_SMB_UNLOCK (lock_pid (lock_ctx l)) \<in> set ev"
proof -
  let ?p = "brl_request (brl_fsp br) c i s z UNLOCK_LOCK f"
  have "MSG_SMB_UNLOCK (lock_pid (lock_ctx l)) \<in> set (unlock_messages ?p (lock_data br'))"
  proof -
    have "lock_size l \<noteq> 0" using assms(6) by (auto simp: bytes_def st_def en_def)
    then have f: "fits ?p" "fits l" using assms(7-10) by (auto simp: fits_def en_def)
    have "b \<in> bytes ?p \<inter> bytes l" using assms(6-8) by (simp add: bytes_def st_def en_def)
    then have "brl_pending_overlap ?p l" using brl_pending_overlap_bytes [OF f] by blast
    then show ?thesis using assms(4,5) by (auto simp: unlock_messages_def IS_PENDING_LOCK_def)
  qed
  moreover have "ok \<and> set (unlock_messages ?p (lock_data br')) \<subseteq> set ev"
  proof (cases f)
    case WINDOWS_LOCK
    then show ?thesis
      using assms(1-3)
      by (auto simp: brl_unlock_def vfswrap_brl_unlock_windows_def brl_unlock_windows_default_def Let_def
          split: option.splits)
  next
    case POSIX_LOCK
    then show ?thesis
      using assms(1-3)
      by (auto simp: brl_unlock_def brl_unlock_posix_def Let_def split: if_splits unlock_scan.splits)
  qed
  ultimately show ?thesis by blast
qed

theorem unlock_wakes_waiters_witness:
  "\<exists>br' ev. brl_unlock (\<lambda>_. Some [])
       (sample_brl 7 [sample_lock 7 0 10 WRITE_LOCK WINDOWS_LOCK, sample_lock 8 5 1 PENDING_READ_LOCK WINDOWS_LOCK])
       7 (sample_pid 7) 0 10 WINDOWS_LOCK = Some (True, br', ev) \<and> MSG_SMB_UNLOCK (sample_pid 8) \<in> set ev"
proof -
  let ?w = "sample_lock 8 5 1 PENDING_READ_LOCK WINDOWS_LOCK"
  let ?br = "sample_brl 7 [sample_lock 7 0 10 WRITE_LOCK WINDOWS_LOCK, ?w]"
  obtain br' ev where r: "brl_unlock (\<lambda>_. Some []) ?br 7 (sample_pid 7) 0 10 WINDOWS_LOCK = Some (True, br', ev)"
    "modified br'" "?w \<in> set (lock_data br')"
    by (simp add: brl_unlock_def vfswrap_brl_unlock_windows_def brl_unlock_windows_default_def brl_request_def
        unlock_windows_match_def brl_delete_lock_struct_def IS_PENDING_LOCK_def sample_simps Let_def)
  have "\<not> modified ?br" "lock_type ?w = PENDING_READ_LOCK \<or> lock_type ?w = PENDING_WRITE_LOCK"
    "lock_pid (lock_ctx ?w) = sample_pid 8" "5 \<in> bytes ?w" "en ?w < 2 ^ 64"
    by (simp_all add: sample_simps bytes_def st_def en_def)
  then show ?thesis using unlock_wakes_waiters [OF r(1) _ r(2,3), of 5] r(1) by auto
qed

text \<open>At the very end of the 64 bit offsets the sum of start and size wraps to zero, and a
  conflict is missed: a write lock on the last five bytes is granted while another context holds
  a write lock on the last ten.\<close>

lemma windows_end_of_offsets_not_exclusive:
  "\<exists>br' p' ev. brl_lock_windows_default sample_env (\<lambda>_. Some [])
      (sample_brl 7 [sample_lock 8 0xFFFFFFFFFFFFFFF6 10 WRITE_LOCK WINDOWS_LOCK])
      (sample_lock 7 0xFFFFFFFFFFFFFFFB 5 WRITE_LOCK WINDOWS_LOCK) False = Some (NT_STATUS_OK, br', p', ev) \<and>
    lock_data br' = [sample_lock 8 0xFFFFFFFFFFFFFFF6 10 WRITE_LOCK WINDOWS_LOCK,
      sample_lock 7 0xFFFFFFFFFFFFFFFB 5 WRITE_LOCK WINDOWS_LOCK]"
  by (simp add: brl_lock_windows_default_def brl_conflict_def brl_overlap_def IS_PENDING_LOCK_def sample_simps Let_def)

text \<open>A POSIX lock that reaches the end of the 64 bit offsets and touches an older lock of the
  same context and type is lost by the merge: after a write lock on the bytes 0 to 9, locking from
  byte 5 to the end is reported as granted, and only the bytes 5 to 9 remain locked.\<close>

lemma posix_lock_to_end_is_lost:
  "\<exists>br' p' ev. brl_lock_posix sample_env (\<lambda>_. Some []) (sample_brl 7 [sample_lock 7 0 10 WRITE_LOCK POSIX_LOCK])
      (sample_lock 7 5 0xFFFFFFFFFFFFFFFB WRITE_LOCK POSIX_LOCK) = Some (NT_STATUS_OK, br', p', ev) \<and>
    lock_data br' = [sample_lock 7 5 5 WRITE_LOCK POSIX_LOCK]"
  by (simp add: brl_lock_posix_def posix_lock_loop.simps brl_conflict_posix_def brlock_posix_split_merge_def
      posix_lock_commit_def scan_copy_def IS_PENDING_LOCK_def sample_simps Let_def)

end
