(* ===== verification/Brlock_Db.thy ===== *)
theory Brlock_Db
  imports Brlock_Windows "HOL-Library.Multiset"
begin

text \<open>
  The lock database of \<open>source3/locking/brlock.c\<close>: reading the array of a file from its record,
  writing it back, and the operations on whole records: marking the locks of a durable handle as
  disconnected and taking them over again, cleaning up, and telling waiting processes to retry.
  The value of a record is the memory image of the array followed by the number of read oplocks;
  the images of the structures are kept as structures.
\<close>

section \<open>Records\<close>

text \<open>A record of \<open>dsize\<close> bytes holds \<open>dsize / sizeof(struct lock_struct)\<close> structures and the
  bytes that remain, fewer than a structure has.\<close>

record tdb_data =
  rec_locks :: "lock_struct list"
  rec_rest :: "u8 list"

definition no_data :: tdb_data where
  "no_data = \<lparr>rec_locks = [], rec_rest = []\<rparr>"

text \<open>The database with the sequence number that every change increments (\<open>TDB_SEQNUM\<close>), and how
  the calls of the database layer turn out.\<close>

record brlock_db =
  db_records :: "file_id \<Rightarrow> tdb_data option"
  db_seqnum :: int

record db_env =
  fetch_locked_ok :: bool
  parse_record_ok :: bool
  record_delete_ok :: bool
  record_store_ok :: bool
  lp_clustering :: bool

definition db_value :: "brlock_db \<Rightarrow> file_id \<Rightarrow> tdb_data" where
  "db_value db key = (case db_records db key of None \<Rightarrow> no_data | Some d \<Rightarrow> d)"

definition db_update :: "brlock_db \<Rightarrow> file_id \<Rightarrow> tdb_data option \<Rightarrow> brlock_db" where
  "db_update db key v = db\<lparr>db_records := (db_records db)(key := v), db_seqnum := db_seqnum db + 1\<rparr>"

section \<open>Reading the array\<close>

definition brl_parse_data :: "talloc \<Rightarrow> byte_range_lock \<Rightarrow> tdb_data \<Rightarrow> byte_range_lock option" where
  "brl_parse_data mem br_lck data =
     (if rec_locks data = [] \<and> rec_rest data = [] then Some br_lck
      else if length (rec_rest data) \<noteq> 4 then None
      else if talloc_fails mem 0 then None
      else Some (br_lck\<lparr>lock_data := rec_locks data, num_read_oplocks := IVAL (rec_rest data) 0\<rparr>))"

definition empty_brl :: "files_struct \<Rightarrow> bool \<Rightarrow> byte_range_lock" where
  "empty_brl fsp rw =
     \<lparr>brl_fsp = fsp, modified = False, num_read_oplocks = 0, lock_data = [], has_record = rw\<rparr>"

definition brl_get_locks :: "db_env \<Rightarrow> talloc \<Rightarrow> brlock_db \<Rightarrow> files_struct \<Rightarrow> byte_range_lock option" where
  "brl_get_locks denv mem db fsp =
     (if talloc_fails mem 0 then None
      else if \<not> fetch_locked_ok denv then None
      else brl_parse_data (\<lambda>k. mem (k + 1)) (empty_brl fsp True) (db_value db (fsp_file_id fsp)))"

text \<open>The read only variant; the result comes with the \<open>files_struct\<close>, whose cache it may have
  filled.\<close>

definition brl_get_locks_readonly_parser :: "talloc \<Rightarrow> files_struct \<Rightarrow> tdb_data \<Rightarrow> byte_range_lock option" where
  "brl_get_locks_readonly_parser mem fsp data =
     (if talloc_fails mem 0 then None
      else brl_parse_data (\<lambda>k. mem (k + 1)) (empty_brl fsp False) data)"

definition brl_read_fresh ::
    "db_env \<Rightarrow> talloc \<Rightarrow> brlock_db \<Rightarrow> files_struct \<Rightarrow> byte_range_lock option \<times> files_struct" where
  "brl_read_fresh denv mem db fsp =
     (let br_lock =
        (case db_records db (fsp_file_id fsp) of
           None \<Rightarrow> if talloc_fails mem 0 then None else Some (empty_brl fsp False)
         | Some data \<Rightarrow>
             if \<not> parse_record_ok denv then None else brl_get_locks_readonly_parser mem fsp data)
      in case br_lock of
           None \<Rightarrow> (None, fsp)
         | Some br \<Rightarrow>
             if lp_clustering denv then (Some br, fsp)
             else let fsp' = fsp\<lparr>brlock_rec := Some (lock_data br, num_read_oplocks br), brlock_seqnum := db_seqnum db\<rparr>
                  in (Some (br\<lparr>brl_fsp := fsp'\<rparr>), fsp'))"

definition brl_get_locks_readonly ::
    "db_env \<Rightarrow> talloc \<Rightarrow> brlock_db \<Rightarrow> files_struct \<Rightarrow> byte_range_lock option \<times> files_struct" where
  "brl_get_locks_readonly denv mem db fsp =
     (case brlock_rec fsp of
        Some (ls, n) \<Rightarrow>
          if db_seqnum db = brlock_seqnum fsp
          then (Some ((empty_brl fsp False)\<lparr>lock_data := ls, num_read_oplocks := n\<rparr>), fsp)
          else brl_read_fresh denv mem db fsp
      | None \<Rightarrow> brl_read_fresh denv mem db fsp)"

section \<open>Writing the array back\<close>

text \<open>The clean up loop of \<open>byte_range_lock_flush\<close>: the entry of a dead process is overwritten by
  the last one, and the array gets shorter.\<close>

function flush_loop :: "nat \<Rightarrow> lock_struct list \<Rightarrow> lock_struct list" where
  "flush_loop i locks =
     (if i < length locks then
        if pid (lock_pid (lock_ctx (locks ! i))) = 0 then flush_loop i (butlast (locks[i := last locks]))
        else flush_loop (i + 1) locks
      else locks)"
  by auto
termination
  by (relation "measure (\<lambda>(i, locks). length locks - i)") auto

declare flush_loop.simps [simp del]

text \<open>\<open>None\<close> stands for the panics of the failing database calls and for the failed assertion on
  the allocation.\<close>

definition byte_range_lock_flush ::
    "db_env \<Rightarrow> talloc \<Rightarrow> brlock_db \<Rightarrow> byte_range_lock \<Rightarrow> brlock_db option" where
  "byte_range_lock_flush denv mem db br_lck =
     (if \<not> modified br_lck then Some db
      else
        let locks = flush_loop 0 (lock_data br_lck);
            key = fsp_file_id (brl_fsp br_lck)
        in if locks = [] \<and> num_read_oplocks br_lck = 0 then
             if record_delete_ok denv then Some (db_update db key None) else None
           else if talloc_fails mem 0 then None
           else if record_store_ok denv then
             Some (db_update db key
               (Some \<lparr>rec_locks = locks, rec_rest = SIVAL (replicate 4 0) 0 (num_read_oplocks br_lck)\<rparr>))
           else None)"

section \<open>Durable handles\<close>

definition TID_FIELD_INVALID :: u32 where
  "TID_FIELD_INVALID = 0"

definition FNUM_FIELD_INVALID :: u64 where
  "FNUM_FIELD_INVALID = 0"

fun mark_disconnected_loop ::
    "u64 \<Rightarrow> u32 \<Rightarrow> server_id \<Rightarrow> u64 \<Rightarrow> lock_struct list \<Rightarrow> lock_struct list option" where
  "mark_disconnected_loop smblctx0 tid0 self fnum0 [] = Some []"
| "mark_disconnected_loop smblctx0 tid0 self fnum0 (lock # ls) =
     (if smblctx (lock_ctx lock) \<noteq> smblctx0 then None
      else if tid (lock_ctx lock) \<noteq> tid0 then None
      else if \<not> server_id_equal (lock_pid (lock_ctx lock)) self then None
      else if fnum lock \<noteq> fnum0 then None
      else map_option ((#) (lock\<lparr>lock_ctx := (lock_ctx lock)\<lparr>
               lock_pid := server_id_set_disconnected (lock_pid (lock_ctx lock)), tid := TID_FIELD_INVALID\<rparr>,
               fnum := FNUM_FIELD_INVALID\<rparr>))
             (mark_disconnected_loop smblctx0 tid0 self fnum0 ls))"

text \<open>The result and the database; on an early return the array was not marked as modified, so
  freeing it stores nothing.\<close>

definition brl_mark_disconnected ::
    "db_env \<Rightarrow> talloc \<Rightarrow> brlock_db \<Rightarrow> files_struct \<Rightarrow> (bool \<times> brlock_db) option" where
  "brl_mark_disconnected denv mem db fsp =
     (case op fsp of
        None \<Rightarrow> Some (False, db)
      | Some (open_persistent_id, durable) \<Rightarrow>
          if \<not> durable then Some (False, db)
          else if current_lock_count fsp = 0 then Some (True, db)
          else
            (case brl_get_locks denv mem db fsp of
               None \<Rightarrow> Some (False, db)
             | Some br_lck \<Rightarrow>
                 (case mark_disconnected_loop open_persistent_id (cnum fsp) (server_self fsp) (fsp_fnum fsp)
                         (lock_data br_lck) of
                    None \<Rightarrow> Some (False, db)
                  | Some locks \<Rightarrow>
                      map_option (Pair True) (byte_range_lock_flush denv (\<lambda>k. mem (k + 2)) db
                        (br_lck\<lparr>lock_data := locks, modified := True\<rparr>)))))"

fun reconnect_loop ::
    "u64 \<Rightarrow> u32 \<Rightarrow> server_id \<Rightarrow> u64 \<Rightarrow> lock_struct list \<Rightarrow> lock_struct list option" where
  "reconnect_loop smblctx0 tid0 self fnum0 [] = Some []"
| "reconnect_loop smblctx0 tid0 self fnum0 (lock # ls) =
     (if smblctx (lock_ctx lock) \<noteq> smblctx0 then None
      else if tid (lock_ctx lock) \<noteq> TID_FIELD_INVALID then None
      else if \<not> server_id_is_disconnected (lock_pid (lock_ctx lock)) then None
      else if fnum lock \<noteq> FNUM_FIELD_INVALID then None
      else map_option ((#) (lock\<lparr>lock_ctx := (lock_ctx lock)\<lparr>lock_pid := self, tid := tid0\<rparr>, fnum := fnum0\<rparr>))
             (reconnect_loop smblctx0 tid0 self fnum0 ls))"

text \<open>The result, the database, and the file with its lock count.\<close>

definition brl_reconnect_disconnected ::
    "db_env \<Rightarrow> talloc \<Rightarrow> brlock_db \<Rightarrow> files_struct \<Rightarrow> (bool \<times> brlock_db \<times> files_struct) option" where
  "brl_reconnect_disconnected denv mem db fsp =
     (case op fsp of
        None \<Rightarrow> Some (False, db, fsp)
      | Some (open_persistent_id, durable) \<Rightarrow>
          if \<not> durable then Some (False, db, fsp)
          else
            (case brl_get_locks denv mem db fsp of
               None \<Rightarrow> Some (False, db, fsp)
             | Some br_lck \<Rightarrow>
                 if lock_data br_lck = [] then Some (True, db, fsp)
                 else
                   (case reconnect_loop open_persistent_id (cnum fsp) (server_self fsp) (fsp_fnum fsp)
                           (lock_data br_lck) of
                      None \<Rightarrow> Some (False, db, fsp)
                    | Some locks \<Rightarrow>
                        map_option (\<lambda>db'. (True, db', fsp\<lparr>current_lock_count := int (length locks)\<rparr>))
                          (byte_range_lock_flush denv (\<lambda>k. mem (k + 2)) db
                            (br_lck\<lparr>lock_data := locks, modified := True\<rparr>)))))"

fun cleanup_check :: "u64 \<Rightarrow> lock_struct list \<Rightarrow> bool" where
  "cleanup_check open_persistent_id [] = True"
| "cleanup_check open_persistent_id (l # ls) =
     (if \<not> server_id_is_disconnected (lock_pid (lock_ctx l)) then False
      else if smblctx (lock_ctx l) \<noteq> open_persistent_id then False
      else cleanup_check open_persistent_id ls)"

text \<open>A record without a value has a null data pointer.\<close>

definition brl_cleanup_disconnected :: "db_env \<Rightarrow> brlock_db \<Rightarrow> file_id \<Rightarrow> u64 \<Rightarrow> bool \<times> brlock_db" where
  "brl_cleanup_disconnected denv db fid open_persistent_id =
     (let val = db_value db fid in
      if \<not> fetch_locked_ok denv then (False, db)
      else if rec_locks val = [] \<and> rec_rest val = [] then (True, db)
      else if \<not> cleanup_check open_persistent_id (rec_locks val) then (False, db)
      else if \<not> record_delete_ok denv then (False, db)
      else (True, db_update db fid None))"

section \<open>Traversal\<close>

text \<open>What \<open>brl_forall\<close> passes to its callback, for a database given as the list of its records in
  the order of the traversal. The traversal stops at the first record whose copy cannot be
  allocated.\<close>

type_synonym lock_info = "file_id \<times> server_id \<times> brl_type \<times> brl_flavour \<times> u64 \<times> u64"

definition brl_traverse_fn :: "file_id \<Rightarrow> tdb_data \<Rightarrow> lock_info list" where
  "brl_traverse_fn key value =
     map (\<lambda>l. (key, lock_pid (lock_ctx l), lock_type l, lock_flav l, start l, lock_size l)) (rec_locks value)"

fun brl_forall :: "talloc \<Rightarrow> (file_id \<times> tdb_data) list \<Rightarrow> lock_info list" where
  "brl_forall mem [] = []"
| "brl_forall mem ((key, value) # rs) =
     (if talloc_fails mem 0 then [] else brl_traverse_fn key value @ brl_forall (\<lambda>k. mem (k + 1)) rs)"

definition brl_revalidate_collect :: "lock_info list \<Rightarrow> server_id list" where
  "brl_revalidate_collect infos =
     map (\<lambda>(_, p, _). p) (filter (\<lambda>(_, _, t, _). IS_PENDING_LOCK t) infos)"

definition compare_procids :: "server_id \<Rightarrow> server_id \<Rightarrow> int" where
  "compare_procids i1 i2 = (if pid i1 < pid i2 then -1 else if pid i1 > pid i2 then 1 else 0)"

text \<open>\<open>TYPESAFE_QSORT\<close> with \<open>compare_procids\<close>, as an insertion sort. Only the order of entries that
  compare equal depends on the algorithm.\<close>

fun insert_procid :: "server_id \<Rightarrow> server_id list \<Rightarrow> server_id list" where
  "insert_procid p [] = [p]"
| "insert_procid p (q # qs) = (if compare_procids p q \<le> 0 then p # q # qs else q # insert_procid p qs)"

definition qsort_procids :: "server_id list \<Rightarrow> server_id list" where
  "qsort_procids ps = foldr insert_procid ps []"

fun revalidate_send :: "server_id \<Rightarrow> server_id list \<Rightarrow> brl_event list" where
  "revalidate_send last_pid [] = []"
| "revalidate_send last_pid (p # ps) =
     (if server_id_equal last_pid p then revalidate_send last_pid ps
      else MSG_SMB_UNLOCK p # revalidate_send p ps)"

definition zero_server_id :: server_id where
  "zero_server_id = \<lparr>pid = 0, task_id = 0, vnn = 0, unique_id = 0\<rparr>"

text \<open>The first allocation is the state, the second stands for growing the array of process
  ids, the others are the copies of the traversal.\<close>

definition brl_revalidate :: "talloc \<Rightarrow> (file_id \<times> tdb_data) list \<Rightarrow> brl_event list" where
  "brl_revalidate mem records =
     (if talloc_fails mem 0 then []
      else
        let pids = brl_revalidate_collect (brl_forall (\<lambda>k. mem (k + 2)) records)
        in if talloc_fails mem 1 then []
           else if pids = [] then []
           else revalidate_send zero_server_id (qsort_procids pids))"

section \<open>Writing the array: lemmas\<close>

lemma butlast_update_mset:
  assumes "i < length xs"
  shows "mset (butlast (xs[i := last xs])) = mset xs - {#xs ! i#}"
proof -
  obtain ys y where x: "xs = ys @ [y]" using assms by (cases xs rule: rev_cases) auto
  show ?thesis
  proof (cases "i = length ys")
    case True
    then show ?thesis using x by simp
  next
    case False
    then have i: "i < length ys" using assms x by simp
    then have "mset (ys[i := y]) = add_mset y (mset ys - {#ys ! i#})" by (simp add: mset_update)
    then show ?thesis using x i by (simp add: list_update_append butlast_append nth_append)
  qed
qed

lemma flush_loop_mset:
  "i \<le> length locks \<Longrightarrow>
     mset (flush_loop i locks) = mset (take i locks) + mset (stored (drop i locks))"
proof (induction i locks rule: flush_loop.induct)
  case (1 i locks)
  show ?case
  proof (cases "i < length locks")
    case True
    note d = Cons_nth_drop_Suc [OF True, symmetric]
    show ?thesis
    proof (cases "pid (lock_pid (lock_ctx (locks ! i))) = 0")
      case dead: True
      let ?xs = "butlast (locks[i := last locks])"
      have t: "take i ?xs = take i locks" using True by (simp add: take_butlast)
      have "mset locks = mset (take i locks) + add_mset (locks ! i) (mset (drop (Suc i) locks))"
        using arg_cong [where f = mset, OF id_take_nth_drop [OF True]] by simp
      then have "mset ?xs = mset (take i locks) + mset (drop (Suc i) locks)"
        by (simp add: butlast_update_mset [OF True])
      then have m: "mset (take i ?xs) + mset (drop i ?xs) = mset (take i locks) + mset (drop (Suc i) locks)"
        by (simp flip: mset_append)
      then have "mset (drop i ?xs) = mset (drop (Suc i) locks)" using t by simp
      then have "mset (stored (drop i ?xs)) = mset (stored (drop (Suc i) locks))"
        by (simp add: stored_def mset_filter)
      moreover have "stored (drop i locks) = stored (drop (Suc i) locks)" using dead d by (simp add: dead_def)
      ultimately show ?thesis using "1.IH"(1) True dead t by (subst flush_loop.simps) simp
    next
      case False
      have "stored (drop i locks) = locks ! i # stored (drop (Suc i) locks)" using False d by (simp add: dead_def)
      then show ?thesis
        using "1.IH"(2) True False by (subst flush_loop.simps) (simp add: take_Suc_conv_app_nth)
    qed
  next
    case False
    then show ?thesis using "1.prems" by (subst flush_loop.simps) simp
  qed
qed

lemma flush_loop_stored: "mset (flush_loop 0 locks) = mset (stored locks)"
  using flush_loop_mset [of 0 locks] by simp

lemma flush_loop_live: "\<forall>l \<in> set (drop i locks). \<not> dead l \<Longrightarrow> flush_loop i locks = locks"
proof (induction i locks rule: flush_loop.induct)
  case (1 i locks)
  show ?case
  proof (cases "i < length locks")
    case True
    then have "\<not> dead (locks ! i)" "\<forall>l \<in> set (drop (i + 1) locks). \<not> dead l"
      using "1.prems" Cons_nth_drop_Suc [OF True, symmetric] by simp_all
    then show ?thesis using "1.IH"(2) True by (subst flush_loop.simps) (simp add: dead_def)
  qed (subst flush_loop.simps, simp)
qed

text \<open>The invariant does not depend on the order of the entries.\<close>

lemma brl_inv_mset: "brl_inv xs \<Longrightarrow> mset xs = mset ys \<Longrightarrow> brl_inv ys"
proof (induction ys arbitrary: xs)
  case (Cons y ys)
  then have "y \<in> set xs" by (metis list.set_intros(1) set_mset_mset)
  then obtain as bs where x: "xs = as @ y # bs" by (meson split_list)
  have "mset (as @ bs) = mset ys" using Cons.prems(2) x by simp
  moreover have "brl_inv (as @ bs)" "lock_ok y" "\<forall>m \<in> set (as @ bs). lock_compat y m"
    using Cons.prems(1) x lock_compat_sym by (auto simp: brl_inv_append brl_inv_Cons)
  ultimately show ?case using Cons.IH by (metis brl_inv_Cons mset_eq_setD)
qed simp

section \<open>The database\<close>

text \<open>The records of a database: empty or ending in an oplock count, without entries of dead
  processes, and with the invariant of the array.\<close>

definition record_ok :: "tdb_data \<Rightarrow> bool" where
  "record_ok d \<longleftrightarrow> brl_inv (rec_locks d) \<and> (\<forall>l \<in> set (rec_locks d). \<not> dead l) \<and>
     (d = no_data \<or> length (rec_rest d) = 4)"

definition db_inv :: "brlock_db \<Rightarrow> bool" where
  "db_inv db \<longleftrightarrow> (\<forall>key. record_ok (db_value db key))"

lemma no_data_ok [simp]: "record_ok no_data"
  by (simp add: record_ok_def no_data_def)

lemma db_value_update [simp]:
  "db_value (db_update db key v) k = (if k = key then (case v of None \<Rightarrow> no_data | Some d \<Rightarrow> d) else db_value db k)"
  by (simp add: db_value_def db_update_def)

lemma db_inv_update: "db_inv db \<Longrightarrow> (\<And>d. v = Some d \<Longrightarrow> record_ok d) \<Longrightarrow> db_inv (db_update db key v)"
  by (auto simp: db_inv_def split: option.splits)

lemma brl_get_locks_data:
  assumes "brl_get_locks denv mem db fsp = Some br"
  shows "lock_data br = rec_locks (db_value db (fsp_file_id fsp))" "brl_fsp br = fsp" "\<not> modified br"
    "has_record br"
  using assms by (auto simp: brl_get_locks_def brl_parse_data_def empty_brl_def split: if_splits)

lemma brl_get_locks_works:
  assumes "db_inv db" "fetch_locked_ok denv" "\<forall>k. mem k \<noteq> None"
  shows "\<exists>br. brl_get_locks denv mem db fsp = Some br"
proof -
  have "db_value db (fsp_file_id fsp) = no_data \<or> length (rec_rest (db_value db (fsp_file_id fsp))) = 4"
    using assms(1) by (simp add: db_inv_def record_ok_def)
  moreover have "mem 0 \<noteq> None" "mem 1 \<noteq> None" using assms(3) by blast+
  ultimately show ?thesis
    using assms(2) by (auto simp: brl_get_locks_def brl_parse_data_def no_data_def)
qed

lemma flush_db_inv:
  assumes "byte_range_lock_flush denv mem db br = Some db'" "db_inv db" "brl_inv (stored (lock_data br))"
  shows "db_inv db'"
proof -
  note m = flush_loop_stored [of "lock_data br"]
  have "brl_inv (flush_loop 0 (lock_data br))" using assms(3) m by (metis brl_inv_mset)
  moreover have "\<forall>l \<in> set (flush_loop 0 (lock_data br)). \<not> dead l"
    using mset_eq_setD [OF m] by (auto simp: set_stored)
  ultimately show ?thesis
    using assms(1,2) by (auto simp: byte_range_lock_flush_def record_ok_def Let_def split: if_splits intro!: db_inv_update)
qed

lemma flush_db_value:
  assumes "modified br" "\<forall>l \<in> set (lock_data br). \<not> dead l" "lock_data br \<noteq> []" "mem 0 \<noteq> None" "record_store_ok denv"
  shows "byte_range_lock_flush denv mem db br = Some (db_update db (fsp_file_id (brl_fsp br))
    (Some \<lparr>rec_locks = lock_data br, rec_rest = SIVAL (replicate 4 0) 0 (num_read_oplocks br)\<rparr>))"
  using assms flush_loop_live [of 0 "lock_data br"] by (simp add: byte_range_lock_flush_def)

section \<open>Disconnecting and reconnecting\<close>

text \<open>The context of a file handle: the persistent id with the tree and the server.\<close>

definition handle_ctx :: "files_struct \<Rightarrow> u64 \<Rightarrow> lock_context" where
  "handle_ctx fsp p = \<lparr>smblctx = p, tid = cnum fsp, lock_pid = server_self fsp\<rparr>"

definition rehome :: "lock_context \<Rightarrow> u64 \<Rightarrow> lock_struct \<Rightarrow> lock_struct" where
  "rehome c f l = l\<lparr>lock_ctx := c, fnum := f\<rparr>"

definition disconnected_ctx :: "u64 \<Rightarrow> lock_context" where
  "disconnected_ctx p = \<lparr>smblctx = p, tid = TID_FIELD_INVALID, lock_pid = disconnected_id\<rparr>"

lemma rehome_rehome [simp]: "rehome c f (rehome d g l) = rehome c f l"
  by (simp add: rehome_def)

lemma mark_disconnected_loop_eq:
  "mark_disconnected_loop p (cnum fsp) (server_self fsp) f ls =
     (if \<forall>l \<in> set ls. lock_ctx l = handle_ctx fsp p \<and> fnum l = f
      then Some (map (rehome (disconnected_ctx p) FNUM_FIELD_INVALID) ls) else None)"
proof (induction ls)
  case (Cons l ls)
  have "lock_ctx l = handle_ctx fsp p \<longleftrightarrow>
      smblctx (lock_ctx l) = p \<and> tid (lock_ctx l) = cnum fsp \<and> lock_pid (lock_ctx l) = server_self fsp"
    by (cases "lock_ctx l") (simp add: handle_ctx_def)
  then show ?case using Cons by (auto simp: rehome_def disconnected_ctx_def handle_ctx_def)
qed simp

lemma reconnect_loop_eq:
  "reconnect_loop p (cnum fsp) (server_self fsp) f ls =
     (if \<forall>l \<in> set ls. lock_ctx l = disconnected_ctx p \<and> fnum l = FNUM_FIELD_INVALID
      then Some (map (rehome (handle_ctx fsp p) f) ls) else None)"
proof (induction ls)
  case (Cons l ls)
  have "lock_ctx l = disconnected_ctx p \<longleftrightarrow>
      smblctx (lock_ctx l) = p \<and> tid (lock_ctx l) = TID_FIELD_INVALID \<and> lock_pid (lock_ctx l) = disconnected_id"
    by (cases "lock_ctx l") (simp add: disconnected_ctx_def)
  then show ?case using Cons by (auto simp: rehome_def disconnected_ctx_def handle_ctx_def)
qed simp

lemma rehome_inv:
  assumes "brl_inv ls" "\<forall>l \<in> set ls. lock_ctx l = c"
  shows "brl_inv (map (rehome d f) ls)"
  using assms
proof (induction ls)
  case (Cons l ls)
  have "lock_compat (rehome d f l) (rehome d f m)" if "m \<in> set ls" for m
    using that Cons.prems
    by (auto simp: brl_inv_Cons lock_compat_def exclusive_def posix_disjoint_def rehome_def posix_def bytes_def st_def en_def)
  moreover have "lock_ok (rehome d f l)" using Cons.prems by (simp add: brl_inv_Cons lock_ok_def rehome_def posix_def en_def)
  ultimately show ?case using Cons by (auto simp: brl_inv_Cons)
qed simp

lemma rehome_dead: "dead (rehome c f l) \<longleftrightarrow> pid (lock_pid c) = 0"
  by (simp add: dead_def rehome_def)

lemma stored_rehome: "pid (lock_pid c) \<noteq> 0 \<Longrightarrow> stored (map (rehome c f) ls) = map (rehome c f) ls"
  by (induction ls) (simp_all add: rehome_dead)

lemma disconnected_ctx_pid [simp]: "pid (lock_pid (disconnected_ctx p)) \<noteq> 0"
  by (simp add: disconnected_ctx_def disconnected_id_def UINT64_MAX_def)

lemma brl_mark_disconnected_inv:
  assumes "brl_mark_disconnected denv mem db fsp = Some (ok, db')" "db_inv db"
  shows "db_inv db'"
proof (cases "db' = db")
  case False
  then obtain p br ls where g: "brl_get_locks denv mem db fsp = Some br"
    and m: "mark_disconnected_loop p (cnum fsp) (server_self fsp) (fsp_fnum fsp) (lock_data br) = Some ls"
    and f: "byte_range_lock_flush denv (\<lambda>k. mem (k + 2)) db (br\<lparr>lock_data := ls, modified := True\<rparr>) = Some db'"
    using assms(1) by (auto simp: brl_mark_disconnected_def split: option.splits if_splits prod.splits)
  have i: "brl_inv (lock_data br)"
    using assms(2) brl_get_locks_data(1) [OF g] by (simp add: db_inv_def record_ok_def)
  have "\<forall>l \<in> set (lock_data br). lock_ctx l = handle_ctx fsp p"
    and e: "ls = map (rehome (disconnected_ctx p) FNUM_FIELD_INVALID) (lock_data br)"
    using m by (auto simp: mark_disconnected_loop_eq split: if_splits)
  then have "brl_inv ls" unfolding e by (intro rehome_inv [OF i])
  then show ?thesis using flush_db_inv [OF f assms(2)] brl_inv_stored by simp
qed (use assms in simp)

lemma brl_reconnect_disconnected_inv:
  assumes "brl_reconnect_disconnected denv mem db fsp = Some (ok, db', fsp')" "db_inv db"
  shows "db_inv db'"
proof (cases "db' = db")
  case False
  then obtain p br ls where g: "brl_get_locks denv mem db fsp = Some br"
    and m: "reconnect_loop p (cnum fsp) (server_self fsp) (fsp_fnum fsp) (lock_data br) = Some ls"
    and f: "byte_range_lock_flush denv (\<lambda>k. mem (k + 2)) db (br\<lparr>lock_data := ls, modified := True\<rparr>) = Some db'"
    using assms(1) by (auto simp: brl_reconnect_disconnected_def split: option.splits if_splits prod.splits)
  have i: "brl_inv (lock_data br)"
    using assms(2) brl_get_locks_data(1) [OF g] by (simp add: db_inv_def record_ok_def)
  have "\<forall>l \<in> set (lock_data br). lock_ctx l = disconnected_ctx p"
    and e: "ls = map (rehome (handle_ctx fsp p) (fsp_fnum fsp)) (lock_data br)"
    using m by (auto simp: reconnect_loop_eq split: if_splits)
  then have "brl_inv ls" unfolding e by (intro rehome_inv [OF i])
  then show ?thesis using flush_db_inv [OF f assms(2)] brl_inv_stored by simp
qed (use assms in simp)

lemma brl_cleanup_disconnected_inv:
  "brl_cleanup_disconnected denv db fid p = (ok, db') \<Longrightarrow> db_inv db \<Longrightarrow> db_inv db'"
  by (auto simp: brl_cleanup_disconnected_def Let_def split: if_splits intro!: db_inv_update)

text \<open>Disconnecting, when every lock of the file belongs to the handle.\<close>

lemma brl_mark_disconnected_eq:
  assumes "db_inv db" "fetch_locked_ok denv" "record_store_ok denv" "\<forall>k. mem k \<noteq> None"
    and "op fsp = Some (p, True)" "current_lock_count fsp \<noteq> 0"
    and "ls = rec_locks (db_value db (fsp_file_id fsp))" "ls \<noteq> []"
    and "\<forall>l \<in> set ls. lock_ctx l = handle_ctx fsp p \<and> fnum l = fsp_fnum fsp"
  shows "\<exists>rest. length rest = 4 \<and> brl_mark_disconnected denv mem db fsp = Some (True, db_update db (fsp_file_id fsp)
    (Some \<lparr>rec_locks = map (rehome (disconnected_ctx p) FNUM_FIELD_INVALID) ls, rec_rest = rest\<rparr>))"
proof -
  obtain br where g: "brl_get_locks denv mem db fsp = Some br" using brl_get_locks_works assms(1,2,4) by blast
  note b = brl_get_locks_data [OF g]
  let ?m = "map (rehome (disconnected_ctx p) FNUM_FIELD_INVALID) ls"
  have "byte_range_lock_flush denv (\<lambda>k. mem (k + 2)) db (br\<lparr>lock_data := ?m, modified := True\<rparr>) =
      Some (db_update db (fsp_file_id fsp)
        (Some \<lparr>rec_locks = ?m, rec_rest = SIVAL (replicate 4 0) 0 (num_read_oplocks br)\<rparr>))"
    using flush_db_value [of "br\<lparr>lock_data := ?m, modified := True\<rparr>" "\<lambda>k. mem (k + 2)" denv db] assms(3,4,8) b(2)
    by (auto simp: rehome_dead)
  then have "brl_mark_disconnected denv mem db fsp = Some (True, db_update db (fsp_file_id fsp)
        (Some \<lparr>rec_locks = ?m, rec_rest = SIVAL (replicate 4 0) 0 (num_read_oplocks br)\<rparr>))"
    using assms(5,6,7,9) g b by (simp add: brl_mark_disconnected_def mark_disconnected_loop_eq)
  then show ?thesis by (intro exI conjI) auto
qed

section \<open>Telling waiting processes to retry\<close>

definition pending_pids :: "(file_id \<times> tdb_data) list \<Rightarrow> server_id set" where
  "pending_pids records =
     {lock_pid (lock_ctx l) |l key d. (key, d) \<in> set records \<and> l \<in> set (rec_locks d) \<and> IS_PENDING_LOCK (lock_type l)}"

lemma brl_forall_works: "\<forall>k. mem k \<noteq> None \<Longrightarrow> brl_forall mem rs = concat (map (\<lambda>(k, v). brl_traverse_fn k v) rs)"
proof (induction mem rs rule: brl_forall.induct)
  case (2 mem key v rs)
  then obtain y where "mem 0 = Some y" by blast
  then show ?case using 2 by simp
qed simp

lemma collect_append: "brl_revalidate_collect (xs @ ys) = brl_revalidate_collect xs @ brl_revalidate_collect ys"
  by (simp add: brl_revalidate_collect_def)

lemma collect_traverse:
  "brl_revalidate_collect (brl_traverse_fn key d) =
     map (\<lambda>l. lock_pid (lock_ctx l)) (filter (\<lambda>l. IS_PENDING_LOCK (lock_type l)) (rec_locks d))"
  by (simp add: brl_revalidate_collect_def brl_traverse_fn_def filter_map comp_def)

lemma pending_pids_Cons:
  "pending_pids ((key, d) # rs) =
     (\<lambda>l. lock_pid (lock_ctx l)) ` {l \<in> set (rec_locks d). IS_PENDING_LOCK (lock_type l)} \<union> pending_pids rs"
  unfolding pending_pids_def by (rule set_eqI) (simp, blast)

lemma collect_pending:
  assumes "\<forall>k. mem k \<noteq> None"
  shows "set (brl_revalidate_collect (brl_forall mem rs)) = pending_pids rs"
  unfolding brl_forall_works [OF assms]
proof (induction rs)
  case Nil
  show ?case by (simp add: brl_revalidate_collect_def pending_pids_def)
next
  case (Cons r rs)
  obtain key d where "r = (key, d)" by (cases r)
  then show ?case using Cons by (simp add: collect_append collect_traverse pending_pids_Cons)
qed

lemma insert_procid_mset [simp]: "mset (insert_procid p qs) = add_mset p (mset qs)"
  by (induction qs) auto

lemma compare_procids_le: "compare_procids p q \<le> 0 \<longleftrightarrow> pid p \<le> pid q"
  by (auto simp: compare_procids_def)

lemma insert_procid_sorted: "sorted (map pid qs) \<Longrightarrow> sorted (map pid (insert_procid p qs))"
proof (induction qs)
  case (Cons q qs)
  have "set (insert_procid p qs) = insert p (set qs)" by (induction qs) auto
  then show ?case using Cons by (auto simp: compare_procids_le)
qed simp

lemma qsort_procids: "set (qsort_procids ps) = set ps" "sorted (map pid (qsort_procids ps))"
proof -
  have "mset (qsort_procids ps) = mset ps" unfolding qsort_procids_def by (induction ps) simp_all
  then show "set (qsort_procids ps) = set ps" by (rule mset_eq_setD)
  show "sorted (map pid (qsort_procids ps))" unfolding qsort_procids_def by (induction ps) (simp_all add: insert_procid_sorted)
qed

lemma revalidate_send_set:
  "p \<in> set ps \<Longrightarrow> p \<noteq> q \<Longrightarrow> MSG_SMB_UNLOCK p \<in> set (revalidate_send q ps)"
  "set (revalidate_send q ps) \<subseteq> MSG_SMB_UNLOCK ` set ps"
proof -
  show "p \<in> set ps \<Longrightarrow> p \<noteq> q \<Longrightarrow> MSG_SMB_UNLOCK p \<in> set (revalidate_send q ps)"
  proof (induction ps arbitrary: q)
    case (Cons r ps)
    then show ?case by (cases "p = r") auto
  qed simp
  show "set (revalidate_send q ps) \<subseteq> MSG_SMB_UNLOCK ` set ps"
  proof (induction ps arbitrary: q)
    case (Cons r ps)
    show ?case using Cons [of q] Cons [of r] by auto
  qed simp
qed

lemma revalidate_send_distinct:
  "sorted (map pid (q # ps)) \<Longrightarrow> inj_on pid (set (q # ps)) \<Longrightarrow>
     distinct (revalidate_send q ps) \<and> MSG_SMB_UNLOCK q \<notin> set (revalidate_send q ps)"
proof (induction ps arbitrary: q)
  case (Cons p ps)
  show ?case
  proof (cases "q = p")
    case True
    then show ?thesis using Cons by simp
  next
    case False
    have i: "inj_on pid (set (p # ps))" using Cons.prems(2) by (auto intro: inj_on_subset)
    have "pid q \<noteq> pid p" using False Cons.prems(2) by (auto simp: inj_on_def)
    then have "pid q < pid p" using Cons.prems(1) by (simp add: order_less_le)
    then have "q \<notin> set ps" using Cons.prems(1) by auto
    then have "MSG_SMB_UNLOCK q \<notin> set (revalidate_send p ps)" using revalidate_send_set(2) [of p ps] by auto
    then show ?thesis using Cons.IH [OF _ i] Cons.prems(1) False by auto
  qed
qed simp

section \<open>Properties\<close>

text \<open>C18: locks survive a disconnect. When all locks of a file belong to a durable handle,
  disconnecting the handle and reconnecting with the same persistent id both succeed, and the
  record then holds the same locks, in the same order, with the context and the number of the new
  handle, whose lock count is their number. No other file is touched.\<close>

theorem disconnect_reconnect_roundtrip:
  assumes "db_inv db" and "fetch_locked_ok denv" and "record_store_ok denv" and "\<forall>k. mem k \<noteq> None"
    and "op fsp = Some (p, True)" and "current_lock_count fsp \<noteq> 0"
    and "ls = rec_locks (db_value db (fsp_file_id fsp))" and "ls \<noteq> []"
    and "\<forall>l \<in> set ls. lock_ctx l = handle_ctx fsp p \<and> fnum l = fsp_fnum fsp"
    and "op fsp2 = Some (p, True)" and "fsp_file_id fsp2 = fsp_file_id fsp" and "pid (server_self fsp2) \<noteq> 0"
  shows "\<exists>db1 db2 fsp3. brl_mark_disconnected denv mem db fsp = Some (True, db1) \<and>
    brl_reconnect_disconnected denv mem db1 fsp2 = Some (True, db2, fsp3) \<and>
    rec_locks (db_value db2 (fsp_file_id fsp)) = map (rehome (handle_ctx fsp2 p) (fsp_fnum fsp2)) ls \<and>
    current_lock_count fsp3 = int (length ls) \<and>
    (\<forall>key. key \<noteq> fsp_file_id fsp \<longrightarrow> db_value db2 key = db_value db key)"
proof -
  let ?m = "map (rehome (disconnected_ctx p) FNUM_FIELD_INVALID) ls"
  obtain rest where d: "brl_mark_disconnected denv mem db fsp = Some (True, db_update db (fsp_file_id fsp)
      (Some \<lparr>rec_locks = ?m, rec_rest = rest\<rparr>))"
    using brl_mark_disconnected_eq [OF assms(1-9)] by blast
  let ?db1 = "db_update db (fsp_file_id fsp) (Some \<lparr>rec_locks = ?m, rec_rest = rest\<rparr>)"
  have "db_inv ?db1" by (rule brl_mark_disconnected_inv [OF d assms(1)])
  then obtain br where g: "brl_get_locks denv mem ?db1 fsp2 = Some br"
    using brl_get_locks_works assms(2,4) by blast
  have b: "lock_data br = ?m" "brl_fsp br = fsp2"
    using brl_get_locks_data [OF g] assms(11) by simp_all
  let ?n = "map (rehome (handle_ctx fsp2 p) (fsp_fnum fsp2)) ls"
  let ?db2 = "db_update ?db1 (fsp_file_id fsp)
        (Some \<lparr>rec_locks = ?n, rec_rest = SIVAL (replicate 4 0) 0 (num_read_oplocks br)\<rparr>)"
  have f: "byte_range_lock_flush denv (\<lambda>k. mem (k + 2)) ?db1 (br\<lparr>lock_data := ?n, modified := True\<rparr>) = Some ?db2"
    using flush_db_value [of "br\<lparr>lock_data := ?n, modified := True\<rparr>" "\<lambda>k. mem (k + 2)" denv ?db1] assms(3,4,8,11,12) b(2)
    by (auto simp: rehome_dead handle_ctx_def)
  have "reconnect_loop p (cnum fsp2) (server_self fsp2) (fsp_fnum fsp2) (lock_data br) = Some ?n"
    unfolding reconnect_loop_eq b(1) by (simp add: rehome_def comp_def)
  then have "brl_reconnect_disconnected denv mem ?db1 fsp2 =
      Some (True, ?db2, fsp2\<lparr>current_lock_count := int (length ls)\<rparr>)"
    using assms(8,10) g f b(1) by (simp add: brl_reconnect_disconnected_def)
  then show ?thesis using d by (intro exI conjI) (assumption+, auto)
qed

definition sample_handle :: "u64 \<Rightarrow> files_struct" where
  "sample_handle n = (sample_fsp n)\<lparr>op := Some (9, True), current_lock_count := 1\<rparr>"

definition sample_db :: brlock_db where
  "sample_db =
     \<lparr>db_records = (\<lambda>key. Some \<lparr>rec_locks = [(sample_lock 7 0 10 WRITE_LOCK WINDOWS_LOCK)
         \<lparr>lock_ctx := handle_ctx (sample_handle 7) 9\<rparr>], rec_rest = [0, 0, 0, 0]\<rparr>), db_seqnum = 0\<rparr>"

definition sample_db_env :: db_env where
  "sample_db_env = \<lparr>fetch_locked_ok = True, parse_record_ok = True, record_delete_ok = True, record_store_ok = True,
     lp_clustering = False\<rparr>"

theorem disconnect_reconnect_roundtrip_witness:
  "\<exists>db1 db2 fsp3. brl_mark_disconnected sample_db_env (\<lambda>_. Some []) sample_db (sample_handle 7) = Some (True, db1) \<and>
    brl_reconnect_disconnected sample_db_env (\<lambda>_. Some []) db1 (sample_handle 8) = Some (True, db2, fsp3) \<and>
    current_lock_count fsp3 = 1"
proof -
  let ?ls = "[(sample_lock 7 0 10 WRITE_LOCK WINDOWS_LOCK)\<lparr>lock_ctx := handle_ctx (sample_handle 7) 9\<rparr>]"
  have i: "db_inv sample_db"
    by (simp add: db_inv_def record_ok_def db_value_def sample_db_def brl_spec_simps dead_def handle_ctx_def
        sample_handle_def sample_simps)
  have l: "?ls = rec_locks (db_value sample_db (fsp_file_id (sample_handle 7)))" "?ls \<noteq> []"
    "\<forall>l \<in> set ?ls. lock_ctx l = handle_ctx (sample_handle 7) 9 \<and> fnum l = fsp_fnum (sample_handle 7)"
    by (simp_all add: db_value_def sample_db_def sample_handle_def sample_lock_def sample_fsp_def)
  have h: "op (sample_handle n) = Some (9, True)" "current_lock_count (sample_handle n) \<noteq> 0"
    "fsp_file_id (sample_handle 8) = fsp_file_id (sample_handle 7)" "pid (server_self (sample_handle 8)) \<noteq> 0"
    "fetch_locked_ok sample_db_env" "record_store_ok sample_db_env" "\<forall>k. (\<lambda>_. Some []) k \<noteq> None" for n
    by (simp_all add: sample_handle_def sample_fsp_def sample_pid_def sample_db_env_def)
  obtain db1 db2 fsp3 where "brl_mark_disconnected sample_db_env (\<lambda>_. Some []) sample_db (sample_handle 7) = Some (True, db1)"
    "brl_reconnect_disconnected sample_db_env (\<lambda>_. Some []) db1 (sample_handle 8) = Some (True, db2, fsp3)"
    "current_lock_count fsp3 = int (length ?ls)"
    using disconnect_reconnect_roundtrip [OF i h(5,6,7,1,2) l h(1,3,4)] by blast
  then show ?thesis by auto
qed

text \<open>C25: the revalidation reaches everybody who waits. With enough memory every process with a
  pending lock is told to retry and nobody else is; when the process ids tell the waiting
  processes apart, nobody is told twice.\<close>

theorem revalidate_reaches_waiters:
  assumes "\<forall>k. mem k \<noteq> None"
  shows "MSG_SMB_UNLOCK ` (pending_pids records - {zero_server_id}) \<subseteq> set (brl_revalidate mem records) \<and>
    set (brl_revalidate mem records) \<subseteq> MSG_SMB_UNLOCK ` pending_pids records \<and>
    (inj_on pid (insert zero_server_id (pending_pids records)) \<longrightarrow> distinct (brl_revalidate mem records))"
proof -
  define ps where "ps = qsort_procids (brl_revalidate_collect (brl_forall (\<lambda>k. mem (k + 2)) records))"
  have s: "set ps = pending_pids records"
    unfolding ps_def qsort_procids(1) by (rule collect_pending) (use assms in simp)
  have m: "mem 0 \<noteq> None" "mem 1 \<noteq> None" using assms by blast+
  then have r: "brl_revalidate mem records = revalidate_send zero_server_id ps"
    by (auto simp: brl_revalidate_def ps_def qsort_procids_def Let_def)
  have "pid zero_server_id = 0" by (simp add: zero_server_id_def)
  then have "sorted (map pid (zero_server_id # ps))" using qsort_procids(2) by (simp add: ps_def)
  then have "inj_on pid (insert zero_server_id (pending_pids records)) \<longrightarrow> distinct (revalidate_send zero_server_id ps)"
    using revalidate_send_distinct [of zero_server_id ps] s by simp
  then show ?thesis
    unfolding r using revalidate_send_set(1) [of _ ps zero_server_id] revalidate_send_set(2) [of zero_server_id ps] s by blast
qed

theorem revalidate_reaches_waiters_witness:
  "MSG_SMB_UNLOCK (sample_pid 8) \<in> set (brl_revalidate (\<lambda>_. Some [])
     [(\<lparr>devid = 1, inode = 2, extid = 0\<rparr>,
       \<lparr>rec_locks = [sample_lock 8 0 10 PENDING_WRITE_LOCK WINDOWS_LOCK], rec_rest = [0, 0, 0, 0]\<rparr>)])"
  using revalidate_reaches_waiters [of "\<lambda>_. Some []" "[(\<lparr>devid = 1, inode = 2, extid = 0\<rparr>,
       \<lparr>rec_locks = [sample_lock 8 0 10 PENDING_WRITE_LOCK WINDOWS_LOCK], rec_rest = [0, 0, 0, 0]\<rparr>)]"]
  by (auto simp: pending_pids_def IS_PENDING_LOCK_def sample_lock_def sample_pid_def zero_server_id_def)

text \<open>C26: the clean up before the array is stored drops exactly the entries whose process id is
  zero and keeps all others, in some order.\<close>

theorem flush_drops_dead:
  "mset (flush_loop 0 locks) = filter_mset (\<lambda>l. pid (lock_pid (lock_ctx l)) \<noteq> 0) (mset locks)"
  using flush_loop_stored [of locks] by (simp add: stored_def dead_def mset_filter)

end
