(* ===== verification/Locking.thy ===== *)
theory Locking
  imports Brlock_Db
begin

text \<open>
  The byte range part of \<open>source3/locking/locking.c\<close>: what the request handlers call to take,
  release, query and cancel locks, to check reads and writes against them, and to drop the locks of
  a file that is closed. Each operation fetches the record of the file, which stays locked, and
  writes it back, so the operations of all processes on a file follow each other; the step relation
  at the end of the theory is their interleaving, and its invariant is mutual exclusion.
\<close>

section \<open>Names\<close>

definition lock_type_name :: "brl_type \<Rightarrow> string" where
  "lock_type_name t =
     (case t of READ_LOCK \<Rightarrow> ''READ'' | WRITE_LOCK \<Rightarrow> ''WRITE'' | PENDING_READ_LOCK \<Rightarrow> ''PENDING_READ''
      | PENDING_WRITE_LOCK \<Rightarrow> ''PENDING_WRITE'' | UNLOCK_LOCK \<Rightarrow> ''other'')"

definition lock_flav_name :: "brl_flavour \<Rightarrow> string" where
  "lock_flav_name f = (if f = WINDOWS_LOCK then ''WINDOWS_LOCK'' else ''POSIX_LOCK'')"

section \<open>The lock counter of a file\<close>

definition NO_LOCKING_COUNT :: int where
  "NO_LOCKING_COUNT = -1"

definition increment_current_lock_count :: "files_struct \<Rightarrow> brl_flavour \<Rightarrow> files_struct" where
  "increment_current_lock_count fsp flav =
     (if flav = WINDOWS_LOCK \<and> current_lock_count fsp \<noteq> NO_LOCKING_COUNT
      then fsp\<lparr>current_lock_count := current_lock_count fsp + 1\<rparr>
      else fsp\<lparr>current_lock_count := NO_LOCKING_COUNT\<rparr>)"

definition decrement_current_lock_count :: "files_struct \<Rightarrow> brl_flavour \<Rightarrow> files_struct option" where
  "decrement_current_lock_count fsp flav =
     (if flav = WINDOWS_LOCK \<and> current_lock_count fsp \<noteq> NO_LOCKING_COUNT then
        if current_lock_count fsp > 0 then Some (fsp\<lparr>current_lock_count := current_lock_count fsp - 1\<rparr>)
        else None
      else Some fsp)"

definition cannot_lock_status :: "files_struct \<Rightarrow> NTSTATUS" where
  "cannot_lock_status fsp =
     (if is_directory fsp then NT_STATUS_INVALID_DEVICE_REQUEST else NT_STATUS_INVALID_HANDLE)"

section \<open>Locking and unlocking\<close>

text \<open>The result of \<open>do_lock\<close>: the status, the lock array of the file, which the caller frees and
  thereby stores, the file, the blocking context, and the events.\<close>

definition do_lock ::
    "brl_env \<Rightarrow> db_env \<Rightarrow> talloc \<Rightarrow> brlock_db \<Rightarrow> files_struct \<Rightarrow> u64 \<Rightarrow> u64 \<Rightarrow> u64 \<Rightarrow> brl_type \<Rightarrow>
     brl_flavour \<Rightarrow> bool \<Rightarrow>
     (NTSTATUS \<times> byte_range_lock option \<times> files_struct \<times> u64 option \<times> brl_event list) option" where
  "do_lock env denv mem db fsp smblctx0 count0 offset ltype flav blocking_lock =
     (if print_file fsp then Some (NT_STATUS_OK, None, fsp, None, [])
      else if \<not> can_lock fsp then Some (cannot_lock_status fsp, None, fsp, None, [])
      else if \<not> lp_locking fsp then Some (NT_STATUS_OK, None, fsp, None, [])
      else
        (case brl_get_locks denv mem db fsp of
           None \<Rightarrow> Some (NT_STATUS_NO_MEMORY, None, fsp, None, [])
         | Some br_lck \<Rightarrow>
             map_option (\<lambda>(perr, br, psmblctx, ev).
                 let fsp' = increment_current_lock_count (brl_fsp br) flav
                 in (perr, Some (br\<lparr>brl_fsp := fsp'\<rparr>), fsp', psmblctx, ev))
               (brl_lock env (\<lambda>k. mem (k + 2)) br_lck smblctx0 (server_self fsp) offset count0 ltype flav
                 blocking_lock)))"

text \<open>The others free the array themselves; the database is part of their result.\<close>

definition do_unlock ::
    "db_env \<Rightarrow> talloc \<Rightarrow> brlock_db \<Rightarrow> files_struct \<Rightarrow> u64 \<Rightarrow> u64 \<Rightarrow> u64 \<Rightarrow> brl_flavour \<Rightarrow>
     (NTSTATUS \<times> brlock_db \<times> files_struct \<times> brl_event list) option" where
  "do_unlock denv mem db fsp smblctx0 count0 offset flav =
     (if \<not> can_lock fsp then Some (cannot_lock_status fsp, db, fsp, [])
      else if \<not> lp_locking fsp then Some (NT_STATUS_OK, db, fsp, [])
      else
        (case brl_get_locks denv mem db fsp of
           None \<Rightarrow> Some (NT_STATUS_NO_MEMORY, db, fsp, [])
         | Some br_lck \<Rightarrow>
             (case brl_unlock (\<lambda>k. mem (k + 2)) br_lck smblctx0 (server_self fsp) offset count0 flav of
                None \<Rightarrow> None
              | Some (ok, br, ev) \<Rightarrow>
                  (case byte_range_lock_flush denv (\<lambda>k. mem (k + 4)) db br of
                     None \<Rightarrow> None
                   | Some db' \<Rightarrow>
                       if \<not> ok then Some (NT_STATUS_RANGE_NOT_LOCKED, db', fsp, ev)
                       else map_option (\<lambda>fsp'. (NT_STATUS_OK, db', fsp', ev))
                              (decrement_current_lock_count fsp flav)))))"

definition do_lock_cancel ::
    "db_env \<Rightarrow> talloc \<Rightarrow> brlock_db \<Rightarrow> files_struct \<Rightarrow> u64 \<Rightarrow> u64 \<Rightarrow> u64 \<Rightarrow> brl_flavour \<Rightarrow>
     (NTSTATUS \<times> brlock_db \<times> files_struct) option" where
  "do_lock_cancel denv mem db fsp smblctx0 count0 offset flav =
     (if \<not> can_lock fsp then Some (cannot_lock_status fsp, db, fsp)
      else if \<not> lp_locking fsp then Some (NT_STATUS_DOS_ERRcancelviolation, db, fsp)
      else
        (case brl_get_locks denv mem db fsp of
           None \<Rightarrow> Some (NT_STATUS_NO_MEMORY, db, fsp)
         | Some br_lck \<Rightarrow>
             (case brl_lock_cancel br_lck smblctx0 (server_self fsp) offset count0 flav of
                (ok, br) \<Rightarrow>
                  (case byte_range_lock_flush denv (\<lambda>k. mem (k + 2)) db br of
                     None \<Rightarrow> None
                   | Some db' \<Rightarrow>
                       if \<not> ok then Some (NT_STATUS_DOS_ERRcancelviolation, db', fsp)
                       else map_option (\<lambda>fsp'. (NT_STATUS_OK, db', fsp'))
                              (decrement_current_lock_count fsp flav)))))"

text \<open>The requests on this file that wait for a lock: context, offset, count and flavour. Closing
  the file removes their entries from the array (\<open>smbd_cancel_pending_lock_requests_by_fid\<close> and
  its SMB2 variant).\<close>

type_synonym blocked_request = "u64 \<times> u64 \<times> u64 \<times> brl_flavour"

fun cancel_pending_lock_requests_by_fid ::
    "server_id \<Rightarrow> blocked_request list \<Rightarrow> byte_range_lock \<Rightarrow> byte_range_lock" where
  "cancel_pending_lock_requests_by_fid self [] br_lck = br_lck"
| "cancel_pending_lock_requests_by_fid self ((c, offset, count0, flav) # blrs) br_lck =
     cancel_pending_lock_requests_by_fid self blrs (snd (brl_lock_cancel br_lck c self offset count0 flav))"

definition locking_close_file ::
    "db_env \<Rightarrow> talloc \<Rightarrow> brlock_db \<Rightarrow> files_struct \<Rightarrow> blocked_request list \<Rightarrow>
     (brlock_db \<times> brl_event list) option" where
  "locking_close_file denv mem db fsp blrs =
     (if \<not> lp_locking fsp then Some (db, [])
      else if current_lock_count fsp = 0 then Some (db, [])
      else
        (case brl_get_locks denv mem db fsp of
           None \<Rightarrow> Some (db, [])
         | Some br_lck \<Rightarrow>
             (case brl_close_fnum (\<lambda>k. mem (k + 3))
                     (cancel_pending_lock_requests_by_fid (server_self fsp) blrs br_lck) of
                None \<Rightarrow> None
              | Some (br, ev) \<Rightarrow>
                  map_option (\<lambda>db'. (db', ev)) (byte_range_lock_flush denv (\<lambda>k. mem (k + 2)) db br))))"

section \<open>Checking reads and writes\<close>

datatype strict_locking = Strict_No | Strict_Yes | Strict_Auto

definition SMB2_LEASE_READ :: u32 where
  "SMB2_LEASE_READ = 1"

definition SMB2_LEASE_WRITE :: u32 where
  "SMB2_LEASE_WRITE = 4"

definition init_strict_lock_struct ::
    "files_struct \<Rightarrow> u64 \<Rightarrow> u64 \<Rightarrow> u64 \<Rightarrow> brl_type \<Rightarrow> brl_flavour \<Rightarrow> lock_struct option" where
  "init_strict_lock_struct fsp smblctx0 start0 size0 ltype cifsu_locktype =
     (if ltype = READ_LOCK \<or> ltype = WRITE_LOCK
      then Some \<lparr>lock_ctx = \<lparr>smblctx = smblctx0, tid = cnum fsp, lock_pid = server_self fsp\<rparr>, start = start0,
                 lock_size = size0, fnum = fsp_fnum fsp, lock_type = ltype, lock_flav = cifsu_locktype\<rparr>
      else None)"

text \<open>The answer, the database and the file. In the slow path a failing \<open>brl_get_locks\<close> gives a
  null pointer that \<open>brl_locktest\<close> follows; that crash is \<open>None\<close>, like a panic of the store.\<close>

definition strict_lock_check_default ::
    "brl_env \<Rightarrow> db_env \<Rightarrow> talloc \<Rightarrow> strict_locking \<Rightarrow> u32 \<Rightarrow> brlock_db \<Rightarrow> files_struct \<Rightarrow> lock_struct \<Rightarrow>
     (bool \<times> brlock_db \<times> files_struct) option" where
  "strict_lock_check_default env denv mem strict lease_type db fsp plock =
     (if lock_size plock = 0 then Some (True, db, fsp)
      else if \<not> lp_locking fsp \<or> strict = Strict_No then Some (True, db, fsp)
      else if strict = Strict_Auto \<and> flag lease_type SMB2_LEASE_READ \<and> lock_type plock = READ_LOCK then
        Some (True, db, fsp)
      else if strict = Strict_Auto \<and> flag lease_type SMB2_LEASE_WRITE \<and> lock_type plock = WRITE_LOCK then
        Some (True, db, fsp)
      else
        (case brl_get_locks_readonly denv mem db fsp of
           (None, fsp') \<Rightarrow> Some (True, db, fsp')
         | (Some ro, fsp') \<Rightarrow>
             if fst (brl_locktest env ro plock) then Some (True, db, fsp')
             else
               (case brl_get_locks denv (\<lambda>k. mem (k + 2)) db fsp' of
                  None \<Rightarrow> None
                | Some br_lck \<Rightarrow>
                    (case brl_locktest env br_lck plock of
                       (ret, br) \<Rightarrow>
                         map_option (\<lambda>db'. (ret, db', fsp'))
                           (byte_range_lock_flush denv (\<lambda>k. mem (k + 4)) db br)))))"

definition query_lock ::
    "brl_env \<Rightarrow> db_env \<Rightarrow> talloc \<Rightarrow> brlock_db \<Rightarrow> files_struct \<Rightarrow> u64 \<Rightarrow> u64 \<Rightarrow> u64 \<Rightarrow> brl_type \<Rightarrow> brl_flavour \<Rightarrow>
     (NTSTATUS \<times> u64 \<times> u64 \<times> u64 \<times> brl_type) \<times> files_struct" where
  "query_lock env denv mem db fsp smblctx0 count0 offset ltype flav =
     (if \<not> can_lock fsp then ((cannot_lock_status fsp, smblctx0, offset, count0, ltype), fsp)
      else if \<not> lp_locking fsp then ((NT_STATUS_OK, smblctx0, offset, count0, ltype), fsp)
      else
        (case brl_get_locks_readonly denv mem db fsp of
           (None, fsp') \<Rightarrow> ((NT_STATUS_NO_MEMORY, smblctx0, offset, count0, ltype), fsp')
         | (Some br_lck, fsp') \<Rightarrow>
             (brl_lockquery env br_lck smblctx0 (server_self fsp') offset count0 ltype flav, fsp')))"

section \<open>Interleavings\<close>

text \<open>One step of any process on the database, with the file handle that acts; the cleanup of the
  locks of disconnected clients acts for none. The outcomes of the environment (which processes
  are alive, memory, lower level locks) are arbitrary in every step. The relation is restricted to lock
  and unlock requests that end below the end of the 64 bit offsets and to POSIX unlocks of ranges
  that are not empty; \<open>do_lock\<close> and \<open>do_unlock\<close> themselves do not check this, and at the
  end of the offsets exclusion fails (\<open>windows_end_of_offsets_not_exclusive\<close>).\<close>

inductive locking_step :: "files_struct option \<Rightarrow> brlock_db \<Rightarrow> brlock_db \<Rightarrow> bool" where
  Lock: "do_lock env denv mem db fsp c n off t f blocking = Some (status, Some br, fsp', b, ev) \<Longrightarrow>
     t \<noteq> UNLOCK_LOCK \<Longrightarrow> in_range off n \<Longrightarrow> byte_range_lock_flush denv mem' db br = Some db' \<Longrightarrow>
     locking_step (Some fsp) db db'"
| Unlock: "do_unlock denv mem db fsp c n off f = Some (status, db', fsp', ev) \<Longrightarrow>
     in_range off n \<Longrightarrow> f = WINDOWS_LOCK \<or> n \<noteq> 0 \<Longrightarrow> locking_step (Some fsp) db db'"
| Cancel: "do_lock_cancel denv mem db fsp c n off f = Some (status, db', fsp') \<Longrightarrow> locking_step (Some fsp) db db'"
| Close: "locking_close_file denv mem db fsp blrs = Some (db', ev) \<Longrightarrow> locking_step (Some fsp) db db'"
| Check: "strict_lock_check_default env denv mem strict lease db fsp p = Some (ret, db', fsp') \<Longrightarrow>
     locking_step (Some fsp) db db'"
| Disconnect: "brl_mark_disconnected denv mem db fsp = Some (ok, db') \<Longrightarrow> locking_step (Some fsp) db db'"
| Reconnect: "brl_reconnect_disconnected denv mem db fsp = Some (ok, db', fsp') \<Longrightarrow> locking_step (Some fsp) db db'"
| Cleanup: "brl_cleanup_disconnected denv db fid p = (ok, db') \<Longrightarrow> locking_step None db db'"

text \<open>The databases that can be reached from the empty one.\<close>

inductive locking_reachable :: "brlock_db \<Rightarrow> bool" where
  Empty: "db_records db = (\<lambda>_. None) \<Longrightarrow> locking_reachable db"
| Step: "locking_reachable db \<Longrightarrow> locking_step who db db' \<Longrightarrow> locking_reachable db'"

inductive_cases locking_stepE: "locking_step who db db'"

section \<open>Every step keeps the invariant of the database\<close>

lemma brl_get_locks_inv: "brl_get_locks denv mem db fsp = Some br \<Longrightarrow> db_inv db \<Longrightarrow> brl_inv (lock_data br)"
  using brl_get_locks_data(1) by (simp add: db_inv_def record_ok_def)

lemma do_lock_inv:
  assumes "do_lock env denv mem db fsp c n off t f blocking = Some (status, Some br, fsp', b, ev)"
    and "db_inv db" "t \<noteq> UNLOCK_LOCK" "in_range off n"
  shows "brl_inv (stored (lock_data br))"
proof -
  obtain br0 br1 where g: "brl_get_locks denv mem db fsp = Some br0"
    and l: "brl_lock env (\<lambda>k. mem (k + 2)) br0 c (server_self fsp) off n t f blocking = Some (status, br1, b, ev)"
    and e: "lock_data br = lock_data br1"
    using assms(1) by (auto simp: do_lock_def Let_def split: if_splits option.splits)
  show ?thesis
    unfolding e by (rule brl_lock_inv [OF l brl_get_locks_inv [OF g assms(2)] assms(4,3)])
qed

lemma do_unlock_inv:
  assumes "do_unlock denv mem db fsp c n off f = Some (status, db', fsp', ev)"
    and "db_inv db" "in_range off n" "f = WINDOWS_LOCK \<or> n \<noteq> 0"
  shows "db_inv db'"
proof (cases "db' = db")
  case False
  then obtain br0 ok br where g: "brl_get_locks denv mem db fsp = Some br0"
    and u: "brl_unlock (\<lambda>k. mem (k + 2)) br0 c (server_self fsp) off n f = Some (ok, br, ev)"
    and s: "byte_range_lock_flush denv (\<lambda>k. mem (k + 4)) db br = Some db'"
    using assms(1) by (auto simp: do_unlock_def split: if_splits option.splits prod.splits)
  have "brl_inv (lock_data br)"
    using brl_unlock_inv(1) [OF u brl_get_locks_inv [OF g assms(2)] assms(3)] assms(4) by auto
  then show ?thesis using flush_db_inv [OF s assms(2)] brl_inv_stored by blast
qed (use assms in simp)

lemma do_lock_cancel_inv:
  assumes "do_lock_cancel denv mem db fsp c n off f = Some (status, db', fsp')" "db_inv db"
  shows "db_inv db'"
proof (cases "db' = db")
  case False
  then obtain br0 ok br where g: "brl_get_locks denv mem db fsp = Some br0"
    and u: "brl_lock_cancel br0 c (server_self fsp) off n f = (ok, br)"
    and s: "byte_range_lock_flush denv (\<lambda>k. mem (k + 2)) db br = Some db'"
    using assms(1) by (auto simp: do_lock_cancel_def split: if_splits option.splits prod.splits)
  have "brl_inv (lock_data br)" by (rule brl_lock_cancel_inv [OF u brl_get_locks_inv [OF g assms(2)]])
  then show ?thesis using flush_db_inv [OF s assms(2)] brl_inv_stored by blast
qed (use assms in simp)

lemma cancel_pending_inv:
  "brl_inv (lock_data br) \<Longrightarrow> brl_inv (lock_data (cancel_pending_lock_requests_by_fid self blrs br))"
proof (induction self blrs br rule: cancel_pending_lock_requests_by_fid.induct)
  case (2 self c off n f blrs br)
  then show ?case using brl_lock_cancel_inv by (metis cancel_pending_lock_requests_by_fid.simps(2) prod.collapse)
qed simp

lemma locking_close_file_inv:
  assumes "locking_close_file denv mem db fsp blrs = Some (db', ev)" "db_inv db"
  shows "db_inv db'"
proof (cases "db' = db")
  case False
  then obtain br0 br where g: "brl_get_locks denv mem db fsp = Some br0"
    and u: "brl_close_fnum (\<lambda>k. mem (k + 3)) (cancel_pending_lock_requests_by_fid (server_self fsp) blrs br0) = Some (br, ev)"
    and s: "byte_range_lock_flush denv (\<lambda>k. mem (k + 2)) db br = Some db'"
    using assms(1) by (auto simp: locking_close_file_def split: if_splits option.splits prod.splits)
  have "brl_inv (lock_data br)"
    by (rule brl_close_fnum_inv [OF u cancel_pending_inv [OF brl_get_locks_inv [OF g assms(2)]]])
  then show ?thesis using flush_db_inv [OF s assms(2)] brl_inv_stored by blast
qed (use assms in simp)

lemma locktest_loop_marked:
  "locktest_loop alive rw p ls = (ls', m, c) \<Longrightarrow> list_all2 (marked_from alive) ls ls'"
  by (induction ls arbitrary: ls' m c) (auto split: if_splits prod.splits)

lemma brl_locktest_inv:
  assumes "brl_locktest env br p = (ret, br')" "brl_inv (lock_data br)"
  shows "brl_inv (stored (lock_data br'))"
proof -
  obtain ls' m c where l: "locktest_loop (serverid_exists env) (has_record br) p (lock_data br) = (ls', m, c)"
    by (cases "locktest_loop (serverid_exists env) (has_record br) p (lock_data br)")
  then have "lock_data br' = ls'" using assms(1) by (auto simp: brl_locktest_def)
  then show ?thesis using brl_inv_marked [OF locktest_loop_marked [OF l] assms(2)] by simp
qed

lemma strict_lock_check_inv:
  assumes "strict_lock_check_default env denv mem strict lease db fsp p = Some (ret, db', fsp')" "db_inv db"
  shows "db_inv db'"
proof (cases "db' = db")
  case False
  then obtain fsp1 br0 br where g: "brl_get_locks denv (\<lambda>k. mem (k + 2)) db fsp1 = Some br0"
    and u: "brl_locktest env br0 p = (ret, br)"
    and s: "byte_range_lock_flush denv (\<lambda>k. mem (k + 4)) db br = Some db'"
    using assms(1) by (auto simp: strict_lock_check_default_def split: if_splits option.splits prod.splits)
  show ?thesis
    by (rule flush_db_inv [OF s assms(2) brl_locktest_inv [OF u brl_get_locks_inv [OF g assms(2)]]])
qed (use assms in simp)

lemma locking_step_inv:
  assumes "locking_step who db db'" "db_inv db"
  shows "db_inv db'"
  using assms(1)
proof cases
  case (Lock env denv mem fsp c n off t f blocking status br fsp' b ev mem')
  show ?thesis by (rule flush_db_inv [OF Lock(5) assms(2) do_lock_inv [OF Lock(2) assms(2) Lock(3,4)]])
next
  case (Unlock denv mem fsp c n off f status fsp' ev)
  then show ?thesis using assms(2) by (intro do_unlock_inv [OF Unlock(2)])
next
  case (Cancel denv mem fsp c n off f status fsp')
  show ?thesis by (rule do_lock_cancel_inv [OF Cancel(2) assms(2)])
next
  case (Close denv mem fsp blrs ev)
  show ?thesis by (rule locking_close_file_inv [OF Close(2) assms(2)])
next
  case (Check env denv mem strict lease fsp p ret fsp')
  show ?thesis by (rule strict_lock_check_inv [OF Check(2) assms(2)])
next
  case (Disconnect denv mem fsp ok)
  show ?thesis by (rule brl_mark_disconnected_inv [OF Disconnect(2) assms(2)])
next
  case (Reconnect denv mem fsp ok fsp')
  show ?thesis by (rule brl_reconnect_disconnected_inv [OF Reconnect(2) assms(2)])
next
  case (Cleanup denv fid p ok)
  show ?thesis by (rule brl_cleanup_disconnected_inv [OF Cleanup(2) assms(2)])
qed

lemma locking_reachable_inv: "locking_reachable db \<Longrightarrow> db_inv db"
proof (induction rule: locking_reachable.induct)
  case (Empty db)
  then show ?case by (simp add: db_inv_def db_value_def)
next
  case (Step db who db')
  then show ?case by (blast intro: locking_step_inv)
qed

section \<open>The array of a file in the database\<close>

definition file_locks :: "brlock_db \<Rightarrow> files_struct \<Rightarrow> lock_struct list" where
  "file_locks db fsp = rec_locks (db_value db (fsp_file_id fsp))"

lemma flush_file_locks:
  assumes "byte_range_lock_flush denv mem db br = Some db'" "modified br"
  shows "mset (file_locks db' (brl_fsp br)) = mset (stored (lock_data br))"
  using assms flush_loop_stored [of "lock_data br"]
  by (auto simp: byte_range_lock_flush_def file_locks_def no_data_def Let_def split: if_splits)

lemma flush_unmodified: "\<not> modified br \<Longrightarrow> byte_range_lock_flush denv mem db br = Some db"
  by (simp add: byte_range_lock_flush_def)

lemma flush_works:
  "record_delete_ok denv \<Longrightarrow> record_store_ok denv \<Longrightarrow> mem 0 \<noteq> None \<Longrightarrow>
     \<exists>db'. byte_range_lock_flush denv mem db br = Some db'"
  by (auto simp: byte_range_lock_flush_def Let_def)

section \<open>Properties\<close>

text \<open>C3: mutual exclusion. In every database that any interleaving of lock, unlock, cancel, close,
  read and write checks, disconnects, reconnects and cleanups of any number of processes can reach,
  as long as the lock and unlock requests end below the end of the 64 bit offsets and no POSIX unlock
  is empty, two granted locks of different contexts on the same file, one of them a write lock,
  have no byte in common.\<close>

theorem byte_range_exclusion:
  assumes "locking_reachable db"
    and "i < length (rec_locks (db_value db key))" "j < length (rec_locks (db_value db key))" "i \<noteq> j"
    and "a = rec_locks (db_value db key) ! i" "b = rec_locks (db_value db key) ! j"
    and "granted a" "granted b" "lock_ctx a \<noteq> lock_ctx b"
    and "lock_type a = WRITE_LOCK \<or> lock_type b = WRITE_LOCK"
  shows "bytes a \<inter> bytes b = {}"
proof -
  have c: "sorted_wrt lock_compat (rec_locks (db_value db key))"
    using locking_reachable_inv [OF assms(1)] by (simp add: db_inv_def record_ok_def brl_inv_def)
  have "lock_compat a b"
    using assms(2-6) sorted_wrt_nth_less [OF c, of i j] sorted_wrt_nth_less [OF c, of j i] lock_compat_sym
    by (metis linorder_neqE_nat)
  then show ?thesis using assms(7-10) by (auto simp: lock_compat_def exclusive_def)
qed

text \<open>A process takes a lock that nothing conflicts with.\<close>

lemma windows_conflict_loop_free:
  "\<forall>l \<in> set ls. \<not> brl_conflict l p \<Longrightarrow> windows_conflict_loop alive p ls = (ls, False, None)"
  by (induction ls) auto

lemma sample_lock_granted:
  assumes "db_inv db" "rec_locks (db_value db (fsp_file_id (sample_fsp m))) = ls" "m \<noteq> 0"
    and "p = sample_lock m s 10 WRITE_LOCK WINDOWS_LOCK" "\<forall>l \<in> set ls. \<not> brl_conflict l p" "in_range s 10"
  shows "\<exists>br ev db'. do_lock sample_env sample_db_env (\<lambda>_. Some []) db (sample_fsp m) m 10 s WRITE_LOCK WINDOWS_LOCK False =
      Some (NT_STATUS_OK, Some br, increment_current_lock_count (sample_fsp m) WINDOWS_LOCK, None, ev) \<and>
    byte_range_lock_flush sample_db_env (\<lambda>_. Some []) db br = Some db' \<and>
    rec_locks (db_value db' (fsp_file_id (sample_fsp m))) = ls @ [p]"
proof -
  let ?fsp = "sample_fsp m" and ?mem = "\<lambda>_. Some [] :: u32 list option"
  obtain br0 where g: "brl_get_locks sample_db_env ?mem db ?fsp = Some br0"
    using brl_get_locks_works [OF assms(1), of sample_db_env ?mem] by (auto simp: sample_db_env_def)
  note d = brl_get_locks_data [OF g]
  define br where "br = br0\<lparr>lock_data := ls @ [p], modified := True, brl_fsp := increment_current_lock_count ?fsp WINDOWS_LOCK\<rparr>"
  have r: "brl_request ?fsp m (server_self ?fsp) s 10 WRITE_LOCK WINDOWS_LOCK = p"
    by (simp add: brl_request_def assms(4) sample_simps)
  have "unat (s + 9) = unat s + unat (9 :: u64)"
    using assms(6) by (intro iffD1 [OF unat_add_lem]) (simp add: in_range_def)
  then have n: "\<not> (s + 10 - 1 < s)" by (simp add: word_less_nat_alt add.commute)
  have t: "lock_type p = WRITE_LOCK" "start p = s" "lock_size p = 10" "lock_flav p = WINDOWS_LOCK"
    "\<not> lp_posix_locking ?fsp"
    by (simp_all add: assms(4) sample_lock_def sample_fsp_def)
  have "brl_lock_windows_default sample_env ?mem br0 p False =
      Some (NT_STATUS_OK, br0\<lparr>lock_data := ls @ [p], modified := True\<rparr>, p, [Contend_begin LEVEL2_CONTEND_WINDOWS_BRL])"
    using windows_conflict_loop_free [OF assms(5)] n t d(1,2)
    by (simp add: brl_lock_windows_default_def Let_def IS_PENDING_LOCK_def assms(2))
  then have "brl_lock sample_env ?mem br0 m (server_self ?fsp) s 10 WRITE_LOCK WINDOWS_LOCK False =
      Some (NT_STATUS_OK, br0\<lparr>lock_data := ls @ [p], modified := True\<rparr>, None, [Contend_begin LEVEL2_CONTEND_WINDOWS_BRL])"
    by (simp add: brl_lock_def vfswrap_brl_lock_windows_def Let_def d(2) r t)
  then have l: "do_lock sample_env sample_db_env ?mem db ?fsp m 10 s WRITE_LOCK WINDOWS_LOCK False =
      Some (NT_STATUS_OK, Some br, brl_fsp br, None, [Contend_begin LEVEL2_CONTEND_WINDOWS_BRL])"
    using g d(2) by (simp add: do_lock_def br_def Let_def sample_fsp_def)
  have "\<forall>l \<in> set ls. \<not> dead l" using assms(1,2) by (auto simp: db_inv_def record_ok_def)
  then have f: "byte_range_lock_flush sample_db_env ?mem db br = Some (db_update db (fsp_file_id (brl_fsp br))
      (Some \<lparr>rec_locks = lock_data br, rec_rest = SIVAL (replicate 4 0) 0 (num_read_oplocks br)\<rparr>))"
    using assms(3,4) by (intro flush_db_value) (auto simp: br_def dead_def sample_simps sample_db_env_def)
  have "brl_fsp br = increment_current_lock_count ?fsp WINDOWS_LOCK" by (simp add: br_def)
  then show ?thesis
    using l f by (intro exI conjI) (auto simp: br_def increment_current_lock_count_def)
qed

lemma sample_lock_step:
  assumes "db_inv db" "rec_locks (db_value db (fsp_file_id (sample_fsp m))) = ls" "m \<noteq> 0"
    and "p = sample_lock m s 10 WRITE_LOCK WINDOWS_LOCK" "\<forall>l \<in> set ls. \<not> brl_conflict l p" "in_range s 10"
  shows "\<exists>db'. locking_step (Some (sample_fsp m)) db db' \<and> rec_locks (db_value db' (fsp_file_id (sample_fsp m))) = ls @ [p]"
  using sample_lock_granted [OF assms] locking_step.Lock [OF _ _ assms(6)] by (metis brl_type.distinct(13))

theorem byte_range_exclusion_witness:
  "\<exists>db key a b. locking_reachable db \<and> rec_locks (db_value db key) = [a, b] \<and> granted a \<and> granted b \<and>
    lock_ctx a \<noteq> lock_ctx b \<and> lock_type a = WRITE_LOCK \<and> bytes a \<inter> bytes b = {}"
proof -
  let ?db = "\<lparr>db_records = (\<lambda>_. None), db_seqnum = 0\<rparr>" and ?k = "\<lparr>devid = 1, inode = 2, extid = 0\<rparr>"
  let ?a = "sample_lock 7 0 10 WRITE_LOCK WINDOWS_LOCK" and ?b = "sample_lock 8 20 10 WRITE_LOCK WINDOWS_LOCK"
  have k: "fsp_file_id (sample_fsp n) = ?k" for n by (simp add: sample_fsp_def)
  have r: "locking_reachable ?db" by (rule locking_reachable.Empty) simp
  obtain db1 where s1: "locking_step (Some (sample_fsp 7)) ?db db1" and l1: "rec_locks (db_value db1 ?k) = [?a]"
    using sample_lock_step [OF locking_reachable_inv [OF r], of 7 "[]" ?a 0] unfolding k
    by (auto simp: db_value_def no_data_def in_range_def)
  note r1 = locking_reachable.Step [OF r s1]
  have c: "\<not> brl_conflict ?a ?b" by (simp add: brl_conflict_def brl_overlap_def sample_simps)
  obtain db2 where s2: "locking_step (Some (sample_fsp 8)) db1 db2" and l2: "rec_locks (db_value db2 ?k) = [?a, ?b]"
    using sample_lock_step [OF locking_reachable_inv [OF r1], of 8 "[?a]" ?b 20] l1 c unfolding k
    by (auto simp: in_range_def)
  note r2 = locking_reachable.Step [OF r1 s2]
  have "bytes ?a \<inter> bytes ?b = {}"
    by (rule byte_range_exclusion [OF r2, of 0 ?k 1]) (simp_all add: l2 granted_def IS_PENDING_LOCK_def, simp_all add: sample_simps)
  then show ?thesis
    using r2 l2 by (intro exI conjI) (assumption | simp add: granted_def IS_PENDING_LOCK_def sample_simps)+
qed

section \<open>The strict lock check\<close>

lemma locktest_loop_answer:
  "locktest_loop alive rw p ls = (ls', m, c) \<Longrightarrow>
     c \<longleftrightarrow> (\<exists>l \<in> set ls. brl_conflict_other l p \<and> (rw \<longrightarrow> alive (lock_pid (lock_ctx l))))"
  by (induction ls arbitrary: ls' m c) (auto split: if_splits prod.splits)

text \<open>A lock stands in the way of a read or write: it is granted, not both are for reading, not both
  are POSIX, the ranges meet, and it belongs to another context or another handle, unless it is a
  read lock in the way of a write, which stops its owner too.\<close>

definition stops_access :: "lock_struct \<Rightarrow> lock_struct \<Rightarrow> bool" where
  "stops_access l p \<longleftrightarrow> granted l \<and> \<not> (lock_type l = READ_LOCK \<and> lock_type p = READ_LOCK) \<and>
     \<not> (posix l \<and> posix p) \<and> ranges_meet l p \<and>
     (lock_ctx l \<noteq> lock_ctx p \<or> fnum l \<noteq> fnum p \<or> lock_type l = READ_LOCK \<and> lock_type p = WRITE_LOCK)"

lemma conflict_other_stops:
  assumes "en l < 2 ^ 64" "en p < 2 ^ 64" "granted p"
  shows "brl_conflict_other l p \<longleftrightarrow> stops_access l p"
  using assms(3) by (auto simp: brl_conflict_other_def stops_access_def granted_def posix_def brl_overlap_meet [OF assms(1,2)])

text \<open>The lower level locks are asked only for Windows requests, and only when the share uses
  them.\<close>

definition lower_stops :: "brl_env \<Rightarrow> files_struct \<Rightarrow> lock_struct \<Rightarrow> bool" where
  "lower_stops env fsp p \<longleftrightarrow> lp_posix_locking fsp \<and> \<not> posix p \<and>
     is_posix_locked env (start p) (lock_size p) (lock_type p) WINDOWS_LOCK \<noteq> None"

lemma brl_locktest_answer:
  assumes "\<forall>l \<in> set (lock_data br). en l < 2 ^ 64" "en p < 2 ^ 64" "granted p"
  shows "fst (brl_locktest env br p) \<longleftrightarrow> \<not> lower_stops env (brl_fsp br) p \<and>
    \<not> (\<exists>l \<in> set (lock_data br). stops_access l p \<and>
        (has_record br \<longrightarrow> serverid_exists env (lock_pid (lock_ctx l))))"
proof -
  obtain ls' m c where l: "locktest_loop (serverid_exists env) (has_record br) p (lock_data br) = (ls', m, c)"
    by (cases "locktest_loop (serverid_exists env) (has_record br) p (lock_data br)")
  have w: "lock_flav p = WINDOWS_LOCK \<longleftrightarrow> \<not> posix p" by (cases "lock_flav p") (simp_all add: posix_def)
  have "c \<longleftrightarrow> (\<exists>l \<in> set (lock_data br). stops_access l p \<and> (has_record br \<longrightarrow> serverid_exists env (lock_pid (lock_ctx l))))"
    using locktest_loop_answer [OF l] conflict_other_stops [OF _ assms(2,3)] assms(1) by blast
  then show ?thesis using l by (auto simp: brl_locktest_def lower_stops_def w)
qed

lemma brl_read_fresh_works:
  assumes "db_inv db" "parse_record_ok denv" "\<forall>k. mem k \<noteq> None"
  shows "\<exists>ro fsp'. brl_read_fresh denv mem db fsp = (Some ro, fsp') \<and> lock_data ro = file_locks db fsp \<and>
    \<not> has_record ro \<and> lp_posix_locking (brl_fsp ro) = lp_posix_locking fsp \<and> fsp_file_id fsp' = fsp_file_id fsp \<and>
    lp_posix_locking fsp' = lp_posix_locking fsp"
proof (cases "db_records db (fsp_file_id fsp)")
  case None
  have "mem 0 \<noteq> None" using assms(3) by blast
  then show ?thesis
    using None by (auto simp: brl_read_fresh_def Let_def file_locks_def db_value_def no_data_def empty_brl_def)
next
  case (Some d)
  then have v: "db_value db (fsp_file_id fsp) = d" by (simp add: db_value_def)
  then have "d = no_data \<or> length (rec_rest d) = 4"
    using assms(1) by (auto simp: db_inv_def record_ok_def)
  moreover have "mem 0 \<noteq> None" "mem (0 + 1) \<noteq> None" using assms(3) by blast+
  ultimately show ?thesis
    using Some v assms(2)
    by (auto simp: brl_read_fresh_def Let_def file_locks_def brl_get_locks_readonly_parser_def brl_parse_data_def
        empty_brl_def no_data_def)
qed

text \<open>The copy of the array that a file handle keeps is the array in the database as long as the
  sequence number of the database is the one of the copy.\<close>

definition cache_ok :: "brlock_db \<Rightarrow> files_struct \<Rightarrow> bool" where
  "cache_ok db fsp \<longleftrightarrow>
     (case brlock_rec fsp of None \<Rightarrow> True
      | Some (ls, _) \<Rightarrow> db_seqnum db = brlock_seqnum fsp \<longrightarrow> ls = file_locks db fsp)"

lemma brl_get_locks_readonly_works:
  assumes "db_inv db" "parse_record_ok denv" "\<forall>k. mem k \<noteq> None" "cache_ok db fsp"
  shows "\<exists>ro fsp'. brl_get_locks_readonly denv mem db fsp = (Some ro, fsp') \<and> lock_data ro = file_locks db fsp \<and>
    \<not> has_record ro \<and> lp_posix_locking (brl_fsp ro) = lp_posix_locking fsp \<and> fsp_file_id fsp' = fsp_file_id fsp \<and>
    lp_posix_locking fsp' = lp_posix_locking fsp"
proof (cases "brlock_rec fsp \<noteq> None \<and> db_seqnum db = brlock_seqnum fsp")
  case True
  then show ?thesis using assms(4) by (auto simp: brl_get_locks_readonly_def cache_ok_def empty_brl_def)
next
  case False
  then have "brl_get_locks_readonly denv mem db fsp = brl_read_fresh denv mem db fsp"
    by (auto simp: brl_get_locks_readonly_def split: option.splits)
  then show ?thesis using brl_read_fresh_works [OF assms(1-3)] by simp
qed

text \<open>C10: with locking enabled a read or write of a range that is not empty and ends below the end of
  the 64 bit offsets passes the check exactly when strict locking is off, or it is automatic and the client holds
  a lease for this kind of access, or neither a lock of a living process nor, on shares that use
  them, a lower level lock stands in its way. Here a granted lock that meets the range and
  belongs to another context or handle stands in the way of a write, and of a read if it is a write
  lock, and a read lock of the handle itself stands in the way of its write; POSIX locks never stop
  POSIX requests. The quick test on the cached array and the slow test on the locked record
  together give this answer. The database calls succeed and there is memory.\<close>

theorem strict_lock_check_answer:
  assumes "db_inv db" "cache_ok db fsp" "lp_locking fsp"
    and "lock_size p \<noteq> 0" "en p < 2 ^ 64" "lock_type p = READ_LOCK \<or> lock_type p = WRITE_LOCK"
    and "fetch_locked_ok denv" "parse_record_ok denv" "record_delete_ok denv" "record_store_ok denv"
    and "\<forall>k. mem k \<noteq> None"
  shows "\<exists>ret db' fsp'. strict_lock_check_default env denv mem strict lease_type db fsp p = Some (ret, db', fsp') \<and>
    (ret \<longleftrightarrow> strict = Strict_No \<or>
       strict = Strict_Auto \<and> (flag lease_type SMB2_LEASE_READ \<and> lock_type p = READ_LOCK \<or>
                               flag lease_type SMB2_LEASE_WRITE \<and> lock_type p = WRITE_LOCK) \<or>
       \<not> lower_stops env fsp p \<and>
       (\<forall>l \<in> set (file_locks db fsp). stops_access l p \<longrightarrow> \<not> serverid_exists env (lock_pid (lock_ctx l))))"
proof (cases "strict = Strict_No \<or>
    strict = Strict_Auto \<and> (flag lease_type SMB2_LEASE_READ \<and> lock_type p = READ_LOCK \<or>
                            flag lease_type SMB2_LEASE_WRITE \<and> lock_type p = WRITE_LOCK)")
  case True
  then show ?thesis by (auto simp: strict_lock_check_default_def)
next
  case checked: False
  have g: "granted p" using assms(6) by (auto simp: granted_def IS_PENDING_LOCK_def)
  have e: "\<forall>l \<in> set (file_locks db fsp). en l < 2 ^ 64"
    using assms(1) by (simp add: db_inv_def record_ok_def brl_inv_def lock_ok_def file_locks_def)
  obtain ro fsp' where r: "brl_get_locks_readonly denv mem db fsp = (Some ro, fsp')" "lock_data ro = file_locks db fsp"
    "\<not> has_record ro" "lp_posix_locking (brl_fsp ro) = lp_posix_locking fsp" "fsp_file_id fsp' = fsp_file_id fsp"
    "lp_posix_locking fsp' = lp_posix_locking fsp"
    using brl_get_locks_readonly_works [OF assms(1,8,11,2)] by blast
  have m: "\<forall>k. (\<lambda>k. mem (k + 2)) k \<noteq> None" "mem (0 + 4) \<noteq> None" using assms(11) by blast+
  have lower: "lower_stops env (brl_fsp ro) p = lower_stops env fsp p" "lower_stops env fsp' p = lower_stops env fsp p"
    using r(4,6) by (simp_all add: lower_stops_def)
  show ?thesis
  proof (cases "fst (brl_locktest env ro p)")
    case True
    then have "\<not> lower_stops env fsp p" "\<forall>l \<in> set (file_locks db fsp). \<not> stops_access l p"
      using brl_locktest_answer [of ro p env] assms(5) g e lower(1) r(2,3) by simp_all
    then show ?thesis using checked True r(1) assms(3,4) by (auto simp: strict_lock_check_default_def)
  next
    case False
    obtain br where b: "brl_get_locks denv (\<lambda>k. mem (k + 2)) db fsp' = Some br"
      using brl_get_locks_works [OF assms(1,7) m(1)] by blast
    note d = brl_get_locks_data [OF b]
    obtain ret br' where t: "brl_locktest env br p = (ret, br')" by (cases "brl_locktest env br p")
    obtain db' where f: "byte_range_lock_flush denv (\<lambda>k. mem (k + 4)) db br' = Some db'"
      using flush_works [OF assms(9,10), of "\<lambda>k. mem (k + 4)"] m(2) by blast
    have "lock_data br = file_locks db fsp" using d(1) r(5) by (simp add: file_locks_def)
    then have "ret \<longleftrightarrow> \<not> lower_stops env fsp p \<and>
        (\<forall>l \<in> set (file_locks db fsp). stops_access l p \<longrightarrow> \<not> serverid_exists env (lock_pid (lock_ctx l)))"
      using brl_locktest_answer [of br p env] assms(5) g e lower(2) d(2,4) t by auto
    then show ?thesis using checked False r(1) assms(3,4) b t f by (auto simp: strict_lock_check_default_def)
  qed
qed

theorem strict_lock_check_answer_witness:
  "\<exists>ret db' fsp'. strict_lock_check_default sample_env sample_db_env (\<lambda>_. Some []) Strict_Yes 0 sample_db (sample_handle 8)
      (sample_lock 8 5 1 READ_LOCK WINDOWS_LOCK) = Some (ret, db', fsp') \<and> \<not> ret"
proof -
  have i: "db_inv sample_db"
    by (simp add: db_inv_def record_ok_def db_value_def sample_db_def brl_spec_simps dead_def handle_ctx_def
        sample_handle_def sample_simps)
  let ?p = "sample_lock 8 5 1 READ_LOCK WINDOWS_LOCK"
  have "cache_ok sample_db (sample_handle 8)" "lp_locking (sample_handle 8)" "lock_size ?p \<noteq> 0" "en ?p < 2 ^ 64"
    "lock_type ?p = READ_LOCK \<or> lock_type ?p = WRITE_LOCK" "fetch_locked_ok sample_db_env" "parse_record_ok sample_db_env"
    "record_delete_ok sample_db_env" "record_store_ok sample_db_env" "\<forall>k. (\<lambda>_. Some []) k \<noteq> None"
    by (simp_all add: cache_ok_def sample_handle_def sample_fsp_def sample_lock_def sample_db_env_def en_def)
  note a = strict_lock_check_answer [OF i this, of sample_env Strict_Yes 0]
  have "\<exists>l \<in> set (file_locks sample_db (sample_handle 8)). stops_access l ?p \<and>
      serverid_exists sample_env (lock_pid (lock_ctx l))"
    by (simp add: file_locks_def db_value_def sample_db_def stops_access_def ranges_meet_def handle_ctx_def
        sample_handle_def sample_simps brl_spec_simps)
  then have n: "\<not> (\<forall>l \<in> set (file_locks sample_db (sample_handle 8)). stops_access l ?p \<longrightarrow>
      \<not> serverid_exists sample_env (lock_pid (lock_ctx l)))"
    by auto
  show ?thesis using a unfolding eq_False [THEN iffD2, OF n] by simp
qed

end
