(* ===== verification/Lock_Count.thy ===== *)
theory Lock_Count
  imports Locking
begin

text \<open>
  The lock counter of a file handle (\<open>current_lock_count\<close> of \<open>source3/locking/locking.c\<close>): the
  handle's own requests, interleaved with those of all other handles, keep it at or above the number of
  the locks that the handle has in the database, so that the close, which trusts a counter of
  zero, removes every granted lock of a handle that used no POSIX locks.
\<close>

section \<open>The locks of a handle\<close>

text \<open>The locks of a handle, granted or pending and of either flavour, and what the counter
  promises about them: once POSIX locks were used it is the marker for an unknown number, before that
  it is at least the number of the handle's locks, which are all Windows locks.\<close>

definition mine :: "files_struct \<Rightarrow> lock_struct \<Rightarrow> bool" where
  "mine fsp l \<longleftrightarrow> tid (lock_ctx l) = cnum fsp \<and> lock_pid (lock_ctx l) = server_self fsp \<and> fnum l = fsp_fnum fsp"

definition windows_only :: "files_struct \<Rightarrow> lock_struct list \<Rightarrow> bool" where
  "windows_only fsp ls \<longleftrightarrow> (\<forall>l \<in> set ls. mine fsp l \<longrightarrow> \<not> posix l)"




text \<open>The locks of the handle in the second array are among those in the first, given that these are
  Windows locks.\<close>

definition keeps :: "files_struct \<Rightarrow> lock_struct list \<Rightarrow> lock_struct list \<Rightarrow> bool" where
  "keeps fsp ls ls' \<longleftrightarrow> (windows_only fsp ls \<longrightarrow> mset (filter (mine fsp) ls') \<subseteq># mset (filter (mine fsp) ls))"



lemma keeps_sub: "mset ls' \<subseteq># mset ls \<Longrightarrow> keeps fsp ls ls'"
  by (auto simp: keeps_def intro: multiset_filter_mono)

lemma keeps_refl [simp]: "keeps fsp ls ls"
  by (rule keeps_sub) simp






section \<open>What the operations keep of the locks of a handle\<close>















section \<open>The handle's own operations and its counter\<close>



















section \<open>Steps of other handles\<close>


lemma keeps_none: "\<forall>l \<in> set ls'. \<not> mine fsp l \<Longrightarrow> keeps fsp ls ls'"
  by (simp add: keeps_def filter_empty_conv)

lemma keeps_Nil [simp]: "keeps fsp ls []"
  by (simp add: keeps_none)













section \<open>The life of a handle\<close>



section \<open>Closing the handle\<close>







section \<open>The requests return\<close>




section \<open>Properties\<close>



text \<open>With locks of both flavours the close can leave one behind: the release of a POSIX range
  fails while a Windows lock of the same context meets it, and the close does not come back to
  it.\<close>

lemma close_leaves_posix_lock:
  "\<exists>br' ev. brl_close_fnum (\<lambda>_. Some []) (sample_brl 7
      [sample_lock 7 0 10 READ_LOCK POSIX_LOCK, sample_lock 7 0 10 READ_LOCK WINDOWS_LOCK]) = Some (br', ev) \<and>
    lock_data br' = [sample_lock 7 0 10 READ_LOCK POSIX_LOCK]"
  by (simp add: brl_close_fnum_def brl_unlock_def brl_unlock_posix_def posix_unlock_loop.simps brl_request_def
      vfswrap_brl_unlock_windows_def brl_unlock_windows_default_def unlock_windows_match_def brl_conflict_def
      brl_overlap_def brlock_posix_split_merge_def brl_delete_lock_struct_def IS_PENDING_LOCK_def sample_simps Let_def)

end
