(* ===== verification/Share_Mode.thy ===== *)
theory Share_Mode
  imports Locking Security_Desc
begin

text \<open>
  The share mode record of a file (\<open>source3/locking/locking.c\<close>): one entry per open of the file in
  any process, the table of leases that entries refer to by index, and the delete on close tokens.
  Every operation runs while the record is locked. \<open>share_conflict\<close> and \<open>open_mode_check\<close> of
  \<open>source3/smbd/open.c\<close> decide from it whether a file can be opened once more. The lemmas relate
  the arrays to a list of entries that carry their lease, and the tokens to a map from names.
\<close>

section \<open>Data\<close>

definition UINT32_MAX_u32 :: u32 where
  "UINT32_MAX_u32 = 0xFFFFFFFF"

definition NO_OPLOCK :: u16 where "NO_OPLOCK = 0"
definition EXCLUSIVE_OPLOCK :: u16 where "EXCLUSIVE_OPLOCK = 1"
definition BATCH_OPLOCK :: u16 where "BATCH_OPLOCK = 2"
definition LEVEL_II_OPLOCK :: u16 where "LEVEL_II_OPLOCK = 4"
definition LEASE_OPLOCK :: u16 where "LEASE_OPLOCK = 0x100"

lemmas oplock_defs = NO_OPLOCK_def EXCLUSIVE_OPLOCK_def BATCH_OPLOCK_def LEVEL_II_OPLOCK_def
  LEASE_OPLOCK_def

definition EXCLUSIVE_OPLOCK_TYPE :: "u16 \<Rightarrow> bool" where
  "EXCLUSIVE_OPLOCK_TYPE lck = flag lck (EXCLUSIVE_OPLOCK OR BATCH_OPLOCK)"

definition BATCH_OPLOCK_TYPE :: "u16 \<Rightarrow> bool" where
  "BATCH_OPLOCK_TYPE lck = flag lck BATCH_OPLOCK"

definition LEVEL_II_OPLOCK_TYPE :: "u16 \<Rightarrow> bool" where
  "LEVEL_II_OPLOCK_TYPE lck = flag lck LEVEL_II_OPLOCK"

type_synonym smb2_lease_key = "u64 \<times> u64"

record share_mode_lease =
  client_guid :: GUID
  sl_lease_key :: smb2_lease_key
  current_state :: u32
  breaking :: bool
  breaking_to_requested :: u32
  breaking_to_required :: u32
  sl_lease_version :: u16
  epoch :: u16

record share_mode_entry =
  e_pid :: server_id
  op_mid :: u64
  op_type :: u16
  lease_idx :: u32
  e_access_mask :: u32
  e_share_access :: u32
  e_private_options :: u32
  e_time :: "int \<times> int"
  share_file_id :: u64
  e_uid :: u32
  e_flags :: u16
  e_name_hash :: u32
  stale :: bool

record security_unix_token =
  ut_uid :: u64
  ut_gid :: u64
  ut_groups :: "u64 list"

record delete_token =
  dt_name_hash :: u32
  delete_nt_token :: security_token
  delete_unix_token :: security_unix_token

text \<open>The counters \<open>num_share_modes\<close>, \<open>num_leases\<close> and \<open>num_delete_tokens\<close> are the lengths of the
  lists. The names, write times and the sequence number of the record are not touched by the
  operations of this theory.\<close>

record share_mode_data =
  share_modes :: "share_mode_entry list"
  leases :: "share_mode_lease list"
  delete_tokens :: "delete_token list"
  d_modified :: bool
  d_id :: file_id

text \<open>An open file: the part that the byte range locks use, and what share modes need of
  \<open>files_struct\<close>, its \<open>fh\<close> and its connection.\<close>

record open_file =
  of_fsp :: files_struct
  of_share_access :: u32
  of_private_options :: u32
  of_access_mask :: u32
  of_open_time :: "int \<times> int"
  of_gen_id :: u64
  of_posix_flags :: u32
  of_name_hash :: u32
  of_delete_on_close :: bool
  of_client_guid :: GUID

text \<open>What the operations send or tell other databases.\<close>

datatype share_event =
    Leases_db_del GUID smb2_lease_key file_id
  | MSG_SMB_NOTIFY_CANCEL_DELETED server_id file_id
  | Stat_cache_delete

section \<open>Entries and the lease table\<close>

text \<open>\<open>exists\<close> is \<open>serverid_exists\<close>. \<open>None\<close> stands for \<open>smb_panic\<close>, here and in the functions that
  follow, and for a read behind the end of an array.\<close>

definition is_valid_share_mode_entry :: "(server_id \<Rightarrow> bool) \<Rightarrow> share_mode_entry \<Rightarrow> bool option" where
  "is_valid_share_mode_entry exists e =
     (if stale e then Some False
      else
        let num_props = (if op_type e = NO_OPLOCK then 1 else 0) +
                        (if EXCLUSIVE_OPLOCK_TYPE (op_type e) then 1 else 0) +
                        (if LEVEL_II_OPLOCK_TYPE (op_type e) then 1 else 0) +
                        (if op_type e = LEASE_OPLOCK then 1 else (0 :: nat))
        in if num_props > 1 \<and> exists (e_pid e) then None else Some (num_props \<noteq> 0))"

text \<open>Whether an entry other than the \<open>i\<close>-th one refers to a lease; \<open>k\<close> is the index of the first
  entry of the list.\<close>

fun other_reference :: "nat \<Rightarrow> u32 \<Rightarrow> nat \<Rightarrow> share_mode_entry list \<Rightarrow> bool" where
  "other_reference i idx k [] = False"
| "other_reference i idx k (e # es) =
     (if stale e then other_reference i idx (k + 1) es
      else if k = i then other_reference i idx (k + 1) es
      else if lease_idx e = idx then True
      else other_reference i idx (k + 1) es)"

definition remove_share_mode_lease ::
    "share_mode_data \<Rightarrow> nat \<Rightarrow> (share_mode_data \<times> share_event list) option" where
  "remove_share_mode_lease d i =
     (let e = share_modes d ! i;
          d1 = d\<lparr>share_modes := (share_modes d)[i := e\<lparr>op_type := NO_OPLOCK\<rparr>], d_modified := True\<rparr>
      in if op_type e \<noteq> LEASE_OPLOCK then Some (d1, [])
         else
           let idx = lease_idx e;
               d2 = d1\<lparr>share_modes := (share_modes d)[i := e\<lparr>op_type := NO_OPLOCK, lease_idx := UINT32_MAX_u32\<rparr>]\<rparr>
           in if other_reference i idx 0 (share_modes d2) then Some (d2, [])
              else if unat idx \<ge> length (leases d) then None
              else
                let l = leases d ! unat idx;
                    n = length (leases d) - 1
                in Some (d2\<lparr>leases := take n ((leases d)[unat idx := leases d ! n]),
                            share_modes := map (\<lambda>e. if lease_idx e = of_nat n then e\<lparr>lease_idx := idx\<rparr> else e)
                              (share_modes d2)\<rparr>,
                         [Leases_db_del (client_guid l) (sl_lease_key l) (d_id d)]))"

text \<open>The test at the start allows an index equal to the number of entries.\<close>

definition share_mode_stale_pid ::
    "(server_id \<Rightarrow> bool) \<Rightarrow> share_mode_data \<Rightarrow> nat \<Rightarrow> (bool \<times> share_mode_data \<times> share_event list) option" where
  "share_mode_stale_pid exists d idx =
     (if idx > length (share_modes d) then Some (False, d, [])
      else if idx = length (share_modes d) then None
      else
        let e = share_modes d ! idx in
        if stale e then Some (True, d, [])
        else if exists (e_pid e) then Some (False, d, [])
        else
          let d1 = d\<lparr>share_modes := (share_modes d)[idx := e\<lparr>stale := True\<rparr>]\<rparr>;
              d2 = (if delete_tokens d1 \<noteq> [] \<and> list_all stale (share_modes d1)
                    then d1\<lparr>delete_tokens := []\<rparr> else d1)
          in map_option (\<lambda>(d3, ev). (True, d3\<lparr>d_modified := True\<rparr>, ev)) (remove_share_mode_lease d2 idx))"

text \<open>Deleting an element of an array by moving the last one to its place.\<close>

definition swap_remove :: "nat \<Rightarrow> 'a list \<Rightarrow> 'a list" where
  "swap_remove i xs = butlast (xs[i := last xs])"

function remove_stale_loop :: "nat \<Rightarrow> share_mode_entry list \<Rightarrow> share_mode_entry list" where
  "remove_stale_loop i m =
     (if i < length m then
        if stale (m ! i) then remove_stale_loop i (swap_remove i m)
        else remove_stale_loop (i + 1) m
      else m)"
  by pat_completeness auto
termination
  by (relation "measure (\<lambda>(i, m). length m - i)") (auto simp: swap_remove_def)

declare remove_stale_loop.simps [simp del]

definition remove_stale_share_mode_entries :: "share_mode_data \<Rightarrow> share_mode_data" where
  "remove_stale_share_mode_entries d = d\<lparr>share_modes := remove_stale_loop 0 (share_modes d)\<rparr>"

definition FSP_POSIX_FLAGS_OPEN :: u32 where
  "FSP_POSIX_FLAGS_OPEN = 0x01"

definition SHARE_MODE_FLAG_POSIX_OPEN :: u16 where
  "SHARE_MODE_FLAG_POSIX_OPEN = 0x1"

definition set_share_mode ::
    "talloc \<Rightarrow> share_mode_data \<Rightarrow> open_file \<Rightarrow> u32 \<Rightarrow> u64 \<Rightarrow> u16 \<Rightarrow> u32 \<Rightarrow> bool \<times> share_mode_data" where
  "set_share_mode mem d fsp uid mid op_type0 lease_idx0 =
     (if lease_idx0 \<noteq> UINT32_MAX_u32 \<and> unat lease_idx0 \<ge> length (leases d) then (False, d)
      else if talloc_fails mem 0 then (False, d)
      else
        (True, d\<lparr>share_modes := share_modes d @
           [\<lparr>e_pid = server_self (of_fsp fsp), op_mid = mid, op_type = op_type0, lease_idx = lease_idx0,
             e_access_mask = of_access_mask fsp, e_share_access = of_share_access fsp,
             e_private_options = of_private_options fsp, e_time = of_open_time fsp,
             share_file_id = of_gen_id fsp, e_uid = uid,
             e_flags = (if flag (of_posix_flags fsp) FSP_POSIX_FLAGS_OPEN then SHARE_MODE_FLAG_POSIX_OPEN else 0),
             e_name_hash = of_name_hash fsp, stale = False\<rparr>],
           d_modified := True\<rparr>))"

text \<open>The index of the entry, \<open>Some None\<close> when there is none.\<close>

fun find_entry_loop ::
    "(server_id \<Rightarrow> bool) \<Rightarrow> server_id \<Rightarrow> u64 \<Rightarrow> nat \<Rightarrow> share_mode_entry list \<Rightarrow> nat option option" where
  "find_entry_loop exists self gen_id i [] = Some None"
| "find_entry_loop exists self gen_id i (e # es) =
     (case is_valid_share_mode_entry exists e of
        None \<Rightarrow> None
      | Some valid \<Rightarrow>
          if \<not> valid then find_entry_loop exists self gen_id (i + 1) es
          else if \<not> server_id_equal self (e_pid e) then find_entry_loop exists self gen_id (i + 1) es
          else if gen_id \<noteq> share_file_id e then find_entry_loop exists self gen_id (i + 1) es
          else Some (Some i))"

definition find_share_mode_entry ::
    "(server_id \<Rightarrow> bool) \<Rightarrow> share_mode_data \<Rightarrow> open_file \<Rightarrow> nat option option" where
  "find_share_mode_entry exists d fsp =
     find_entry_loop exists (server_self (of_fsp fsp)) (of_gen_id fsp) 0 (share_modes d)"

text \<open>The result, the record and what was sent.\<close>

type_synonym share_result = "(bool \<times> share_mode_data \<times> share_event list) option"

definition del_share_mode :: "(server_id \<Rightarrow> bool) \<Rightarrow> share_mode_data \<Rightarrow> open_file \<Rightarrow> share_result" where
  "del_share_mode exists d fsp =
     (case find_share_mode_entry exists d fsp of
        None \<Rightarrow> None
      | Some None \<Rightarrow> Some (False, d, [])
      | Some (Some i) \<Rightarrow>
          map_option (\<lambda>(d1, ev). (True, d1\<lparr>share_modes := swap_remove i (share_modes d1), d_modified := True\<rparr>, ev))
            (remove_share_mode_lease d i))"

definition mark_share_mode_disconnected ::
    "(server_id \<Rightarrow> bool) \<Rightarrow> share_mode_data \<Rightarrow> open_file \<Rightarrow> share_result" where
  "mark_share_mode_disconnected exists d fsp =
     (if length (share_modes d) \<noteq> 1 then Some (False, d, [])
      else
        case op (of_fsp fsp) of
          None \<Rightarrow> Some (False, d, [])
        | Some (open_persistent_id, durable) \<Rightarrow>
            if \<not> durable then Some (False, d, [])
            else
              (case find_share_mode_entry exists d fsp of
                 None \<Rightarrow> None
               | Some None \<Rightarrow> Some (False, d, [])
               | Some (Some i) \<Rightarrow>
                   let e = share_modes d ! i in
                   Some (True, d\<lparr>share_modes := (share_modes d)[i := e\<lparr>
                       e_pid := server_id_set_disconnected (e_pid e), share_file_id := open_persistent_id\<rparr>],
                     d_modified := True\<rparr>, [])))"

definition remove_share_oplock :: "(server_id \<Rightarrow> bool) \<Rightarrow> share_mode_data \<Rightarrow> open_file \<Rightarrow> share_result" where
  "remove_share_oplock exists d fsp =
     (case find_share_mode_entry exists d fsp of
        None \<Rightarrow> None
      | Some None \<Rightarrow> Some (False, d, [])
      | Some (Some i) \<Rightarrow>
          map_option (\<lambda>(d1, ev). (True, d1\<lparr>d_modified := True\<rparr>, ev)) (remove_share_mode_lease d i))"

definition downgrade_share_oplock :: "(server_id \<Rightarrow> bool) \<Rightarrow> share_mode_data \<Rightarrow> open_file \<Rightarrow> share_result" where
  "downgrade_share_oplock exists d fsp =
     (case find_share_mode_entry exists d fsp of
        None \<Rightarrow> None
      | Some None \<Rightarrow> Some (False, d, [])
      | Some (Some i) \<Rightarrow>
          Some (True, d\<lparr>share_modes := (share_modes d)[i := (share_modes d ! i)\<lparr>op_type := LEVEL_II_OPLOCK\<rparr>],
                        d_modified := True\<rparr>, []))"

section \<open>Delete on close tokens\<close>

definition dup_nt_token :: "talloc \<Rightarrow> security_token option \<Rightarrow> security_token option" where
  "dup_nt_token mem ptoken =
     (case ptoken of
        None \<Rightarrow> None
      | Some t \<Rightarrow>
          if talloc_fails mem 0 then None
          else if sids t \<noteq> [] \<and> talloc_fails mem 1 then None
          else Some \<lparr>sids = sids t, privilege_mask = privilege_mask t, rights_mask = rights_mask t\<rparr>)"

definition copy_unix_token :: "talloc \<Rightarrow> security_unix_token \<Rightarrow> security_unix_token option" where
  "copy_unix_token mem tok =
     (if talloc_fails mem 0 then None
      else if ut_groups tok \<noteq> [] \<and> talloc_fails mem 1 then None
      else Some \<lparr>ut_uid = ut_uid tok, ut_gid = ut_gid tok, ut_groups = ut_groups tok\<rparr>)"

definition add_delete_on_close_token ::
    "talloc \<Rightarrow> share_mode_data \<Rightarrow> u32 \<Rightarrow> security_token option \<Rightarrow> security_unix_token \<Rightarrow>
     bool \<times> share_mode_data" where
  "add_delete_on_close_token mem d name_hash nt_tok tok =
     (if talloc_fails mem 0 then (False, d)
      else
        case dup_nt_token (\<lambda>k. mem (k + 1)) nt_tok of
          None \<Rightarrow> (False, d)
        | Some nt \<Rightarrow>
            (case copy_unix_token (\<lambda>k. mem (k + 3)) tok of
               None \<Rightarrow> (False, d)
             | Some ut \<Rightarrow>
                 (True, d\<lparr>delete_tokens := delete_tokens d @
                   [\<lparr>dt_name_hash = name_hash, delete_nt_token = nt, delete_unix_token = ut\<rparr>],
                   d_modified := True\<rparr>)))"

text \<open>The loop goes on behind the place of a deleted token, so the token that was moved there is
  not looked at.\<close>

function reset_loop :: "u32 \<Rightarrow> nat \<Rightarrow> delete_token list \<Rightarrow> bool \<Rightarrow> delete_token list \<times> bool" where
  "reset_loop name_hash i ts m =
     (if i < length ts then
        if dt_name_hash (ts ! i) = name_hash then reset_loop name_hash (i + 1) (swap_remove i ts) True
        else reset_loop name_hash (i + 1) ts m
      else (ts, m))"
  by pat_completeness auto
termination
  by (relation "measure (\<lambda>(h, i, ts, m). length ts - i)") (auto simp: swap_remove_def)

declare reset_loop.simps [simp del]

definition reset_delete_on_close_lck :: "open_file \<Rightarrow> share_mode_data \<Rightarrow> share_mode_data" where
  "reset_delete_on_close_lck fsp d =
     (case reset_loop (of_name_hash fsp) 0 (delete_tokens d) (d_modified d) of
        (ts, m) \<Rightarrow> d\<lparr>delete_tokens := ts, d_modified := m\<rparr>)"

text \<open>Replacing a token in place: the copies are made with the address of the token as their
  memory context. Only the first token of the array is at the address of an allocated block; for
  any other one \<open>talloc\<close> finds no block header in front of the address and aborts.\<close>

fun replace_token_loop ::
    "talloc \<Rightarrow> u32 \<Rightarrow> security_token \<Rightarrow> security_unix_token \<Rightarrow> nat \<Rightarrow> delete_token list \<Rightarrow>
     delete_token list option option" where
  "replace_token_loop mem name_hash nt_tok tok i [] = Some None"
| "replace_token_loop mem name_hash nt_tok tok i (dt # dts) =
     (if dt_name_hash dt = name_hash then
        if i \<noteq> 0 then None
        else
          case dup_nt_token mem (Some nt_tok) of
            None \<Rightarrow> None
          | Some nt \<Rightarrow>
              (case copy_unix_token (\<lambda>k. mem (k + 2)) tok of
                 None \<Rightarrow> None
               | Some ut \<Rightarrow> Some (Some (dt\<lparr>delete_nt_token := nt, delete_unix_token := ut\<rparr> # dts)))
      else map_option (map_option ((#) dt)) (replace_token_loop mem name_hash nt_tok tok (i + 1) dts))"

definition set_delete_on_close_lck ::
    "talloc \<Rightarrow> open_file \<Rightarrow> share_mode_data \<Rightarrow> security_token option \<Rightarrow> security_unix_token option \<Rightarrow>
     (share_mode_data \<times> share_event list) option" where
  "set_delete_on_close_lck mem fsp d nt_tok tok =
     (case (nt_tok, tok) of
        (Some nt, Some ut) \<Rightarrow>
          (case replace_token_loop mem (of_name_hash fsp) nt ut 0 (delete_tokens d) of
             None \<Rightarrow> None
           | Some (Some ts) \<Rightarrow> Some (d\<lparr>delete_tokens := ts, d_modified := True\<rparr>, [])
           | Some None \<Rightarrow>
               (case add_delete_on_close_token (\<lambda>k. mem (k + 4)) d (of_name_hash fsp) nt_tok ut of
                  (ret, d') \<Rightarrow>
                    if \<not> ret then None
                    else Some (d', map (\<lambda>e. MSG_SMB_NOTIFY_CANCEL_DELETED (e_pid e) (fsp_file_id (of_fsp fsp)))
                                     (share_modes d'))))
      | _ \<Rightarrow> None)"

text \<open>\<open>lck\<close> is the result of \<open>get_existing_share_mode_lock\<close>, \<open>is_stream\<close> that of
  \<open>is_ntfs_stream_smb_fname\<close>.\<close>

definition set_delete_on_close ::
    "talloc \<Rightarrow> share_mode_data option \<Rightarrow> bool \<Rightarrow> open_file \<Rightarrow> bool \<Rightarrow> security_token option \<Rightarrow>
     security_unix_token option \<Rightarrow>
     (bool \<times> share_mode_data option \<times> open_file \<times> share_event list) option" where
  "set_delete_on_close mem lck is_stream fsp doc nt_tok tok =
     (case lck of
        None \<Rightarrow> Some (False, None, fsp, [])
      | Some d \<Rightarrow>
          (case (if doc then set_delete_on_close_lck mem fsp d nt_tok tok
                 else Some (reset_delete_on_close_lck fsp d, [])) of
             None \<Rightarrow> None
           | Some (d', ev) \<Rightarrow>
               if is_directory (of_fsp fsp) \<and> is_stream then None
               else Some (True, Some d', fsp\<lparr>of_delete_on_close := doc\<rparr>,
                          ev @ (if is_directory (of_fsp fsp) then [Stat_cache_delete] else []))))"

fun find_delete_on_close_token :: "delete_token list \<Rightarrow> u32 \<Rightarrow> delete_token option" where
  "find_delete_on_close_token [] name_hash = None"
| "find_delete_on_close_token (dt # dts) name_hash =
     (if dt_name_hash dt = name_hash then Some dt else find_delete_on_close_token dts name_hash)"

definition get_delete_on_close_token ::
    "share_mode_data \<Rightarrow> u32 \<Rightarrow> (security_token \<times> security_unix_token) option" where
  "get_delete_on_close_token d name_hash =
     map_option (\<lambda>dt. (delete_nt_token dt, delete_unix_token dt))
       (find_delete_on_close_token (delete_tokens d) name_hash)"

definition is_delete_on_close_set :: "share_mode_data \<Rightarrow> u32 \<Rightarrow> bool" where
  "is_delete_on_close_set d name_hash = (find_delete_on_close_token (delete_tokens d) name_hash \<noteq> None)"

section \<open>Checking the share modes of an open\<close>

definition FILE_READ_DATA :: u32 where "FILE_READ_DATA = 0x00000001"
definition FILE_WRITE_DATA :: u32 where "FILE_WRITE_DATA = 0x00000002"
definition FILE_APPEND_DATA :: u32 where "FILE_APPEND_DATA = 0x00000004"
definition FILE_EXECUTE :: u32 where "FILE_EXECUTE = 0x00000020"
definition FILE_READ_ATTRIBUTES :: u32 where "FILE_READ_ATTRIBUTES = 0x00000080"
definition FILE_WRITE_ATTRIBUTES :: u32 where "FILE_WRITE_ATTRIBUTES = 0x00000100"
definition DELETE_ACCESS :: u32 where "DELETE_ACCESS = 0x00010000"
definition SYNCHRONIZE_ACCESS :: u32 where "SYNCHRONIZE_ACCESS = 0x00100000"
definition FILE_SHARE_READ :: u32 where "FILE_SHARE_READ = 1"
definition FILE_SHARE_WRITE :: u32 where "FILE_SHARE_WRITE = 2"
definition FILE_SHARE_DELETE :: u32 where "FILE_SHARE_DELETE = 4"

lemmas file_access_defs = FILE_READ_DATA_def FILE_WRITE_DATA_def FILE_APPEND_DATA_def FILE_EXECUTE_def
  FILE_READ_ATTRIBUTES_def FILE_WRITE_ATTRIBUTES_def DELETE_ACCESS_def SYNCHRONIZE_ACCESS_def
  FILE_SHARE_READ_def FILE_SHARE_WRITE_def FILE_SHARE_DELETE_def

definition CHECK_MASK :: "u32 \<Rightarrow> u32 \<Rightarrow> u32 \<Rightarrow> u32 \<Rightarrow> bool" where
  "CHECK_MASK am right sa share = (flag am right \<and> \<not> flag sa share)"

definition share_conflict :: "share_mode_entry \<Rightarrow> u32 \<Rightarrow> u32 \<Rightarrow> bool" where
  "share_conflict entry am sa =
     (let data_bits = FILE_WRITE_DATA OR FILE_APPEND_DATA OR FILE_READ_DATA OR FILE_EXECUTE OR DELETE_ACCESS;
          eam = e_access_mask entry;
          esa = e_share_access entry
      in if server_id_is_disconnected (e_pid entry) then False
         else if eam AND data_bits = 0 then False
         else if am AND data_bits = 0 then False
         else if CHECK_MASK eam (FILE_WRITE_DATA OR FILE_APPEND_DATA) sa FILE_SHARE_WRITE then True
         else if CHECK_MASK am (FILE_WRITE_DATA OR FILE_APPEND_DATA) esa FILE_SHARE_WRITE then True
         else if CHECK_MASK eam (FILE_READ_DATA OR FILE_EXECUTE) sa FILE_SHARE_READ then True
         else if CHECK_MASK am (FILE_READ_DATA OR FILE_EXECUTE) esa FILE_SHARE_READ then True
         else if CHECK_MASK eam DELETE_ACCESS sa FILE_SHARE_DELETE then True
         else if CHECK_MASK am DELETE_ACCESS esa FILE_SHARE_DELETE then True
         else False)"

definition is_stat_open :: "u32 \<Rightarrow> bool" where
  "is_stat_open am =
     (let stat_open_bits = SYNCHRONIZE_ACCESS OR FILE_READ_ATTRIBUTES OR FILE_WRITE_ATTRIBUTES
      in am AND stat_open_bits \<noteq> 0 \<and> am AND NOT stat_open_bits = 0)"

text \<open>The loops run over the indices of the entries, whose number \<open>share_mode_stale_pid\<close> keeps.\<close>

fun some_not_stale ::
    "(server_id \<Rightarrow> bool) \<Rightarrow> share_mode_data \<Rightarrow> nat list \<Rightarrow> (bool \<times> share_mode_data \<times> share_event list) option" where
  "some_not_stale exists d [] = Some (False, d, [])"
| "some_not_stale exists d (i # is) =
     (case share_mode_stale_pid exists d i of
        None \<Rightarrow> None
      | Some (False, d', ev) \<Rightarrow> Some (True, d', ev)
      | Some (True, d', ev) \<Rightarrow>
          map_option (\<lambda>(r, d'', ev'). (r, d'', ev @ ev')) (some_not_stale exists d' is))"

definition has_delete_on_close :: "(server_id \<Rightarrow> bool) \<Rightarrow> share_mode_data \<Rightarrow> u32 \<Rightarrow> share_result" where
  "has_delete_on_close exists d name_hash =
     (if share_modes d = [] then Some (False, d, [])
      else if \<not> is_delete_on_close_set d name_hash then Some (False, d, [])
      else some_not_stale exists d [0..<length (share_modes d)])"

fun mode_check_loop ::
    "(server_id \<Rightarrow> bool) \<Rightarrow> u32 \<Rightarrow> u32 \<Rightarrow> share_mode_data \<Rightarrow> nat list \<Rightarrow>
     (NTSTATUS \<times> share_mode_data \<times> share_event list) option" where
  "mode_check_loop exists am sa d [] = Some (NT_STATUS_OK, d, [])"
| "mode_check_loop exists am sa d (i # is) =
     (case is_valid_share_mode_entry exists (share_modes d ! i) of
        None \<Rightarrow> None
      | Some valid \<Rightarrow>
          if \<not> valid then mode_check_loop exists am sa d is
          else if share_conflict (share_modes d ! i) am sa then
            (case share_mode_stale_pid exists d i of
               None \<Rightarrow> None
             | Some (True, d', ev) \<Rightarrow>
                 map_option (\<lambda>(r, d'', ev'). (r, d'', ev @ ev')) (mode_check_loop exists am sa d' is)
             | Some (False, d', ev) \<Rightarrow> Some (NT_STATUS_SHARING_VIOLATION, d', ev))
          else mode_check_loop exists am sa d is)"

definition open_mode_check ::
    "(server_id \<Rightarrow> bool) \<Rightarrow> share_mode_data \<Rightarrow> u32 \<Rightarrow> u32 \<Rightarrow>
     (NTSTATUS \<times> share_mode_data \<times> share_event list) option" where
  "open_mode_check exists d am sa =
     (if share_modes d = [] then Some (NT_STATUS_OK, d, [])
      else if is_stat_open am then Some (NT_STATUS_OK, d, [])
      else mode_check_loop exists am sa d [0..<length (share_modes d)])"

section \<open>Arrays with deletion by the last element\<close>

lemma length_swap_remove [simp]: "length (swap_remove i xs) = length xs - 1"
  by (simp add: swap_remove_def)

lemma mset_swap_remove: "i < length xs \<Longrightarrow> mset (swap_remove i xs) = mset xs - {#xs ! i#}"
proof (cases xs rule: rev_cases)
  case (snoc ys z)
  assume i: "i < length xs"
  show ?thesis
  proof (cases "i = length ys")
    case True
    then show ?thesis using snoc by (simp add: swap_remove_def list_update_append)
  next
    case False
    then have "i < length ys" using i snoc by simp
    then show ?thesis using snoc
      by (simp add: swap_remove_def list_update_append mset_update nth_append
          add_mset_remove_trivial_If)
  qed
qed simp

lemma map_swap_remove: "xs \<noteq> [] \<Longrightarrow> map f (swap_remove i xs) = swap_remove i (map f xs)"
  by (simp add: swap_remove_def map_butlast map_update last_map)

lemma set_swap_remove: "i < length xs \<Longrightarrow> set (swap_remove i xs) \<subseteq> set xs"
  by (metis diff_subset_eq_self mset_swap_remove set_mset_mono set_mset_mset)

lemma filter_swap_remove:
  "i < length xs \<Longrightarrow> \<not> P (xs ! i) \<Longrightarrow> mset (filter P (swap_remove i xs)) = mset (filter P xs)"
  by (simp add: mset_swap_remove)

text \<open>A symmetric relation between all pairs of a list does not depend on the order.\<close>

lemma sorted_wrt_perm:
  assumes "symp R" "mset xs = mset ys" "sorted_wrt R xs"
  shows "sorted_wrt R ys"
  using assms(2,3)
proof (induction xs arbitrary: ys)
  case (Cons x xs)
  from Cons.prems(1) have "x \<in> set ys"
    by (metis list.set_intros(1) mset_eq_setD)
  then obtain as bs where ys: "ys = as @ x # bs"
    by (meson split_list)
  with Cons.prems(1) have m: "mset xs = mset (as @ bs)" by simp
  with Cons have "sorted_wrt R (as @ bs)" by simp
  moreover have "set xs = set (as @ bs)" using m by (rule mset_eq_setD)
  then have "\<forall>y\<in>set (as @ bs). R x y \<and> R y x"
    using Cons.prems(2) assms(1) by (auto dest: sympD)
  ultimately show ?case by (auto simp: ys sorted_wrt_append)
qed simp

lemma sorted_wrt_submset:
  assumes "symp R" "mset ys \<subseteq># mset xs" "sorted_wrt R xs"
  shows "sorted_wrt R ys"
proof -
  obtain zs where "mset xs = mset (ys @ zs)"
    using assms(2) by (metis ex_mset mset_append subset_mset.less_eqE)
  then have "sorted_wrt R (ys @ zs)" using assms sorted_wrt_perm by metis
  then show ?thesis by (simp add: sorted_wrt_append)
qed

lemma distinct_submset: "mset ys \<subseteq># mset xs \<Longrightarrow> distinct xs \<Longrightarrow> distinct ys"
  by (metis distinct_append ex_mset mset_append mset_eq_imp_distinct_iff subset_mset.less_eqE)

section \<open>Entries with their leases\<close>

definition lease_of :: "share_mode_data \<Rightarrow> share_mode_entry \<Rightarrow> share_mode_lease option" where
  "lease_of d e = (if op_type e = LEASE_OPLOCK then Some (leases d ! unat (lease_idx e)) else None)"

definition entries :: "share_mode_data \<Rightarrow> (share_mode_entry \<times> share_mode_lease option) list" where
  "entries d = map (\<lambda>e. (e\<lparr>lease_idx := 0\<rparr>, lease_of d e)) (share_modes d)"

definition op_ok :: "u16 \<Rightarrow> bool" where
  "op_ok t \<longleftrightarrow> t = NO_OPLOCK \<or> t = EXCLUSIVE_OPLOCK \<or> t = BATCH_OPLOCK OR EXCLUSIVE_OPLOCK \<or>
     t = LEVEL_II_OPLOCK \<or> t = LEASE_OPLOCK"

definition entry_ok :: "nat \<Rightarrow> share_mode_entry \<Rightarrow> bool" where
  "entry_ok n e \<longleftrightarrow>
     (if op_type e = LEASE_OPLOCK then unat (lease_idx e) < n else lease_idx e = UINT32_MAX_u32) \<and>
     (stale e \<longrightarrow> op_type e = NO_OPLOCK) \<and> op_ok (op_type e)"

definition lease_id :: "share_mode_lease \<Rightarrow> GUID \<times> smb2_lease_key" where
  "lease_id l = (client_guid l, sl_lease_key l)"

text \<open>The invariant of the lease table: indices of lease entries are inside of the table, all other
  entries have the index that stands for none, and no lease is in the table twice.\<close>

definition table_ok :: "share_mode_data \<Rightarrow> bool" where
  "table_ok d \<longleftrightarrow> length (leases d) < 2 ^ 32 - 1 \<and> list_all (entry_ok (length (leases d))) (share_modes d) \<and>
     distinct (map lease_id (leases d))"

text \<open>Every lease is in use.\<close>

definition leases_used :: "share_mode_data \<Rightarrow> bool" where
  "leases_used d \<longleftrightarrow> (\<forall>l\<in>set (leases d). Some l \<in> set (map snd (entries d)))"

lemma lease_of_update [simp]:
  "lease_of (d\<lparr>share_modes := sm\<rparr>) = lease_of d" "lease_of (d\<lparr>d_modified := b\<rparr>) = lease_of d"
  "lease_of (d\<lparr>delete_tokens := ts\<rparr>) = lease_of d"
  by (auto simp: lease_of_def fun_eq_iff)

lemma length_entries [simp]: "length (entries d) = length (share_modes d)"
  by (simp add: entries_def)

lemma nth_entries [simp]:
  "i < length (share_modes d) \<Longrightarrow>
   entries d ! i = ((share_modes d ! i)\<lparr>lease_idx := 0\<rparr>, lease_of d (share_modes d ! i))"
  by (simp add: entries_def)

lemma entries_cong:
  "share_modes d = share_modes d' \<Longrightarrow> leases d = leases d' \<Longrightarrow> entries d = entries d'"
  by (simp add: entries_def lease_of_def)

lemma u32_eq_of_nat: "n < 2 ^ 32 \<Longrightarrow> w = of_nat n \<longleftrightarrow> unat w = n" for w :: u32
  by (auto simp: unsigned_of_nat take_bit_nat_eq_self)

lemma unat_UINT32_MAX_u32: "unat UINT32_MAX_u32 = 2 ^ 32 - 1"
  by (simp add: UINT32_MAX_u32_def)

lemma ex_less_Suc: "(\<exists>j<Suc n. P j) \<longleftrightarrow> P 0 \<or> (\<exists>j<n. P (Suc j))"
  using less_Suc_eq_0_disj by auto

lemma other_reference_iff:
  "other_reference i idx k es \<longleftrightarrow>
   (\<exists>j<length es. k + j \<noteq> i \<and> \<not> stale (es ! j) \<and> lease_idx (es ! j) = idx)"
proof (induction es arbitrary: k)
  case (Cons e es)
  then show ?case
    by (simp add: Cons.IH ex_less_Suc)
qed simp

subsection \<open>Removing the lease of an entry\<close>

text \<open>The entry that loses its lease, the \<open>i\<close>-th one, may already be marked as stale.\<close>

definition table_ok_but :: "nat \<Rightarrow> share_mode_data \<Rightarrow> bool" where
  "table_ok_but i d \<longleftrightarrow> i < length (share_modes d) \<and> length (leases d) < 2 ^ 32 - 1 \<and>
     distinct (map lease_id (leases d)) \<and>
     (\<forall>j<length (share_modes d). j \<noteq> i \<longrightarrow> entry_ok (length (leases d)) (share_modes d ! j)) \<and>
     (if op_type (share_modes d ! i) = LEASE_OPLOCK
      then unat (lease_idx (share_modes d ! i)) < length (leases d)
      else lease_idx (share_modes d ! i) = UINT32_MAX_u32)"

lemma table_ok_but: "table_ok d \<Longrightarrow> i < length (share_modes d) \<Longrightarrow> table_ok_but i d"
  by (auto simp: table_ok_def table_ok_but_def list_all_length entry_ok_def split: if_splits)

lemma oplock_not_LEASE [simp]:
  "NO_OPLOCK \<noteq> LEASE_OPLOCK" "LEASE_OPLOCK \<noteq> NO_OPLOCK" "LEVEL_II_OPLOCK \<noteq> LEASE_OPLOCK"
  by (simp_all add: oplock_defs)

lemma entry_ok_removed [simp]:
  "entry_ok n (e\<lparr>op_type := NO_OPLOCK, lease_idx := UINT32_MAX_u32\<rparr>)"
  "lease_idx e = UINT32_MAX_u32 \<Longrightarrow> entry_ok n (e\<lparr>op_type := NO_OPLOCK\<rparr>)"
  by (simp_all add: entry_ok_def op_ok_def)

definition removed :: "share_mode_entry \<Rightarrow> share_mode_entry \<times> share_mode_lease option" where
  "removed e = (e\<lparr>op_type := NO_OPLOCK, lease_idx := 0\<rparr>, None)"

text \<open>The cases of the function: no lease, a lease that other entries use too, and the last
  reference, with the move of the last lease.\<close>

lemma remove_lease_none:
  assumes "table_ok_but i d" "op_type (share_modes d ! i) \<noteq> LEASE_OPLOCK"
  shows "\<exists>d'. remove_share_mode_lease d i = Some (d', []) \<and> table_ok d' \<and> leases d' = leases d \<and>
    entries d' = (entries d)[i := removed (share_modes d ! i)] \<and>
    delete_tokens d' = delete_tokens d \<and> d_id d' = d_id d"
proof -
  let ?d = "d\<lparr>share_modes := (share_modes d)[i := (share_modes d ! i)\<lparr>op_type := NO_OPLOCK\<rparr>], d_modified := True\<rparr>"
  have "table_ok ?d"
    using assms by (auto simp: table_ok_def table_ok_but_def list_all_length nth_list_update)
  moreover have "entries ?d = (entries d)[i := removed (share_modes d ! i)]"
    using assms(1)
    by (intro nth_equalityI) (auto simp: nth_list_update table_ok_but_def lease_of_def removed_def)
  ultimately show ?thesis using assms(2) by (simp add: remove_share_mode_lease_def)
qed

lemma remove_lease_shared:
  assumes "table_ok_but i d" "op_type (share_modes d ! i) = LEASE_OPLOCK"
    and "other_reference i (lease_idx (share_modes d ! i)) 0 (share_modes d)"
  shows "\<exists>d'. remove_share_mode_lease d i = Some (d', []) \<and> table_ok d' \<and> leases d' = leases d \<and>
    entries d' = (entries d)[i := removed (share_modes d ! i)] \<and>
    delete_tokens d' = delete_tokens d \<and> d_id d' = d_id d"
proof -
  let ?e = "(share_modes d ! i)\<lparr>op_type := NO_OPLOCK, lease_idx := UINT32_MAX_u32\<rparr>"
  let ?d = "d\<lparr>d_modified := True, share_modes := (share_modes d)[i := ?e]\<rparr>"
  have "table_ok ?d"
    using assms by (auto simp: table_ok_def table_ok_but_def list_all_length nth_list_update)
  moreover have "entries ?d = (entries d)[i := removed (share_modes d ! i)]"
    using assms(1)
    by (intro nth_equalityI) (auto simp: nth_list_update table_ok_but_def lease_of_def removed_def)
  moreover have "other_reference i (lease_idx (share_modes d ! i)) 0 ((share_modes d)[i := ?e])"
    using assms(3) by (auto simp: other_reference_iff)
  ultimately show ?thesis using assms(2) by (simp add: remove_share_mode_lease_def Let_def)
qed

text \<open>Renumbering an entry when the last of \<open>n + 1\<close> leases moves to place \<open>idx\<close>.\<close>

definition renumber :: "u32 \<Rightarrow> nat \<Rightarrow> share_mode_entry \<Rightarrow> share_mode_entry" where
  "renumber idx n e = (if lease_idx e = of_nat n then e\<lparr>lease_idx := idx\<rparr> else e)"

lemma renumber_simps [simp]:
  "op_type (renumber idx n e) = op_type e" "(renumber idx n e)\<lparr>lease_idx := k\<rparr> = e\<lparr>lease_idx := k\<rparr>"
  by (simp_all add: renumber_def)

lemma renumber_ok:
  assumes "entry_ok (Suc n) e" "n < 2 ^ 32 - 1" "unat idx < Suc n" "stale e \<or> lease_idx e \<noteq> idx"
  shows "entry_ok n (renumber idx n e)"
proof -
  have "of_nat n \<noteq> UINT32_MAX_u32"
    using assms(2) u32_eq_of_nat [of n UINT32_MAX_u32] unat_UINT32_MAX_u32 by auto
  then show ?thesis
    using assms u32_eq_of_nat [of n "lease_idx e"] u32_eq_of_nat [of n idx]
    by (auto simp: entry_ok_def renumber_def)
qed

lemma renumber_lease:
  assumes "entry_ok (Suc n) e" "n < 2 ^ 32 - 1" "length ls = Suc n" "unat idx < Suc n"
    and "op_type e = LEASE_OPLOCK \<Longrightarrow> lease_idx e \<noteq> idx" "op_type e = LEASE_OPLOCK"
  shows "take n (ls[unat idx := ls ! n]) ! unat (lease_idx (renumber idx n e)) = ls ! unat (lease_idx e)"
proof (cases "unat (lease_idx e) = n")
  case True
  then have "lease_idx e = of_nat n" using assms(2) u32_eq_of_nat [of n "lease_idx e"] by simp
  moreover have "unat idx \<noteq> n" using True assms(5,6) by (metis word_unat_eq_iff)
  ultimately show ?thesis using True assms(3,4) by (simp add: renumber_def)
next
  case False
  then have l: "unat (lease_idx e) < n" "lease_idx e \<noteq> of_nat n"
    using assms(1,2,6) u32_eq_of_nat [of n "lease_idx e"] by (auto simp: entry_ok_def)
  moreover have "unat (lease_idx e) \<noteq> unat idx" using assms(5,6) by (metis word_unat_eq_iff)
  ultimately show ?thesis using assms(3) by (simp add: renumber_def)
qed

lemma remove_lease_last:
  assumes "table_ok_but i d" "op_type (share_modes d ! i) = LEASE_OPLOCK"
    and "\<not> other_reference i (lease_idx (share_modes d ! i)) 0 (share_modes d)"
  shows "\<exists>d' ev. remove_share_mode_lease d i = Some (d', ev) \<and> table_ok d' \<and>
    leases d' = swap_remove (unat (lease_idx (share_modes d ! i))) (leases d) \<and>
    entries d' = (entries d)[i := removed (share_modes d ! i)] \<and>
    delete_tokens d' = delete_tokens d \<and> d_id d' = d_id d"
proof -
  let ?idx = "lease_idx (share_modes d ! i)"
  let ?e = "(share_modes d ! i)\<lparr>op_type := NO_OPLOCK, lease_idx := UINT32_MAX_u32\<rparr>"
  let ?sm = "(share_modes d)[i := ?e]"
  define n where "n = length (leases d) - 1"
  note t = assms(1) [unfolded table_ok_but_def]
  have len: "length (leases d) = Suc n" "unat ?idx < Suc n" "n < 2 ^ 32 - 1"
    using t assms(2) by (auto simp: n_def)
  have no: "\<not> other_reference i ?idx 0 ?sm"
    using assms(3) by (auto simp: other_reference_iff)
  let ?d = "d\<lparr>d_modified := True, leases := take n ((leases d)[unat ?idx := leases d ! n]),
              share_modes := map (renumber ?idx n) ?sm\<rparr>"
  have ls: "leases ?d = swap_remove (unat ?idx) (leases d)"
    using len by (simp add: swap_remove_def butlast_conv_take last_conv_nth)
       (metis Suc_neq_Zero diff_Suc_1 last_conv_nth list.size(3))
  have other: "stale (share_modes d ! j) \<or> lease_idx (share_modes d ! j) \<noteq> ?idx"
    if "j < length (share_modes d)" "j \<noteq> i" for j
    using that assms(3) by (auto simp: other_reference_iff)
  have ok: "entry_ok n (renumber ?idx n (?sm ! j))" if "j < length (share_modes d)" for j
  proof (cases "j = i")
    case True
    have "of_nat n \<noteq> UINT32_MAX_u32" using len u32_eq_of_nat [of n UINT32_MAX_u32] unat_UINT32_MAX_u32 by auto
    then show ?thesis using True that by (simp add: renumber_def)
  next
    case False
    then have "entry_ok (Suc n) (share_modes d ! j)" using t that len(1) by simp
    then show ?thesis using False renumber_ok [OF _ len(3,2) other [OF that False]] by simp
  qed
  have dist: "distinct (map lease_id (leases ?d))"
  proof -
    have "mset (map lease_id (leases ?d)) \<subseteq># mset (map lease_id (leases d))"
      unfolding ls mset_map using len by (simp add: mset_swap_remove image_mset_subseteq_mono)
    then show ?thesis using t distinct_submset by blast
  qed
  have "table_ok ?d"
    using ok dist len by (auto simp: table_ok_def list_all_length)
  moreover have "entries ?d = (entries d)[i := removed (share_modes d ! i)]"
  proof (intro nth_equalityI)
    fix j assume "j < length (entries ?d)"
    then have j: "j < length (share_modes d)" by simp
    show "entries ?d ! j = (entries d)[i := removed (share_modes d ! i)] ! j"
    proof (cases "j = i")
      case True
      then show ?thesis using j by (simp add: lease_of_def removed_def renumber_def)
    next
      case False
      then have "entry_ok (Suc n) (share_modes d ! j)" using t j len by simp
      moreover have "op_type (share_modes d ! j) = LEASE_OPLOCK \<Longrightarrow> lease_idx (share_modes d ! j) \<noteq> ?idx"
        using other [OF j False] calculation by (auto simp: entry_ok_def)
      ultimately show ?thesis
        using False j len renumber_lease [of n "share_modes d ! j" "leases d" ?idx]
        by (auto simp: lease_of_def)
    qed
  qed simp
  moreover have "map (renumber ?idx n) ?sm =
      map (\<lambda>e. if lease_idx e = of_nat (length (leases d) - 1) then e\<lparr>lease_idx := ?idx\<rparr> else e) ?sm"
    by (simp add: renumber_def n_def)
  then have "remove_share_mode_lease d i =
      Some (?d, [Leases_db_del (client_guid (leases d ! unat ?idx)) (sl_lease_key (leases d ! unat ?idx)) (d_id d)])"
    using no assms(2) len(1,2) by (simp add: remove_share_mode_lease_def Let_def)
  ultimately show ?thesis using ls by simp
qed

lemma swap_remove_not_in: "distinct xs \<Longrightarrow> i < length xs \<Longrightarrow> xs ! i \<notin> set (swap_remove i xs)"
  by (metis count_eq_zero_iff count_single distinct_count_atmost_1 cancel_comm_monoid_add_class.diff_cancel
      count_diff mset_swap_remove nth_mem set_mset_mset)

lemma remove_lease_keeps_used:
  assumes "entries d' = (entries d)[i := removed e]" "set (leases d') \<subseteq> set (leases d)" "leases_used d"
    and "i < length (share_modes d)"
    and "\<And>l. snd (entries d ! i) = Some l \<Longrightarrow> l \<in> set (leases d') \<Longrightarrow>
           \<exists>j<length (share_modes d). j \<noteq> i \<and> snd (entries d ! j) = Some l"
  shows "leases_used d'"
  unfolding leases_used_def
proof
  fix l assume l: "l \<in> set (leases d')"
  have "\<exists>j<length (share_modes d). j \<noteq> i \<and> snd (entries d ! j) = Some l"
  proof -
    have "Some l \<in> set (map snd (entries d))" using assms(2,3) l by (auto simp: leases_used_def)
    then obtain j where "j < length (share_modes d)" "snd (entries d ! j) = Some l"
      by (auto simp: in_set_conv_nth)
    then show ?thesis using assms(5) l by metis
  qed
  then obtain j where j: "j < length (share_modes d)" "j \<noteq> i" "snd (entries d ! j) = Some l" by blast
  then have "entries d ! j \<in> set (entries d')"
    using assms(1) by (metis length_entries length_list_update nth_list_update_neq nth_mem)
  then show "Some l \<in> set (map snd (entries d'))" using j(3) by (metis image_eqI list.set_map)
qed

lemma remove_lease:
  assumes t: "table_ok_but i d"
  shows "\<exists>d' ev. remove_share_mode_lease d i = Some (d', ev) \<and> table_ok d' \<and>
    entries d' = (entries d)[i := removed (share_modes d ! i)] \<and>
    (leases_used d \<longrightarrow> leases_used d') \<and> set (leases d') \<subseteq> set (leases d) \<and>
    delete_tokens d' = delete_tokens d \<and> d_id d' = d_id d"
proof -
  let ?e = "share_modes d ! i"
  have i: "i < length (share_modes d)" using t by (simp add: table_ok_but_def)
  consider "op_type ?e \<noteq> LEASE_OPLOCK"
    | "op_type ?e = LEASE_OPLOCK" "other_reference i (lease_idx ?e) 0 (share_modes d)"
    | "op_type ?e = LEASE_OPLOCK" "\<not> other_reference i (lease_idx ?e) 0 (share_modes d)" by blast
  then show ?thesis
  proof cases
    case 1
    then have "snd (entries d ! i) = None" using i by (simp add: lease_of_def)
    then show ?thesis
      using remove_lease_none [OF t 1] i remove_lease_keeps_used [of _ d i "share_modes d ! i"] by fastforce
  next
    case 2
    then obtain j where j: "j < length (share_modes d)" "j \<noteq> i" "lease_idx (share_modes d ! j) = lease_idx ?e"
      by (auto simp: other_reference_iff)
    have "op_type (share_modes d ! j) = LEASE_OPLOCK"
      using t 2 j unat_UINT32_MAX_u32 by (auto simp: table_ok_but_def entry_ok_def split: if_splits)
    then have "snd (entries d ! j) = snd (entries d ! i)" using 2 i j by (simp add: lease_of_def)
    then show ?thesis
      using remove_lease_shared [OF t 2] i j remove_lease_keeps_used [of _ d i "share_modes d ! i"]
      by (metis order_refl)
  next
    case 3
    then have k: "unat (lease_idx ?e) < length (leases d)" using t by (simp add: table_ok_but_def)
    have "distinct (leases d)" using t by (simp add: table_ok_but_def distinct_map)
    then have "snd (entries d ! i) = Some l \<Longrightarrow> l \<notin> set (swap_remove (unat (lease_idx ?e)) (leases d))" for l
      using swap_remove_not_in [OF _ k] i 3 by (auto simp: lease_of_def)
    then show ?thesis
      using remove_lease_last [OF t 3] i set_swap_remove [OF k]
        remove_lease_keeps_used [of _ d i "share_modes d ! i"] by metis
  qed
qed

section \<open>Entries of living processes\<close>

definition live :: "(server_id \<Rightarrow> bool) \<Rightarrow> share_mode_entry \<Rightarrow> bool" where
  "live exists e \<longleftrightarrow> \<not> stale e \<and> exists (e_pid e)"

definition live_entries ::
    "(server_id \<Rightarrow> bool) \<Rightarrow> share_mode_data \<Rightarrow> (share_mode_entry \<times> share_mode_lease option) list" where
  "live_entries exists d = filter (\<lambda>(e, l). live exists e) (entries d)"

lemma filter_update_outside:
  "i < length xs \<Longrightarrow> \<not> P (xs ! i) \<Longrightarrow> \<not> P x \<Longrightarrow> filter P (xs[i := x]) = filter P xs"
  by (simp add: upd_conv_take_nth_drop) (metis append_take_drop_id Cons_nth_drop_Suc filter.simps(2) filter_append)

text \<open>Testing whether the process of an entry is gone: the entry stays as it is, or it is marked and
  loses its lease.\<close>

lemma share_mode_stale_pid_cases:
  assumes t: "table_ok d" and i: "i < length (share_modes d)"
  obtains (kept) "share_mode_stale_pid exists d i = Some (stale (share_modes d ! i), d, [])"
      "stale (share_modes d ! i) \<or> exists (e_pid (share_modes d ! i))"
  | (gone) d' ev where "share_mode_stale_pid exists d i = Some (True, d', ev)" "\<not> stale (share_modes d ! i)"
      "\<not> exists (e_pid (share_modes d ! i))" "table_ok d'"
      "entries d' = (entries d)[i := removed ((share_modes d ! i)\<lparr>stale := True\<rparr>)]"
      "leases_used d \<Longrightarrow> leases_used d'" "d_id d' = d_id d"
proof -
  let ?e = "share_modes d ! i"
  show ?thesis
  proof (cases "stale ?e \<or> exists (e_pid ?e)")
    case True
    then have "share_mode_stale_pid exists d i = Some (stale ?e, d, [])"
      using i by (auto simp: share_mode_stale_pid_def Let_def)
    then show ?thesis using True kept by blast
  next
    case False
    define d1 where "d1 = d\<lparr>share_modes := (share_modes d)[i := ?e\<lparr>stale := True\<rparr>]\<rparr>"
    define d2 where "d2 = (if delete_tokens d1 \<noteq> [] \<and> list_all stale (share_modes d1) then d1\<lparr>delete_tokens := []\<rparr> else d1)"
    have s2: "share_modes d2 = (share_modes d)[i := ?e\<lparr>stale := True\<rparr>]" "leases d2 = leases d" "d_id d2 = d_id d"
      by (simp_all add: d2_def d1_def)
    have "table_ok_but i d2"
      using table_ok_but [OF t i] by (simp add: table_ok_but_def s2)
    then obtain d' ev where r: "remove_share_mode_lease d2 i = Some (d', ev)" "table_ok d'"
      "entries d' = (entries d2)[i := removed (?e\<lparr>stale := True\<rparr>)]" "leases_used d2 \<longrightarrow> leases_used d'"
      "d_id d' = d_id d"
      using remove_lease [of i d2] i s2 by auto
    have e2: "entries d2 = (entries d)[i := (?e\<lparr>stale := True, lease_idx := 0\<rparr>, lease_of d ?e)]"
      using i by (intro nth_equalityI) (auto simp: nth_list_update s2 lease_of_def)
    have e': "entries d' = (entries d)[i := removed (?e\<lparr>stale := True\<rparr>)]" by (simp add: r(3) e2)
    let ?d' = "d'\<lparr>d_modified := True\<rparr>"
    have e'': "entries ?d' = entries d'" by (rule entries_cong) simp_all
    have "share_mode_stale_pid exists d i =
        map_option (\<lambda>(d3, ev). (True, d3\<lparr>d_modified := True\<rparr>, ev)) (remove_share_mode_lease d2 i)"
      using False i by (simp add: share_mode_stale_pid_def Let_def d2_def d1_def)
    then have "share_mode_stale_pid exists d i = Some (True, ?d', ev)" by (simp add: r(1))
    moreover have "table_ok ?d'" using r(2) by (simp add: table_ok_def)
    moreover have "leases_used ?d'" if "leases_used d"
    proof -
      have "map snd (entries d2) = map snd (entries d)"
        using i by (simp add: e2 map_update) (metis length_entries list_update_id map_update nth_entries snd_conv)
      then have "leases_used d2" using that by (simp add: leases_used_def s2 del: set_map)
      then show ?thesis using r(4) by (simp add: leases_used_def e'')
    qed
    ultimately show ?thesis using gone [of ?d' ev] False r(5) e' e'' by simp
  qed
qed

text \<open>The entries of living processes are never touched.\<close>

lemma share_mode_stale_pid_works:
  assumes t: "table_ok d" and i: "i < length (share_modes d)"
  shows "\<exists>d' ev. share_mode_stale_pid exists d i = Some (\<not> live exists (share_modes d ! i), d', ev) \<and>
    table_ok d' \<and> live_entries exists d' = live_entries exists d \<and> length (share_modes d') = length (share_modes d) \<and>
    (\<forall>j<length (share_modes d). live exists (share_modes d ! j) \<longrightarrow> entries d' ! j = entries d ! j) \<and>
    (\<forall>j<length (share_modes d). live exists (share_modes d' ! j) \<longleftrightarrow> live exists (share_modes d ! j)) \<and>
    (leases_used d \<longrightarrow> leases_used d') \<and> d_id d' = d_id d"
  using t i
proof (cases rule: share_mode_stale_pid_cases [where exists = exists, case_names kept gone])
  case kept
  then have "share_mode_stale_pid exists d i = Some (\<not> live exists (share_modes d ! i), d, [])"
    by (auto simp: live_def)
  then show ?thesis using t by blast
next
  case (gone d' ev)
  let ?e = "share_modes d ! i"
  have dead: "\<not> live exists ?e" using gone(3) by (simp add: live_def)
  have len: "length (share_modes d') = length (share_modes d)"
    using arg_cong [OF gone(5), of length] by simp
  have "live_entries exists d' = live_entries exists d"
    unfolding live_entries_def gone(5) using i dead
    by (intro filter_update_outside) (auto simp: live_def removed_def)
  moreover have "\<forall>j<length (share_modes d). live exists (share_modes d ! j) \<longrightarrow> entries d' ! j = entries d ! j"
    unfolding gone(5) using dead by (metis nth_list_update_neq)
  moreover have "live exists (share_modes d' ! j) \<longleftrightarrow> live exists (share_modes d ! j)"
    if "j < length (share_modes d)" for j
  proof -
    have f: "(share_modes d' ! j)\<lparr>lease_idx := 0\<rparr> = fst ((entries d)[i := removed (?e\<lparr>stale := True\<rparr>)] ! j)"
      using arg_cong [OF gone(5), of "\<lambda>es. fst (es ! j)"] that len by simp
    have "live exists ((share_modes d' ! j)\<lparr>lease_idx := 0\<rparr>) \<longleftrightarrow> live exists (share_modes d ! j)"
      unfolding f using that i dead by (cases "j = i") (auto simp: live_def removed_def)
    then show ?thesis by (simp add: live_def)
  qed
  ultimately show ?thesis using gone(1,4,6,7) dead len by fastforce
qed

section \<open>Records with marked entries\<close>

text \<open>The entries that are not marked, and the relation of a record to a later one in which more
  entries may be marked.\<close>

definition fresh_entries :: "share_mode_data \<Rightarrow> (share_mode_entry \<times> share_mode_lease option) list" where
  "fresh_entries d = filter (\<lambda>x. \<not> stale (fst x)) (entries d)"

definition marked :: "share_mode_data \<Rightarrow> share_mode_data \<Rightarrow> bool" where
  "marked d d' \<longleftrightarrow> table_ok d' \<and> length (share_modes d') = length (share_modes d) \<and>
     (\<forall>j<length (share_modes d). entries d' ! j = entries d ! j \<or> stale (share_modes d' ! j)) \<and>
     (leases_used d \<longrightarrow> leases_used d') \<and> d_id d' = d_id d"

lemma marked_refl: "table_ok d \<Longrightarrow> marked d d"
  by (simp add: marked_def)

lemma marked_keeps:
  assumes "marked d d'" "j < length (share_modes d)" "\<not> stale (share_modes d' ! j)"
  shows "entries d' ! j = entries d ! j" "\<not> stale (share_modes d ! j)"
proof -
  show e: "entries d' ! j = entries d ! j" using assms by (auto simp: marked_def)
  have "j < length (share_modes d')" using assms by (simp add: marked_def)
  then have "stale (share_modes d' ! j) = stale (fst (entries d' ! j))" by simp
  then show "\<not> stale (share_modes d ! j)" using assms(2,3) e by simp
qed

lemma marked_trans: "marked d d' \<Longrightarrow> marked d' d'' \<Longrightarrow> marked d d''"
proof -
  assume a: "marked d d'" "marked d' d''"
  have "entries d'' ! j = entries d ! j \<or> stale (share_modes d'' ! j)" if "j < length (share_modes d)" for j
    using that marked_keeps [OF a(2), of j] marked_keeps [OF a(1), of j] a(1) by (auto simp: marked_def)
  then show ?thesis using a by (simp add: marked_def)
qed

lemma filter_submset:
  "length xs = length ys \<Longrightarrow> (\<And>j. j < length xs \<Longrightarrow> ys ! j = xs ! j \<or> \<not> P (ys ! j)) \<Longrightarrow>
   mset (filter P ys) \<subseteq># mset (filter P xs)"
proof (induction xs ys rule: list_induct2)
  case (Cons x xs y ys)
  have "mset (filter P ys) \<subseteq># mset (filter P xs)"
    using Cons.IH Cons.prems [of "Suc _"] by auto
  moreover have "y = x \<or> \<not> P y" using Cons.prems [of 0] by simp
  ultimately show ?case by (auto simp: subset_mset.add_increasing2 subset_mset.le_imp_less_or_eq
      intro: subset_mset.order_trans)
qed simp

lemma marked_fresh: "marked d d' \<Longrightarrow> mset (fresh_entries d') \<subseteq># mset (fresh_entries d)"
  unfolding fresh_entries_def by (rule filter_submset) (auto simp: marked_def)

lemma stale_pid_marked:
  assumes "table_ok d" "i < length (share_modes d)"
  obtains r d' ev where "share_mode_stale_pid exists d i = Some (r, d', ev)" "marked d d'"
    "r \<longleftrightarrow> stale (share_modes d' ! i)" "\<not> r \<Longrightarrow> d' = d"
  using assms
proof (cases rule: share_mode_stale_pid_cases [where exists = exists, case_names kept gone])
  case kept
  then show ?thesis using that [of "stale (share_modes d ! i)" d "[]"] marked_refl [OF assms(1)] by simp
next
  case (gone d' ev)
  have len: "length (share_modes d') = length (share_modes d)"
    using arg_cong [OF gone(5), of length] by simp
  have s: "stale (share_modes d' ! i)"
    using arg_cong [OF gone(5), of "\<lambda>es. stale (fst (es ! i))"] assms(2) len by (simp add: removed_def)
  then have "\<forall>j<length (share_modes d). entries d' ! j = entries d ! j \<or> stale (share_modes d' ! j)"
    unfolding gone(5) by (metis nth_list_update_neq)
  then have "marked d d'" using gone len by (simp add: marked_def)
  then show ?thesis using that [of True d' ev] gone(1) s by simp
qed

lemma remove_stale_loop_mset:
  "\<forall>j<i. j < length m \<longrightarrow> \<not> stale (m ! j) \<Longrightarrow>
   mset (remove_stale_loop i m) = filter_mset (\<lambda>e. \<not> stale e) (mset m)"
proof (induction i m rule: remove_stale_loop.induct)
  case (1 i m)
  consider (finished) "\<not> i < length m" | (stale) "i < length m" "stale (m ! i)"
    | (next_entry) "i < length m" "\<not> stale (m ! i)" by blast
  then show ?case
  proof cases
    case finished
    then have "\<forall>e\<in>set m. \<not> stale e" using 1(3) by (auto simp: in_set_conv_nth)
    then have "filter (\<lambda>e. \<not> stale e) m = m" by simp
    then show ?thesis using finished by (simp add: remove_stale_loop.simps [of i m] flip: mset_filter)
  next
    case stale
    have "\<forall>j<i. j < length (swap_remove i m) \<longrightarrow> \<not> stale (swap_remove i m ! j)"
      using 1(3) by (simp add: swap_remove_def nth_butlast)
    then have "mset (remove_stale_loop i m) = filter_mset (\<lambda>e. \<not> stale e) (mset (swap_remove i m))"
      using 1(1) [OF stale] stale by (simp add: remove_stale_loop.simps [of i m])
    then show ?thesis using stale by (simp add: mset_swap_remove)
  next
    case next_entry
    then show ?thesis using 1(2) [OF next_entry] 1(3)
      by (simp add: remove_stale_loop.simps [of i m] less_Suc_eq)
  qed
qed

lemma entries_remove_stale:
  "mset (entries (remove_stale_share_mode_entries d)) = filter_mset (\<lambda>x. \<not> stale (fst x)) (mset (entries d))"
proof -
  have "mset (entries (remove_stale_share_mode_entries d)) =
      image_mset (\<lambda>e. (e\<lparr>lease_idx := 0\<rparr>, lease_of d e)) (filter_mset (\<lambda>e. \<not> stale e) (mset (share_modes d)))"
    using remove_stale_loop_mset [of 0 "share_modes d"]
    by (simp add: entries_def remove_stale_share_mode_entries_def)
  then show ?thesis by (simp add: entries_def filter_mset_image_mset)
qed

lemma remove_stale_works:
  assumes "table_ok d"
  shows "table_ok (remove_stale_share_mode_entries d)"
    and "mset (live_entries exists (remove_stale_share_mode_entries d)) = mset (live_entries exists d)"
    and "leases_used d \<Longrightarrow> leases_used (remove_stale_share_mode_entries d)"
proof -
  let ?d = "remove_stale_share_mode_entries d"
  have "set (share_modes ?d) \<subseteq> set (share_modes d)"
    using arg_cong [OF remove_stale_loop_mset [of 0 "share_modes d"], of set_mset]
    by (auto simp: remove_stale_share_mode_entries_def)
  then show "table_ok ?d"
    using assms by (auto simp: table_ok_def list_all_iff remove_stale_share_mode_entries_def)
  show "mset (live_entries exists ?d) = mset (live_entries exists d)"
    unfolding live_entries_def mset_filter entries_remove_stale
    by (simp add: filter_filter_mset) (rule filter_mset_cong, auto simp: live_def)
  have "set (entries ?d) = {x \<in> set (entries d). \<not> stale (fst x)}"
    using arg_cong [OF entries_remove_stale, of set_mset] by auto
  moreover have "x \<in> set (entries d) \<Longrightarrow> snd x \<noteq> None \<Longrightarrow> \<not> stale (fst x)" for x
    using assms by (auto simp: entries_def lease_of_def table_ok_def list_all_iff entry_ok_def split: if_splits)
  moreover have "leases ?d = leases d" by (simp add: remove_stale_share_mode_entries_def)
  ultimately show "leases_used d \<Longrightarrow> leases_used ?d"
    unfolding leases_used_def by (auto simp: image_iff) force
qed

subsection \<open>Finding the entry of an open file\<close>

lemma valid_entry: "op_ok (op_type e) \<Longrightarrow> is_valid_share_mode_entry exists e = Some (\<not> stale e)"
  by (auto simp: op_ok_def is_valid_share_mode_entry_def EXCLUSIVE_OPLOCK_TYPE_def LEVEL_II_OPLOCK_TYPE_def
      oplock_defs flag_def)

lemma table_ok_entry: "table_ok d \<Longrightarrow> e \<in> set (share_modes d) \<Longrightarrow> entry_ok (length (leases d)) e"
  by (simp add: table_ok_def list_all_iff)

lemma table_ok_op: "table_ok d \<Longrightarrow> e \<in> set (share_modes d) \<Longrightarrow> op_ok (op_type e)"
  using table_ok_entry by (auto simp: entry_ok_def)

definition entry_of :: "open_file \<Rightarrow> share_mode_entry \<Rightarrow> bool" where
  "entry_of fsp e \<longleftrightarrow> \<not> stale e \<and> e_pid e = server_self (of_fsp fsp) \<and> share_file_id e = of_gen_id fsp"

lemma entry_of_lease_idx [simp]: "entry_of fsp (e\<lparr>lease_idx := k\<rparr>) = entry_of fsp e"
  by (simp add: entry_of_def)

lemma find_entry_loop_works:
  assumes "\<forall>e\<in>set es. op_ok (op_type e)"
  shows "\<exists>r. find_entry_loop exists (server_self (of_fsp fsp)) (of_gen_id fsp) k es = Some r \<and>
    (case r of None \<Rightarrow> \<forall>e\<in>set es. \<not> entry_of fsp e
     | Some j \<Rightarrow> k \<le> j \<and> j - k < length es \<and> entry_of fsp (es ! (j - k)) \<and>
         (\<forall>m<j - k. \<not> entry_of fsp (es ! m)))"
  using assms
proof (induction es arbitrary: k)
  case (Cons e es)
  let ?r = "find_entry_loop exists (server_self (of_fsp fsp)) (of_gen_id fsp) (k + 1) es"
  have v: "is_valid_share_mode_entry exists e = Some (\<not> stale e)"
    using Cons.prems by (simp add: valid_entry)
  show ?case
  proof (cases "entry_of fsp e")
    case True
    then show ?thesis by (simp add: v entry_of_def server_id_equal_iff)
  next
    case False
    then have "find_entry_loop exists (server_self (of_fsp fsp)) (of_gen_id fsp) k (e # es) = ?r"
      by (auto simp: v entry_of_def server_id_equal_iff)
    moreover obtain r where "?r = Some r"
      "case r of None \<Rightarrow> \<forall>e\<in>set es. \<not> entry_of fsp e
       | Some j \<Rightarrow> k + 1 \<le> j \<and> j - (k + 1) < length es \<and> entry_of fsp (es ! (j - (k + 1))) \<and>
           (\<forall>m<j - (k + 1). \<not> entry_of fsp (es ! m))"
      using Cons.IH [of "k + 1"] Cons.prems by (meson list.set_intros(2))
    ultimately show ?thesis using False
      by (cases r) (auto simp: nth_Cons' simp del: find_entry_loop.simps)
  qed
qed simp

lemma find_share_mode_entry_works:
  assumes "table_ok d"
  obtains "find_share_mode_entry exists d fsp = Some None" "\<forall>e\<in>set (share_modes d). \<not> entry_of fsp e"
  | i where "find_share_mode_entry exists d fsp = Some (Some i)" "i < length (share_modes d)"
      "entry_of fsp (share_modes d ! i)" "\<forall>j<i. \<not> entry_of fsp (share_modes d ! j)"
  using find_entry_loop_works [of "share_modes d" exists fsp 0] table_ok_op [OF assms]
  by (force simp: find_share_mode_entry_def split: option.splits)

subsection \<open>The operations on entries\<close>

definition new_entry :: "open_file \<Rightarrow> u32 \<Rightarrow> u64 \<Rightarrow> u16 \<Rightarrow> share_mode_entry" where
  "new_entry fsp uid mid t =
     \<lparr>e_pid = server_self (of_fsp fsp), op_mid = mid, op_type = t, lease_idx = 0,
      e_access_mask = of_access_mask fsp, e_share_access = of_share_access fsp,
      e_private_options = of_private_options fsp, e_time = of_open_time fsp,
      share_file_id = of_gen_id fsp, e_uid = uid,
      e_flags = (if flag (of_posix_flags fsp) FSP_POSIX_FLAGS_OPEN then SHARE_MODE_FLAG_POSIX_OPEN else 0),
      e_name_hash = of_name_hash fsp, stale = False\<rparr>"

lemma set_share_mode_works:
  assumes "set_share_mode mem d fsp uid mid t idx = (True, d')" "table_ok d" "op_ok t"
    and "if t = LEASE_OPLOCK then unat idx < length (leases d) else idx = UINT32_MAX_u32"
  shows "table_ok d'" "leases d' = leases d" "delete_tokens d' = delete_tokens d" "d_id d' = d_id d"
    and "entries d' = entries d @
      [(new_entry fsp uid mid t, if t = LEASE_OPLOCK then Some (leases d ! unat idx) else None)]"
  using assms
  by (auto simp: set_share_mode_def table_ok_def entry_ok_def entries_def lease_of_def new_entry_def split: if_splits)

lemma entries_swap_remove:
  "share_modes d \<noteq> [] \<Longrightarrow> entries (d\<lparr>share_modes := swap_remove i (share_modes d), d_modified := b\<rparr>) =
   swap_remove i (entries d)"
  by (simp add: entries_def map_swap_remove)

lemma table_ok_swap_remove:
  "table_ok d \<Longrightarrow> i < length (share_modes d) \<Longrightarrow>
   table_ok (d\<lparr>share_modes := swap_remove i (share_modes d), d_modified := b\<rparr>)"
  using set_swap_remove [of i "share_modes d"] by (auto simp: table_ok_def list_all_iff)

lemma del_share_mode_works:
  assumes t: "table_ok d"
  obtains (no) "del_share_mode exists d fsp = Some (False, d, [])" "\<forall>e\<in>set (share_modes d). \<not> entry_of fsp e"
  | (yes) i d' ev where "del_share_mode exists d fsp = Some (True, d', ev)" "table_ok d'" "i < length (share_modes d)"
      "entry_of fsp (share_modes d ! i)" "mset (entries d') = mset (entries d) - {#entries d ! i#}"
      "leases_used d \<Longrightarrow> leases_used d'" "delete_tokens d' = delete_tokens d" "d_id d' = d_id d"
      "\<forall>j<i. \<not> entry_of fsp (share_modes d ! j)"
proof (cases rule: find_share_mode_entry_works [OF t, where exists = exists and fsp = fsp])
  case 1
  then show ?thesis using no by (simp add: del_share_mode_def)
next
  case (2 i)
  obtain d1 ev where r: "remove_share_mode_lease d i = Some (d1, ev)" "table_ok d1"
    "entries d1 = (entries d)[i := removed (share_modes d ! i)]" "leases_used d \<longrightarrow> leases_used d1"
    "delete_tokens d1 = delete_tokens d" "d_id d1 = d_id d"
    using remove_lease [OF table_ok_but [OF t 2(2)]] by blast
  let ?d' = "d1\<lparr>share_modes := swap_remove i (share_modes d1), d_modified := True\<rparr>"
  have len: "length (share_modes d1) = length (share_modes d)" using arg_cong [OF r(3), of length] by simp
  then have i: "i < length (share_modes d1)" using 2 by simp
  have e: "entries ?d' = swap_remove i (entries d1)"
    by (rule entries_swap_remove) (use i in auto)
  have m: "mset (entries ?d') = mset (entries d) - {#entries d ! i#}"
    unfolding e using i 2 by (simp add: mset_swap_remove r(3) mset_update)
  have "mset (entries d1) = add_mset (removed (share_modes d ! i)) (mset (entries ?d'))"
    unfolding m r(3) using 2 by (simp add: mset_update)
  then have "set (map snd (entries d1)) = insert None (set (map snd (entries ?d')))"
    using arg_cong [of _ _ set_mset] by (fastforce simp: removed_def simp flip: set_mset_mset)
  then have "leases_used d \<Longrightarrow> leases_used ?d'"
    using r(4) by (simp add: leases_used_def del: set_map)
  moreover have "del_share_mode exists d fsp = Some (True, ?d', ev)"
    using 2 r(1) by (simp add: del_share_mode_def)
  ultimately show ?thesis
    using yes [of ?d' ev i] 2 m table_ok_swap_remove [OF r(2) i] r(5,6) by simp
qed

lemma remove_share_oplock_works:
  assumes t: "table_ok d"
  obtains (no) "remove_share_oplock exists d fsp = Some (False, d, [])" "\<forall>e\<in>set (share_modes d). \<not> entry_of fsp e"
  | (yes) i d' ev where "remove_share_oplock exists d fsp = Some (True, d', ev)" "table_ok d'"
      "i < length (share_modes d)" "entry_of fsp (share_modes d ! i)"
      "entries d' = (entries d)[i := removed (share_modes d ! i)]"
      "leases_used d \<Longrightarrow> leases_used d'" "\<forall>j<i. \<not> entry_of fsp (share_modes d ! j)"
proof (cases rule: find_share_mode_entry_works [OF t, where exists = exists and fsp = fsp])
  case 1
  then show ?thesis using no by (simp add: remove_share_oplock_def)
next
  case (2 i)
  obtain d1 ev where r: "remove_share_mode_lease d i = Some (d1, ev)" "table_ok d1"
    "entries d1 = (entries d)[i := removed (share_modes d ! i)]" "leases_used d \<longrightarrow> leases_used d1"
    using remove_lease [OF table_ok_but [OF t 2(2)]] by blast
  let ?d' = "d1\<lparr>d_modified := True\<rparr>"
  have e: "entries ?d' = entries d1" by (rule entries_cong) simp_all
  have "table_ok ?d'" using r(2) by (simp add: table_ok_def)
  moreover have "leases_used d \<Longrightarrow> leases_used ?d'" using r(4) by (simp add: leases_used_def e)
  moreover have "remove_share_oplock exists d fsp = Some (True, ?d', ev)"
    using 2 r(1) by (simp add: remove_share_oplock_def)
  ultimately show ?thesis using yes [of ?d' ev i] 2 r(3) e by simp
qed

text \<open>Changing fields of one entry that do not concern its lease.\<close>

lemma update_entry:
  assumes "table_ok d" "i < length (share_modes d)" "entry_ok (length (leases d)) e"
    and "d' = d\<lparr>share_modes := (share_modes d)[i := e], d_modified := True\<rparr>"
  shows "table_ok d'" "entries d' = (entries d)[i := (e\<lparr>lease_idx := 0\<rparr>, lease_of d e)]"
  using assms set_update_subset_insert [of "share_modes d" i e]
  by (auto simp: table_ok_def list_all_iff entries_def map_update)

section \<open>Closing a file\<close>

text \<open>C11: closing a file deletes exactly the entry of the open from the record: every other open keeps
  its entry and its lease, although leases are moved in the table and references are renumbered.
  A table in which every lease is used stays so: the leases are those of the entries that remain.\<close>

theorem close_keeps_other_leases:
  assumes "table_ok d" "\<exists>e\<in>set (share_modes d). entry_of fsp e" "leases_used d"
  shows "\<exists>d' ev x. del_share_mode exists d fsp = Some (True, d', ev) \<and> table_ok d' \<and>
    x \<in> set (entries d) \<and> entry_of fsp (fst x) \<and> mset (entries d') = mset (entries d) - {#x#} \<and>
    set (leases d') = {l. Some l \<in> set (map snd (entries d'))}"
proof (cases rule: del_share_mode_works [OF assms(1), where exists = exists and fsp = fsp, case_names no yes])
  case no
  then show ?thesis using assms(2) by blast
next
  case (yes i d' ev)
  have "Some l \<in> set (map snd (entries d')) \<Longrightarrow> l \<in> set (leases d')" for l
    using yes(2) by (auto simp: entries_def lease_of_def table_ok_def list_all_iff entry_ok_def split: if_splits)
  then have "set (leases d') = {l. Some l \<in> set (map snd (entries d'))}"
    using yes(6) [OF assms(3)] unfolding leases_used_def by blast
  moreover have "entries d ! i \<in> set (entries d)" using yes(3) by (intro nth_mem) simp
  moreover have "entry_of fsp (fst (entries d ! i))" using yes(3,4) by simp
  ultimately show ?thesis using yes(1,2,5) by blast
qed

section \<open>Delete on close\<close>

definition tokens_ok :: "share_mode_data \<Rightarrow> bool" where
  "tokens_ok d \<longleftrightarrow> distinct (map dt_name_hash (delete_tokens d))"

lemma reset_loop_none:
  "\<forall>t\<in>set ts. dt_name_hash t \<noteq> h \<Longrightarrow> reset_loop h i ts m = (ts, m)"
proof (induction h i ts m rule: reset_loop.induct)
  case (1 h i ts m)
  show ?case
  proof (cases "i < length ts")
    case True
    then have "dt_name_hash (ts ! i) \<noteq> h" using 1(3) by simp
    then show ?thesis using 1(2) [OF True] 1(3) True by (simp add: reset_loop.simps [of h i ts m])
  qed (simp add: reset_loop.simps [of h i ts m])
qed

text \<open>With distinct names there is no second token to be missed.\<close>

lemma reset_loop_mset:
  "distinct (map dt_name_hash ts) \<Longrightarrow> \<forall>j<i. j < length ts \<longrightarrow> dt_name_hash (ts ! j) \<noteq> h \<Longrightarrow>
   mset (fst (reset_loop h i ts m)) = filter_mset (\<lambda>t. dt_name_hash t \<noteq> h) (mset ts)"
proof (induction h i ts m rule: reset_loop.induct)
  case (1 h i ts m)
  consider (finished) "\<not> i < length ts" | (match) "i < length ts" "dt_name_hash (ts ! i) = h"
    | (other) "i < length ts" "dt_name_hash (ts ! i) \<noteq> h" by blast
  then show ?case
  proof cases
    case finished
    then have "\<forall>t\<in>set ts. dt_name_hash t \<noteq> h" using 1(4)
      by (metis in_set_conv_nth linorder_not_less order_less_le_trans)
    then have "filter (\<lambda>t. dt_name_hash t \<noteq> h) ts = ts" by simp
    then show ?thesis using finished by (simp add: reset_loop.simps [of h i ts m] flip: mset_filter)
  next
    case match
    have "h \<notin> set (swap_remove i (map dt_name_hash ts))"
      using swap_remove_not_in [OF 1(3), of i] match by simp
    moreover have "ts \<noteq> []" using match by auto
    ultimately have no: "\<forall>t\<in>set (swap_remove i ts). dt_name_hash t \<noteq> h"
      by (auto simp flip: map_swap_remove)
    then have "fst (reset_loop h i ts m) = swap_remove i ts"
      using match by (simp add: reset_loop.simps [of h i ts m] reset_loop_none)
    moreover have "filter (\<lambda>t. dt_name_hash t \<noteq> h) (swap_remove i ts) = swap_remove i ts"
      using no by simp
    then have "mset (swap_remove i ts) = mset (filter (\<lambda>t. dt_name_hash t \<noteq> h) ts)"
      using filter_swap_remove [of i ts "\<lambda>t. dt_name_hash t \<noteq> h"] match by simp
    ultimately show ?thesis by simp
  next
    case other
    then show ?thesis using 1(2) [OF other] 1(3,4)
      by (simp add: reset_loop.simps [of h i ts m] less_Suc_eq)
  qed
qed

lemma find_token_iff:
  "distinct (map dt_name_hash ts) \<Longrightarrow>
   find_delete_on_close_token ts h = Some dt \<longleftrightarrow> dt \<in> set ts \<and> dt_name_hash dt = h"
  by (induction ts) (auto simp: rev_image_eqI)

lemma find_token_None: "find_delete_on_close_token ts h = None \<longleftrightarrow> h \<notin> set (map dt_name_hash ts)"
  by (induction ts) auto

lemma find_token_perm:
  assumes "distinct (map dt_name_hash ts)" "distinct (map dt_name_hash ts')"
    and "\<And>dt. dt_name_hash dt = h \<Longrightarrow> dt \<in> set ts \<longleftrightarrow> dt \<in> set ts'"
  shows "find_delete_on_close_token ts h = find_delete_on_close_token ts' h"
  using assms find_token_iff [OF assms(1), of h] find_token_iff [OF assms(2), of h]
  by (metis not_Some_eq)

lemma find_token_append:
  "find_delete_on_close_token (ts @ ts') h =
   (case find_delete_on_close_token ts h of None \<Rightarrow> find_delete_on_close_token ts' h | Some dt \<Rightarrow> Some dt)"
  by (induction ts) auto

lemma dup_tokens [simp]:
  "dup_nt_token mem (Some t) = Some t' \<Longrightarrow> t' = t" "copy_unix_token mem u = Some u' \<Longrightarrow> u' = u"
  by (auto simp: dup_nt_token_def copy_unix_token_def split: if_splits)

lemma replace_token_loop_works:
  assumes "replace_token_loop mem h nt ut i ts = Some r"
  shows "case r of None \<Rightarrow> find_delete_on_close_token ts h = None
    | Some ts' \<Rightarrow> map dt_name_hash ts' = map dt_name_hash ts \<and>
        (\<forall>h'. map_option (\<lambda>dt. (delete_nt_token dt, delete_unix_token dt)) (find_delete_on_close_token ts' h') =
          (if h' = h then Some (nt, ut)
           else map_option (\<lambda>dt. (delete_nt_token dt, delete_unix_token dt)) (find_delete_on_close_token ts h')))"
  using assms
proof (induction ts arbitrary: i r)
  case (Cons t ts)
  show ?case
  proof (cases "dt_name_hash t = h")
    case True
    then show ?thesis using Cons.prems
      by (auto split: if_splits option.splits dest: dup_tokens)
  next
    case False
    then obtain r' where "replace_token_loop mem h nt ut (i + 1) ts = Some r'" "r = map_option ((#) t) r'"
      using Cons.prems by auto
    then show ?thesis using Cons.IH [of "i + 1" r'] False by (cases r') auto
  qed
qed simp

lemma set_token_cases:
  assumes "set_delete_on_close_lck mem fsp d (Some nt) (Some ut) = Some (d', ev)"
  obtains (replaced) ts where "replace_token_loop mem (of_name_hash fsp) nt ut 0 (delete_tokens d) = Some (Some ts)"
      "d' = d\<lparr>delete_tokens := ts, d_modified := True\<rparr>" "ev = []"
  | (added) "replace_token_loop mem (of_name_hash fsp) nt ut 0 (delete_tokens d) = Some None"
      "d' = d\<lparr>delete_tokens := delete_tokens d @
         [\<lparr>dt_name_hash = of_name_hash fsp, delete_nt_token = nt, delete_unix_token = ut\<rparr>], d_modified := True\<rparr>"
      "ev = map (\<lambda>e. MSG_SMB_NOTIFY_CANCEL_DELETED (e_pid e) (fsp_file_id (of_fsp fsp))) (share_modes d)"
  using assms that
  by (auto simp: set_delete_on_close_lck_def add_delete_on_close_token_def split: option.splits if_splits
      dest!: dup_tokens)

lemma set_token_works:
  assumes "tokens_ok d" "set_delete_on_close_lck mem fsp d (Some nt) (Some ut) = Some (d', ev)"
  shows "tokens_ok d' \<and> share_modes d' = share_modes d \<and> leases d' = leases d \<and>
      (\<forall>h. get_delete_on_close_token d' h =
         (if h = of_name_hash fsp then Some (nt, ut) else get_delete_on_close_token d h)) \<and>
      (\<not> is_delete_on_close_set d (of_name_hash fsp) \<longrightarrow>
         (\<forall>e\<in>set (share_modes d). MSG_SMB_NOTIFY_CANCEL_DELETED (e_pid e) (fsp_file_id (of_fsp fsp)) \<in> set ev))"
  using assms(2)
proof (cases rule: set_token_cases)
  case (replaced ts)
  note r = replace_token_loop_works [OF replaced(1), simplified]
  have "find_delete_on_close_token ts (of_name_hash fsp) \<noteq> None"
    using r by (metis option.distinct(1) option.map_disc_iff)
  then have "find_delete_on_close_token (delete_tokens d) (of_name_hash fsp) \<noteq> None"
    using r unfolding find_token_None by simp
  then show ?thesis using r replaced assms(1)
    by (auto simp: tokens_ok_def get_delete_on_close_token_def is_delete_on_close_set_def)
next
  case added
  have n: "find_delete_on_close_token (delete_tokens d) (of_name_hash fsp) = None"
    using replace_token_loop_works [OF added(1)] by simp
  then show ?thesis using added assms(1) find_token_None [of "delete_tokens d" "of_name_hash fsp"]
    by (auto simp: tokens_ok_def get_delete_on_close_token_def find_token_append split: option.splits)
qed

lemma reset_token_works:
  assumes "tokens_ok d"
  shows "tokens_ok (reset_delete_on_close_lck fsp d) \<and>
      (\<forall>h. get_delete_on_close_token (reset_delete_on_close_lck fsp d) h =
         (if h = of_name_hash fsp then None else get_delete_on_close_token d h))"
proof -
  let ?ts = "fst (reset_loop (of_name_hash fsp) 0 (delete_tokens d) (d_modified d))"
  have t: "delete_tokens (reset_delete_on_close_lck fsp d) = ?ts"
    by (simp add: reset_delete_on_close_lck_def split: prod.splits)
  have m: "mset ?ts = filter_mset (\<lambda>t. dt_name_hash t \<noteq> of_name_hash fsp) (mset (delete_tokens d))"
    using assms reset_loop_mset by (simp add: tokens_ok_def)
  have "mset (map dt_name_hash ?ts) \<subseteq># mset (map dt_name_hash (delete_tokens d))"
    unfolding mset_map m by (intro image_mset_subseteq_mono multiset_filter_subset)
  then have dist: "distinct (map dt_name_hash ?ts)"
    using assms distinct_submset unfolding tokens_ok_def by blast
  have s: "set ?ts = {t \<in> set (delete_tokens d). dt_name_hash t \<noteq> of_name_hash fsp}"
    using arg_cong [OF m, of set_mset] by auto
  have "find_delete_on_close_token ?ts (of_name_hash fsp) = None"
    unfolding find_token_None using s by auto
  moreover have "find_delete_on_close_token ?ts h = find_delete_on_close_token (delete_tokens d) h"
    if "h \<noteq> of_name_hash fsp" for h
    using that s assms dist by (intro find_token_perm) (auto simp: tokens_ok_def)
  ultimately show ?thesis
    using dist by (simp add: tokens_ok_def get_delete_on_close_token_def t)
qed

text \<open>C13: the tokens are a map from the names of the file to the credentials that delete it on the
  last close. Setting a token that was accepted gives exactly the caller's credentials for the name of
  the open and leaves other names alone; when the name is new every process that has the file open
  is told. Resetting forgets the name and no other one, although the loop skips the token that it moves.
  Names stay distinct.\<close>

theorem delete_on_close_tokens:
  assumes "tokens_ok d"
  shows "(\<forall>mem nt ut d' ev. set_delete_on_close_lck mem fsp d (Some nt) (Some ut) = Some (d', ev) \<longrightarrow>
      tokens_ok d' \<and> share_modes d' = share_modes d \<and> leases d' = leases d \<and>
      (\<forall>h. get_delete_on_close_token d' h =
         (if h = of_name_hash fsp then Some (nt, ut) else get_delete_on_close_token d h)) \<and>
      (\<not> is_delete_on_close_set d (of_name_hash fsp) \<longrightarrow>
         (\<forall>e\<in>set (share_modes d). MSG_SMB_NOTIFY_CANCEL_DELETED (e_pid e) (fsp_file_id (of_fsp fsp)) \<in> set ev))) \<and>
    tokens_ok (reset_delete_on_close_lck fsp d) \<and>
    (\<forall>h. get_delete_on_close_token (reset_delete_on_close_lck fsp d) h =
       (if h = of_name_hash fsp then None else get_delete_on_close_token d h))"
  using set_token_works [OF assms] reset_token_works [OF assms] by blast

text \<open>Replacing the token of a name that is not the first one in the array.\<close>

lemma replacing_second_token_aborts:
  assumes "dt_name_hash t1 \<noteq> h" "dt_name_hash t2 = h" "of_name_hash fsp = h"
  shows "set_delete_on_close_lck mem fsp (d\<lparr>delete_tokens := t1 # t2 # ts\<rparr>) (Some nt) (Some ut) = None"
  using assms by (simp add: set_delete_on_close_lck_def)

section \<open>The check of share modes\<close>

text \<open>The record after some entries of dead processes were marked.\<close>

definition same_live :: "(server_id \<Rightarrow> bool) \<Rightarrow> share_mode_data \<Rightarrow> share_mode_data \<Rightarrow> bool" where
  "same_live exists d d' \<longleftrightarrow>
     table_ok d' \<and> live_entries exists d' = live_entries exists d \<and>
     length (share_modes d') = length (share_modes d) \<and>
     (\<forall>j<length (share_modes d). live exists (share_modes d ! j) \<longrightarrow> entries d' ! j = entries d ! j) \<and>
     (\<forall>j<length (share_modes d). live exists (share_modes d' ! j) \<longleftrightarrow> live exists (share_modes d ! j)) \<and>
     (leases_used d \<longrightarrow> leases_used d') \<and> d_id d' = d_id d"

lemma same_live_refl: "table_ok d \<Longrightarrow> same_live exists d d"
  by (simp add: same_live_def)

lemma same_live_trans: "same_live exists d d' \<Longrightarrow> same_live exists d' d'' \<Longrightarrow> same_live exists d d''"
  unfolding same_live_def by metis

lemma stale_pid_same_live:
  assumes "table_ok d" "i < length (share_modes d)"
  obtains d' ev where "share_mode_stale_pid exists d i = Some (\<not> live exists (share_modes d ! i), d', ev)"
    "same_live exists d d'"
  using share_mode_stale_pid_works [OF assms] unfolding same_live_def by blast

lemma same_live_entry:
  assumes "same_live exists d d'" "j < length (share_modes d)" "live exists (share_modes d ! j)"
  shows "(share_modes d' ! j)\<lparr>lease_idx := 0\<rparr> = (share_modes d ! j)\<lparr>lease_idx := 0\<rparr>"
    "lease_of d' (share_modes d' ! j) = lease_of d (share_modes d ! j)"
  using assms by (auto simp: same_live_def)

lemma live_entries_iff:
  "x \<in> set (live_entries exists d) \<longleftrightarrow>
   (\<exists>j<length (share_modes d). live exists (share_modes d ! j) \<and> x = entries d ! j)"
  by (fastforce simp: live_entries_def in_set_conv_nth live_def)

lemma share_conflict_lease_idx [simp]: "share_conflict (e\<lparr>lease_idx := k\<rparr>) = share_conflict e"
  by (simp add: share_conflict_def fun_eq_iff)

lemma same_live_conflict:
  assumes "same_live exists d d'" "j < length (share_modes d)"
  shows "live exists (share_modes d' ! j) \<and> share_conflict (share_modes d' ! j) am sa \<longleftrightarrow>
    live exists (share_modes d ! j) \<and> share_conflict (share_modes d ! j) am sa"
proof (cases "live exists (share_modes d ! j)")
  case True
  then have "live exists (share_modes d' ! j)" using assms by (simp add: same_live_def)
  moreover have "share_conflict (share_modes d' ! j) = share_conflict (share_modes d ! j)"
    using same_live_entry(1) [OF assms True] share_conflict_lease_idx by metis
  ultimately show ?thesis using True by simp
qed (use assms in \<open>simp add: same_live_def\<close>)

definition violation :: "bool \<Rightarrow> NTSTATUS" where
  "violation b = (if b then NT_STATUS_SHARING_VIOLATION else NT_STATUS_OK)"

lemma mode_check_loop_works:
  assumes "table_ok d" "\<forall>i\<in>set is. i < length (share_modes d)"
  shows "\<exists>d' ev. mode_check_loop exists am sa d is =
      Some (violation (\<exists>i\<in>set is. live exists (share_modes d ! i) \<and> share_conflict (share_modes d ! i) am sa), d', ev) \<and> same_live exists d d'"
  using assms
proof (induction "is" arbitrary: d)
  case Nil
  then show ?case by (simp add: same_live_refl violation_def)
next
  case (Cons i "is")
  let ?e = "share_modes d ! i"
  have i: "i < length (share_modes d)" using Cons.prems by simp
  have v: "is_valid_share_mode_entry exists ?e = Some (\<not> stale ?e)"
    using table_ok_op [OF Cons.prems(1)] i by (simp add: valid_entry)
  have IH: "\<exists>d' ev. mode_check_loop exists am sa d is =
      Some (violation (\<exists>i\<in>set is. live exists (share_modes d ! i) \<and> share_conflict (share_modes d ! i) am sa), d', ev) \<and> same_live exists d d'"
    using Cons by simp
  show ?case
  proof (cases "stale ?e \<or> \<not> share_conflict ?e am sa")
    case True
    then have "mode_check_loop exists am sa d (i # is) = mode_check_loop exists am sa d is" by (auto simp: v)
    moreover have "\<not> (live exists ?e \<and> share_conflict ?e am sa)" using True by (auto simp: live_def)
    then have "(\<exists>j\<in>set (i # is). live exists (share_modes d ! j) \<and> share_conflict (share_modes d ! j) am sa) \<longleftrightarrow>
        (\<exists>j\<in>set is. live exists (share_modes d ! j) \<and> share_conflict (share_modes d ! j) am sa)" by auto
    ultimately show ?thesis using IH by (simp only:)
  next
    case False
    obtain d1 ev where r: "share_mode_stale_pid exists d i = Some (\<not> live exists ?e, d1, ev)" "same_live exists d d1"
      using stale_pid_same_live [OF Cons.prems(1) i] .
    show ?thesis
    proof (cases "live exists ?e")
      case True
      then show ?thesis using False r by (auto simp: v violation_def)
    next
      case dead: False
      have p: "table_ok d1" "\<forall>i\<in>set is. i < length (share_modes d1)"
        using r(2) Cons.prems by (simp_all add: same_live_def)
      have c: "(\<exists>i\<in>set is. live exists (share_modes d1 ! i) \<and> share_conflict (share_modes d1 ! i) am sa) \<longleftrightarrow>
          (\<exists>i\<in>set is. live exists (share_modes d ! i) \<and> share_conflict (share_modes d ! i) am sa)"
        by (rule bex_cong [OF refl], rule same_live_conflict [OF r(2)]) (use Cons.prems(2) in simp)
      obtain d2 ev2 where r2: "mode_check_loop exists am sa d1 is =
          Some (violation (\<exists>i\<in>set is. live exists (share_modes d ! i) \<and> share_conflict (share_modes d ! i) am sa), d2, ev2)" "same_live exists d1 d2"
        using Cons.IH [OF p] unfolding c by blast
      moreover have "mode_check_loop exists am sa d (i # is) =
          map_option (\<lambda>(r, d'', ev'). (r, d'', ev @ ev')) (mode_check_loop exists am sa d1 is)"
        using False r(1) dead by (simp add: v)
      moreover have "(\<exists>j\<in>set (i # is). live exists (share_modes d ! j) \<and> share_conflict (share_modes d ! j) am sa) \<longleftrightarrow>
          (\<exists>j\<in>set is. live exists (share_modes d ! j) \<and> share_conflict (share_modes d ! j) am sa)"
        using dead by simp
      ultimately show ?thesis using same_live_trans [OF r(2) r2(2)]
        by (simp only: option.map prod.case) blast
    qed
  qed
qed

text \<open>What a conflict is, bit by bit: both opens read (bits 0 and 5), write (bits 1 and 2) or delete
  (bit 16) the file, and one of them does so in a way that the other one does not share (bits 0, 1 and 2 for
  reading, writing and deleting). The open of a disconnected client never conflicts.\<close>

definition data_use :: "u32 \<Rightarrow> bool" where
  "data_use am \<longleftrightarrow> bit am 0 \<or> bit am 1 \<or> bit am 2 \<or> bit am 5 \<or> bit am 16"

definition denied_use :: "u32 \<Rightarrow> u32 \<Rightarrow> bool" where
  "denied_use am sa \<longleftrightarrow>
     (bit am 0 \<or> bit am 5) \<and> \<not> bit sa 0 \<or> (bit am 1 \<or> bit am 2) \<and> \<not> bit sa 1 \<or> bit am 16 \<and> \<not> bit sa 2"

definition opens_clash :: "share_mode_entry \<Rightarrow> u32 \<Rightarrow> u32 \<Rightarrow> bool" where
  "opens_clash e am sa \<longleftrightarrow> e_pid e \<noteq> disconnected_id \<and> data_use (e_access_mask e) \<and> data_use am \<and>
     (denied_use (e_access_mask e) sa \<or> denied_use am (e_share_access e))"

lemma opens_clash_lease_idx [simp]: "opens_clash (e\<lparr>lease_idx := k\<rparr>) = opens_clash e"
  by (intro ext) (simp add: opens_clash_def)

lemma access_flags:
  "flag am FILE_READ_DATA \<longleftrightarrow> bit am 0" "flag am FILE_WRITE_DATA \<longleftrightarrow> bit am 1" "flag am FILE_APPEND_DATA \<longleftrightarrow> bit am 2"
  "flag am FILE_EXECUTE \<longleftrightarrow> bit am 5" "flag am DELETE_ACCESS \<longleftrightarrow> bit am 16"
  "flag sa FILE_SHARE_READ \<longleftrightarrow> bit sa 0" "flag sa FILE_SHARE_WRITE \<longleftrightarrow> bit sa 1" "flag sa FILE_SHARE_DELETE \<longleftrightarrow> bit sa 2"
  using flag_single_bit [of 0 am] flag_single_bit [of 1 am] flag_single_bit [of 2 am] flag_single_bit [of 5 am]
    flag_single_bit [of 16 am] flag_single_bit [of 0 sa] flag_single_bit [of 1 sa] flag_single_bit [of 2 sa]
  by (simp_all add: file_access_defs)

lemma data_use_flag:
  "am AND (FILE_WRITE_DATA OR FILE_APPEND_DATA OR FILE_READ_DATA OR FILE_EXECUTE OR DELETE_ACCESS) = 0 \<longleftrightarrow> \<not> data_use am"
proof -
  have "flag am (FILE_WRITE_DATA OR FILE_APPEND_DATA OR FILE_READ_DATA OR FILE_EXECUTE OR DELETE_ACCESS) \<longleftrightarrow> data_use am"
    unfolding flag_or_mask access_flags data_use_def by blast
  then show ?thesis unfolding flag_def by blast
qed

lemma share_conflict_clash: "share_conflict e am sa \<longleftrightarrow> opens_clash e am sa"
  unfolding share_conflict_def Let_def CHECK_MASK_def data_use_flag flag_or_mask access_flags opens_clash_def denied_use_def
    server_id_is_disconnected_iff if_bool_eq_disj
  by blast

lemma mask_le_disjoint: "mask_le v w \<Longrightarrow> w AND m = 0 \<Longrightarrow> v AND m = 0" for v w m :: "'a::len word"
  unfolding mask_le_iff_bit word_eq_0_iff_bit by (auto simp: bit_and_iff)

lemma stat_open_no_data: "is_stat_open am \<Longrightarrow> \<not> data_use am"
proof -
  let ?s = "SYNCHRONIZE_ACCESS OR FILE_READ_ATTRIBUTES OR FILE_WRITE_ATTRIBUTES"
  let ?u = "FILE_WRITE_DATA OR FILE_APPEND_DATA OR FILE_READ_DATA OR FILE_EXECUTE OR DELETE_ACCESS"
  assume "is_stat_open am"
  then have s: "mask_le am ?s" by (simp add: is_stat_open_def mask_le_def Let_def)
  have "?s AND ?u = 0" by (simp add: file_access_defs)
  then have "am AND ?u = 0" by (rule mask_le_disjoint [OF s])
  then show "\<not> data_use am" using data_use_flag by blast
qed

text \<open>C12: the check of an open against the share modes of the file answers with a sharing violation
  exactly when some entry of a living process clashes with it: both opens read, write or delete the
  file and one of them does so in a way that the other one does not share. In particular opens that
  only look at attributes always pass. Entries of dead processes never stand in the way, and
  marking them changes nothing for the others. The check always returns.\<close>

theorem open_mode_check_decides:
  assumes "table_ok d"
  shows "\<exists>d' ev. open_mode_check exists d am sa =
      Some (if \<exists>x\<in>set (live_entries exists d). opens_clash (fst x) am sa
            then NT_STATUS_SHARING_VIOLATION else NT_STATUS_OK, d', ev) \<and> same_live exists d d'"
proof -
  have r: "(\<exists>x\<in>set (live_entries exists d). opens_clash (fst x) am sa) \<longleftrightarrow>
      (\<exists>i\<in>set [0..<length (share_modes d)]. live exists (share_modes d ! i) \<and> share_conflict (share_modes d ! i) am sa)"
    (is "?l = ?r")
  proof
    assume ?l
    then obtain i where "i < length (share_modes d)" "live exists (share_modes d ! i)" "opens_clash (share_modes d ! i) am sa"
      by (auto simp: live_entries_iff)
    then show ?r unfolding share_conflict_clash by auto
  next
    assume ?r
    then obtain i where "i < length (share_modes d)" "live exists (share_modes d ! i)" "opens_clash (share_modes d ! i) am sa"
      unfolding share_conflict_clash by auto
    then show ?l by (intro bexI [of _ "entries d ! i"]) (auto simp: live_entries_iff)
  qed
  show ?thesis
  proof (cases "share_modes d = [] \<or> is_stat_open am")
    case True
    then have "\<not> (\<exists>x\<in>set (live_entries exists d). opens_clash (fst x) am sa)"
      using stat_open_no_data [of am] by (auto simp: live_entries_iff opens_clash_def)
    moreover have "open_mode_check exists d am sa = Some (NT_STATUS_OK, d, [])"
      using True by (auto simp: open_mode_check_def)
    ultimately show ?thesis using same_live_refl [OF assms] by (intro exI [of _ d] exI [of _ "[]"]) auto
  next
    case False
    then show ?thesis
      using mode_check_loop_works [OF assms, of "[0..<length (share_modes d)]" exists am sa]
      unfolding r by (simp add: open_mode_check_def violation_def)
  qed
qed

section \<open>Sample records\<close>

definition sample_guid :: "u32 \<Rightarrow> GUID" where
  "sample_guid n = \<lparr>time_low = n, time_mid = 0, time_hi_and_version = 0, clock_seq = (0, 0), node = [0, 0, 0, 0, 0, 0]\<rparr>"

definition sample_lease :: "u32 \<Rightarrow> share_mode_lease" where
  "sample_lease n =
     \<lparr>client_guid = sample_guid n, sl_lease_key = (1, 2), current_state = 1, breaking = False,
      breaking_to_requested = 0, breaking_to_required = 0, sl_lease_version = 2, epoch = 1\<rparr>"

definition sample_open :: "u64 \<Rightarrow> open_file" where
  "sample_open n =
     \<lparr>of_fsp = sample_handle n, of_share_access = 1, of_private_options = 0, of_access_mask = 1,
      of_open_time = (0, 0), of_gen_id = n, of_posix_flags = 0, of_name_hash = 7,
      of_delete_on_close = False, of_client_guid = sample_guid 1\<rparr>"

definition sample_entry :: "u64 \<Rightarrow> u16 \<Rightarrow> u32 \<Rightarrow> share_mode_entry" where
  "sample_entry n t idx = (new_entry (sample_open n) 0 n t)\<lparr>lease_idx := idx\<rparr>"

definition sample_token :: "u32 \<Rightarrow> delete_token" where
  "sample_token h =
     \<lparr>dt_name_hash = h, delete_nt_token = \<lparr>sids = [], privilege_mask = 0, rights_mask = 0\<rparr>,
      delete_unix_token = \<lparr>ut_uid = 0, ut_gid = 0, ut_groups = []\<rparr>\<rparr>"

text \<open>Three opens that read the file and share reading, two of them with a lease of the same client.\<close>

definition sample_share :: share_mode_data where
  "sample_share =
     \<lparr>share_modes = [sample_entry 1 LEASE_OPLOCK 0, sample_entry 2 LEASE_OPLOCK 1, sample_entry 3 LEASE_OPLOCK 1],
      leases = [sample_lease 1, sample_lease 2], delete_tokens = [sample_token 7, sample_token 8],
      d_modified = False, d_id = \<lparr>devid = 1, inode = 1, extid = 0\<rparr>\<rparr>"

lemmas sample_share_simps = sample_share_def sample_entry_def sample_open_def new_entry_def sample_lease_def
  sample_guid_def sample_token_def

lemma sample_share_ok: "table_ok sample_share" "leases_used sample_share" "tokens_ok sample_share"
  by (simp_all add: table_ok_def entry_ok_def op_ok_def leases_used_def tokens_ok_def entries_def lease_of_def
      lease_id_def sample_share_simps LEASE_OPLOCK_def NO_OPLOCK_def)

theorem close_keeps_other_leases_witness:
  "\<exists>d' ev x. del_share_mode (\<lambda>_. True) sample_share (sample_open 1) = Some (True, d', ev) \<and>
     x \<in> set (entries sample_share) \<and> mset (entries d') = mset (entries sample_share) - {#x#} \<and>
     set (leases d') = {l. Some l \<in> set (map snd (entries d'))}"
proof -
  have "\<exists>e\<in>set (share_modes sample_share). entry_of (sample_open 1) e"
    by (simp add: sample_share_simps entry_of_def)
  then show ?thesis
    using close_keeps_other_leases [OF sample_share_ok(1) _ sample_share_ok(2), of "sample_open 1" "\<lambda>_. True"] by blast
qed

theorem delete_on_close_tokens_witness:
  "\<exists>d' ev nt ut. set_delete_on_close_lck (\<lambda>_. Some []) (sample_open 1) sample_share (Some nt) (Some ut) = Some (d', ev) \<and>
     get_delete_on_close_token d' 7 = Some (nt, ut) \<and>
     get_delete_on_close_token d' 8 = get_delete_on_close_token sample_share 8 \<and>
     get_delete_on_close_token (reset_delete_on_close_lck (sample_open 1) sample_share) 7 = None"
proof -
  let ?nt = "\<lparr>sids = [], privilege_mask = 1, rights_mask = 0\<rparr>"
  let ?ut = "\<lparr>ut_uid = 5, ut_gid = 6, ut_groups = [6]\<rparr>"
  obtain d' ev where s: "set_delete_on_close_lck (\<lambda>_. Some []) (sample_open 1) sample_share (Some ?nt) (Some ?ut) = Some (d', ev)"
    by (simp add: sample_share_simps set_delete_on_close_lck_def dup_nt_token_def copy_unix_token_def)
  have h: "of_name_hash (sample_open 1) = 7" by (simp add: sample_open_def)
  note t = delete_on_close_tokens [OF sample_share_ok(3), of "sample_open 1", unfolded h]
  have "\<forall>h. get_delete_on_close_token d' h =
      (if h = 7 then Some (?nt, ?ut) else get_delete_on_close_token sample_share h)"
    using t s by blast
  moreover have "get_delete_on_close_token (reset_delete_on_close_lck (sample_open 1) sample_share) 7 = None"
    using t by simp
  ultimately show ?thesis using s by (intro exI conjI) (assumption, simp, simp)+
qed

theorem open_mode_check_decides_witness:
  "\<exists>d' ev d2 ev2. open_mode_check (\<lambda>_. True) sample_share FILE_WRITE_DATA FILE_SHARE_READ =
       Some (NT_STATUS_SHARING_VIOLATION, d', ev) \<and>
     open_mode_check (\<lambda>_. False) sample_share FILE_WRITE_DATA FILE_SHARE_READ = Some (NT_STATUS_OK, d2, ev2)"
proof -
  have "opens_clash (sample_entry 1 LEASE_OPLOCK 0) FILE_WRITE_DATA FILE_SHARE_READ"
    by (simp add: opens_clash_def data_use_def denied_use_def sample_share_simps file_access_defs bit_simps
        sample_handle_def sample_fsp_def sample_pid_def disconnected_id_def UINT64_MAX_def)
  then have a: "\<exists>x\<in>set (live_entries (\<lambda>_. True) sample_share). opens_clash (fst x) FILE_WRITE_DATA FILE_SHARE_READ"
    by (simp add: live_entries_def entries_def live_def sample_share_def) (simp add: sample_share_simps)
  have b: "live_entries (\<lambda>_. False) sample_share = []" by (simp add: live_entries_def live_def)
  show ?thesis
    using open_mode_check_decides [OF sample_share_ok(1), of "\<lambda>_. True" FILE_WRITE_DATA FILE_SHARE_READ]
      open_mode_check_decides [OF sample_share_ok(1), of "\<lambda>_. False" FILE_WRITE_DATA FILE_SHARE_READ] a b
    by auto
qed

end
