(* ===== verification/Bitmap.thy ===== *)
theory Bitmap
  imports Samba_Prelude
begin

text \<open>
  The bit pools of \<open>lib/util/bitmap.c\<close>. A bitmap has \<open>bm_n\<close> bits in an array of 32 bit words.
  The number of bits comes from an \<open>int\<close> argument, so an index and the counters of the search
  loops stay below \<open>2\<^sup>3\<^sup>1 + 32\<close> and never wrap; indices are natural numbers here. The interface
  that the users of a bitmap rely on is the locale of this theory: a bitmap is a set of numbers
  below its size.
\<close>

section \<open>Operations\<close>

record bitmap =
  bm_n :: nat
  bm_b :: "u32 list"

definition bitmap_talloc :: "talloc \<Rightarrow> nat \<Rightarrow> bitmap option" where
  "bitmap_talloc mem n =
     (if talloc_fails mem 0 then None else Some \<lparr>bm_n = n, bm_b = replicate ((n + 31) div 32) 0\<rparr>)"

text \<open>The count that is returned and the destination after the copy of the words.\<close>

definition bitmap_copy :: "bitmap \<Rightarrow> bitmap \<Rightarrow> nat \<times> bitmap" where
  "bitmap_copy dst src =
     (let count0 = min (bm_n dst) (bm_n src);
          words = (count0 + 31) div 32
      in (count0, dst\<lparr>bm_b := take words (bm_b src) @ drop words (bm_b dst)\<rparr>))"

definition bitmap_set :: "bitmap \<Rightarrow> nat \<Rightarrow> bool \<times> bitmap" where
  "bitmap_set bm i =
     (if i \<ge> bm_n bm then (False, bm)
      else (True, bm\<lparr>bm_b := (bm_b bm)[i div 32 := bm_b bm ! (i div 32) OR push_bit (i mod 32) 1]\<rparr>))"

definition bitmap_clear :: "bitmap \<Rightarrow> nat \<Rightarrow> bool \<times> bitmap" where
  "bitmap_clear bm i =
     (if i \<ge> bm_n bm then (False, bm)
      else (True, bm\<lparr>bm_b := (bm_b bm)[i div 32 := bm_b bm ! (i div 32) AND NOT (push_bit (i mod 32) 1)]\<rparr>))"

definition bitmap_query :: "bitmap \<Rightarrow> nat \<Rightarrow> bool" where
  "bitmap_query bm i = (if i \<ge> bm_n bm then False else flag (bm_b bm ! (i div 32)) (push_bit (i mod 32) 1))"

text \<open>The inner loop of \<open>bitmap_find\<close>, to the end of the word, and the outer loops over the words
  up to a limit.\<close>

function find_in_word :: "bitmap \<Rightarrow> nat \<Rightarrow> nat option" where
  "find_in_word bm j =
     (if \<not> bitmap_query bm j then Some j
      else if (j + 1) mod 32 \<noteq> 0 \<and> j + 1 < bm_n bm then find_in_word bm (j + 1)
      else None)"
  by auto
termination
  by (relation "measure (\<lambda>(bm, j). bm_n bm - j)") auto

function find_from :: "bitmap \<Rightarrow> nat \<Rightarrow> nat \<Rightarrow> nat option" where
  "find_from bm limit i =
     (if i < limit then
        (case (if NOT (bm_b bm ! (i div 32)) \<noteq> 0 then find_in_word bm i else None) of
           Some j \<Rightarrow> Some j
         | None \<Rightarrow> find_from bm limit ((i + 32) div 32 * 32))
      else None)"
  by auto
termination
proof (relation "measure (\<lambda>(bm, limit, i). limit - i)")
  fix bm limit i
  assume "i < (limit :: nat)"
  moreover have "i < (i + 32) div 32 * 32" by linarith
  ultimately show "((bm, limit, (i + 32) div 32 * 32), bm, limit, i) \<in> measure (\<lambda>(bm, limit, i). limit - i)" by simp
qed simp

declare find_in_word.simps [simp del] find_from.simps [simp del]

definition bitmap_find :: "bitmap \<Rightarrow> nat \<Rightarrow> int" where
  "bitmap_find bm ofs0 =
     (let ofs = (if ofs0 > bm_n bm then 0 else ofs0) in
      case find_from bm (bm_n bm) ofs of
        Some j \<Rightarrow> int j
      | None \<Rightarrow> (case find_from bm ofs 0 of Some j \<Rightarrow> int j | None \<Rightarrow> -1))"

section \<open>The interface\<close>

text \<open>What the users of a bitmap rely on: queries after stores. The set of the marked numbers is
  the abstract value.\<close>

locale bit_store =
  fixes valid :: "'m \<Rightarrow> bool"
    and bits :: "'m \<Rightarrow> nat"
    and query :: "'m \<Rightarrow> nat \<Rightarrow> bool"
    and set_bit :: "'m \<Rightarrow> nat \<Rightarrow> 'm"
    and clear_bit :: "'m \<Rightarrow> nat \<Rightarrow> 'm"
  assumes query_bound: "query m i \<Longrightarrow> i < bits m"
    and set_valid: "valid m \<Longrightarrow> valid (set_bit m i) \<and> bits (set_bit m i) = bits m"
    and clear_valid: "valid m \<Longrightarrow> valid (clear_bit m i) \<and> bits (clear_bit m i) = bits m"
    and query_set: "valid m \<Longrightarrow> i < bits m \<Longrightarrow> query (set_bit m i) j \<longleftrightarrow> j = i \<or> query m j"
    and query_clear: "valid m \<Longrightarrow> i < bits m \<Longrightarrow> query (clear_bit m i) j \<longleftrightarrow> j \<noteq> i \<and> query m j"
begin

lemma marks_set: "valid m \<Longrightarrow> i < bits m \<Longrightarrow> {j. query (set_bit m i) j} = insert i {j. query m j}"
  using query_set by auto

lemma marks_clear: "valid m \<Longrightarrow> i < bits m \<Longrightarrow> {j. query (clear_bit m i) j} = {j. query m j} - {i}"
  using query_clear by auto

lemma marks_subset: "{j. query m j} \<subseteq> {..<bits m}"
  using query_bound by auto

lemma marks_finite [simp]: "finite {j. query m j}"
  using marks_subset finite_lessThan by (rule finite_subset)

lemma marks_card: "card {j. query m j} \<le> bits m"
  using card_mono [OF _ marks_subset, of m] by simp

lemma card_set:
  "valid m \<Longrightarrow> i < bits m \<Longrightarrow> \<not> query m i \<Longrightarrow> card {j. query (set_bit m i) j} = Suc (card {j. query m j})"
  by (simp add: marks_set)

lemma card_clear:
  "valid m \<Longrightarrow> query m i \<Longrightarrow> Suc (card {j. query (clear_bit m i) j}) = card {j. query m j}"
  using marks_clear [of m i] query_bound [of m i] card_Suc_Diff1 [of "{j. query m j}" i] by simp

end

definition bitmap_ok :: "bitmap \<Rightarrow> bool" where
  "bitmap_ok bm \<longleftrightarrow> length (bm_b bm) = (bm_n bm + 31) div 32"

lemma word_index: "i < n \<Longrightarrow> i div 32 < (n + 31) div (32 :: nat)"
  by linarith

lemma query_iff:
  "bitmap_query bm i \<longleftrightarrow> i < bm_n bm \<and> bit (bm_b bm ! (i div 32)) (i mod 32)"
proof -
  have "i mod 32 < 32" by simp
  then show ?thesis
    by (auto simp: bitmap_query_def flag_iff_bit bit_simps not_le)
qed

lemma same_bit: "i div 32 = j div 32 \<Longrightarrow> i mod 32 = j mod 32 \<longleftrightarrow> i = (j :: nat)"
  by (metis div_mult_mod_eq)

interpretation bm: bit_store bitmap_ok bm_n bitmap_query "\<lambda>m i. snd (bitmap_set m i)" "\<lambda>m i. snd (bitmap_clear m i)"
proof
  fix m and i j :: nat
  show "bitmap_query m i \<Longrightarrow> i < bm_n m" by (simp add: query_iff)
  show "bitmap_ok m \<Longrightarrow> bitmap_ok (snd (bitmap_set m i)) \<and> bm_n (snd (bitmap_set m i)) = bm_n m"
    by (simp add: bitmap_ok_def bitmap_set_def)
  show "bitmap_ok m \<Longrightarrow> bitmap_ok (snd (bitmap_clear m i)) \<and> bm_n (snd (bitmap_clear m i)) = bm_n m"
    by (simp add: bitmap_ok_def bitmap_clear_def)
  assume m: "bitmap_ok m" and i: "i < bm_n m"
  then have l: "i div 32 < length (bm_b m)" using word_index by (simp add: bitmap_ok_def)
  have b: "i mod 32 < 32" "j mod 32 < 32" by simp_all
  show "bitmap_query (snd (bitmap_set m i)) j \<longleftrightarrow> j = i \<or> bitmap_query m j"
    using l i b same_bit [of i j] by (auto simp: query_iff bitmap_set_def nth_list_update bit_simps not_le)
  show "bitmap_query (snd (bitmap_clear m i)) j \<longleftrightarrow> j \<noteq> i \<and> bitmap_query m j"
    using l i b same_bit [of i j] by (auto simp: query_iff bitmap_clear_def nth_list_update bit_simps not_le)
qed

section \<open>Searching\<close>

lemma find_in_word_Some:
  "find_in_word bm j = Some k \<Longrightarrow> j < bm_n bm \<Longrightarrow>
     j \<le> k \<and> k < bm_n bm \<and> \<not> bitmap_query bm k \<and> (\<forall>i. j \<le> i \<and> i < k \<longrightarrow> bitmap_query bm i)"
proof (induction bm j rule: find_in_word.induct)
  case (1 bm j)
  show ?case
  proof (cases "bitmap_query bm j \<and> (j + 1) mod 32 \<noteq> 0 \<and> j + 1 < bm_n bm")
    case True
    then have "find_in_word bm (j + 1) = Some k" using "1.prems"(1) by (simp add: find_in_word.simps [of bm j])
    then have "j + 1 \<le> k \<and> k < bm_n bm \<and> \<not> bitmap_query bm k \<and> (\<forall>i. j + 1 \<le> i \<and> i < k \<longrightarrow> bitmap_query bm i)"
      using "1.IH" True by blast
    then show ?thesis using True by (metis Suc_eq_plus1 Suc_leD le_neq_implies_less Suc_leI)
  next
    case False
    then show ?thesis using "1.prems" by (auto simp: find_in_word.simps [of bm j] split: if_splits)
  qed
qed

lemma same_word:
  assumes "i \<le> x" "x < (i div 32 + 1) * 32"
  shows "x div 32 = i div (32 :: nat)"
proof (rule div_nat_eqI)
  show "32 * (i div 32) \<le> x" using assms(1) order_trans [OF times_div_less_eq_dividend] by blast
qed (use assms(2) in simp)

lemma find_in_word_None:
  "find_in_word bm j = None \<Longrightarrow> j \<le> i \<Longrightarrow> i < (j div 32 + 1) * 32 \<Longrightarrow> i < bm_n bm \<Longrightarrow> bitmap_query bm i"
proof (induction bm j rule: find_in_word.induct)
  case (1 bm j)
  have q: "bitmap_query bm j" using "1.prems"(1) by (simp add: find_in_word.simps [of bm j] split: if_splits)
  show ?case
  proof (cases "i = j")
    case False
    then have i: "j + 1 \<le> i" "j + 1 < bm_n bm" using "1.prems"(2,4) by simp_all
    have d: "(j + 1) div 32 = j div 32" using i(1) "1.prems"(3) by (intro same_word) simp_all
    have "(j + 1) mod 32 \<noteq> 0"
    proof
      assume "(j + 1) mod 32 = 0"
      then have "32 * (j div 32) = j + 1" using mult_div_mod_eq [of 32 "j + 1"] d by simp
      then show False using times_div_less_eq_dividend [of 32 j] by simp
    qed
    then have m: "(j + 1) mod 32 \<noteq> 0" "(j + 1) div 32 = j div 32" "j + 1 < bm_n bm" "j + 1 \<le> i"
      using d i by simp_all
    then have "find_in_word bm (j + 1) = None" using "1.prems"(1) q by (simp add: find_in_word.simps [of bm j])
    then show ?thesis using "1.IH" q m "1.prems"(3,4) by simp
  qed (use q in simp)
qed

lemma full_word: "NOT (bm_b bm ! (i div 32)) = 0 \<Longrightarrow> x div 32 = i div 32 \<Longrightarrow> x < bm_n bm \<Longrightarrow> bitmap_query bm x"
  by (simp add: query_iff word_eq_0_iff_bit bit_simps)

lemma find_from_spec:
  "limit \<le> bm_n bm \<Longrightarrow>
     (case find_from bm limit i of
        Some k \<Rightarrow> i \<le> k \<and> k < bm_n bm \<and> \<not> bitmap_query bm k \<and> (\<forall>x. i \<le> x \<and> x < k \<longrightarrow> bitmap_query bm x)
      | None \<Rightarrow> \<forall>x. i \<le> x \<and> x < limit \<longrightarrow> bitmap_query bm x)"
proof (induction bm limit i rule: find_from.induct)
  case (1 bm limit i)
  let ?w = "if NOT (bm_b bm ! (i div 32)) \<noteq> 0 then find_in_word bm i else None"
  let ?n = "(i + 32) div 32 * 32"
  show ?case
  proof (cases "i < limit")
    case False
    then show ?thesis by (auto simp: find_from.simps [of bm limit i])
  next
    case True
    show ?thesis
    proof (cases ?w)
      case (Some k)
      then have "find_in_word bm i = Some k" by (simp split: if_splits)
      moreover have "find_from bm limit i = Some k" using True Some by (subst find_from.simps) simp
      ultimately show ?thesis using find_in_word_Some [of bm i k] True "1.prems" by simp
    next
      case None
      have w: "bitmap_query bm x" if "i \<le> x" "x < ?n" "x < bm_n bm" for x
      proof -
        have x: "x < (i div 32 + 1) * 32" using that(2) by (simp add: div_add_self2)
        show ?thesis
          using None find_in_word_None [of bm i x] full_word [of bm i x] same_word [of i x] that x
          by (simp split: if_splits)
      qed
      have e: "find_from bm limit i = find_from bm limit ?n" using True None by (subst find_from.simps) simp
      have n: "i \<le> ?n" by linarith
      show ?thesis
      proof (cases "find_from bm limit ?n")
        case f: None
        then have "bitmap_query bm x" if "?n \<le> x" "x < limit" for x
          using "1.IH" [OF True None "1.prems"] that by simp
        then have "bitmap_query bm x" if "i \<le> x" "x < limit" for x
          using w [of x] that "1.prems" by (cases "x < ?n") auto
        then show ?thesis using e f by simp
      next
        case (Some k)
        then have k: "?n \<le> k" "k < bm_n bm" "\<not> bitmap_query bm k" "\<And>x. ?n \<le> x \<Longrightarrow> x < k \<Longrightarrow> bitmap_query bm x"
          using "1.IH" [OF True None "1.prems"] by simp_all
        then have "bitmap_query bm x" if "i \<le> x" "x < k" for x
          using w [of x] that by (cases "x < ?n") auto
        then show ?thesis using e Some k n by simp
      qed
    qed
  qed
qed

section \<open>Properties\<close>

text \<open>C40: a search in a bitmap finds the first free number at or after the start, or else the first
  free number at all, and returns -1 exactly when there is none. (A start behind the last number
  counts as 0.)\<close>

theorem bitmap_find_first_free:
  "(bitmap_find bm ofs = -1 \<longleftrightarrow> (\<forall>i < bm_n bm. bitmap_query bm i)) \<and>
   (\<forall>j. bitmap_find bm ofs = int j \<longrightarrow>
      j < bm_n bm \<and> \<not> bitmap_query bm j \<and>
      (let lo = (if ofs > bm_n bm then 0 else ofs) in
       if lo \<le> j then \<forall>i. lo \<le> i \<and> i < j \<longrightarrow> bitmap_query bm i
       else (\<forall>i. i < j \<or> lo \<le> i \<and> i < bm_n bm \<longrightarrow> bitmap_query bm i)))"
proof -
  define lo where "lo = (if ofs > bm_n bm then 0 else ofs)"
  have l: "lo \<le> bm_n bm" by (simp add: lo_def)
  note a = find_from_spec [of "bm_n bm" bm lo, OF order_refl] and b = find_from_spec [OF l, of 0]
  show ?thesis
  proof (cases "find_from bm (bm_n bm) lo")
    case (Some k)
    then have e: "bitmap_find bm ofs = int k" by (simp add: bitmap_find_def lo_def Let_def)
    have k: "lo \<le> k" "k < bm_n bm" "\<not> bitmap_query bm k" "\<And>x. lo \<le> x \<Longrightarrow> x < k \<Longrightarrow> bitmap_query bm x"
      using a Some by auto
    show ?thesis unfolding e lo_def [symmetric] Let_def using k by auto
  next
    case None
    have x: "bitmap_query bm x" if "lo \<le> x" "x < bm_n bm" for x using a None that by auto
    show ?thesis
    proof (cases "find_from bm lo 0")
      case (Some k)
      then have e: "bitmap_find bm ofs = int k" using None by (simp add: bitmap_find_def lo_def Let_def)
      have k: "k < bm_n bm" "\<not> bitmap_query bm k" "\<And>x. x < k \<Longrightarrow> bitmap_query bm x"
        using b Some by auto
      then have l: "k < lo" using x [of k] by (cases "lo \<le> k") auto
      have "j = k" if "int k = int j" for j using that by simp
      then show ?thesis unfolding e lo_def [symmetric] Let_def using k x l by (simp add: not_le) blast
    next
      case f: None
      then have e: "bitmap_find bm ofs = -1" using None by (simp add: bitmap_find_def lo_def Let_def)
      have y: "bitmap_query bm x" if "x < lo" for x using b that unfolding f by simp
      have "bitmap_query bm x" if "x < bm_n bm" for x
        using x [of x] y [of x] that by (cases "lo \<le> x") simp_all
      then show ?thesis unfolding e by simp
    qed
  qed
qed

theorem bitmap_find_first_free_witness:
  "bitmap_find \<lparr>bm_n = 3, bm_b = [3]\<rparr> 1 = int 2 \<and> \<not> bitmap_query \<lparr>bm_n = 3, bm_b = [3]\<rparr> 2"
proof -
  let ?bm = "\<lparr>bm_n = 3, bm_b = [3 :: u32]\<rparr>"
  have q: "bitmap_query ?bm 1" "\<not> bitmap_query ?bm 2" by (simp_all add: bitmap_query_def flag_def)
  have "find_in_word ?bm 2 = Some 2" using q(2) by (subst find_in_word.simps) simp
  then have "find_in_word ?bm 1 = Some 2" using q(1) by (subst find_in_word.simps) (simp add: numeral_2_eq_2)
  then have "bitmap_find ?bm 1 = int 2" by (simp add: bitmap_find_def, subst find_from.simps, simp)
  then show ?thesis using bitmap_find_first_free [of ?bm 1] by blast
qed

end
