(* ===== verification/Smb2_Credits.thy ===== *)
theory Smb2_Credits
  imports Bitmap Byteorder
begin

text \<open>
  The credits of an SMB2 connection (\<open>source3/smbd/smb2_server.c\<close>). The server hands out sequence
  numbers in a window that starts at \<open>seq_low\<close>; a bitmap remembers which numbers of the window the
  client has used, at their positions modulo the size of the bitmap. Requests use numbers,
  replies grant new ones. The theory shows that the window implements a set of used numbers below
  a limit, that no number is accepted twice, and that the counters never wrap.
\<close>

section \<open>Headers\<close>

definition SMB2_HDR_PROTOCOL_ID :: nat where
  "SMB2_HDR_PROTOCOL_ID = 0x00"

definition SMB2_HDR_CREDIT_CHARGE :: nat where
  "SMB2_HDR_CREDIT_CHARGE = 0x06"

definition SMB2_HDR_STATUS :: nat where
  "SMB2_HDR_STATUS = 0x08"

definition SMB2_HDR_OPCODE :: nat where
  "SMB2_HDR_OPCODE = 0x0c"

definition SMB2_HDR_CREDIT :: nat where
  "SMB2_HDR_CREDIT = 0x0e"

definition SMB2_HDR_FLAGS :: nat where
  "SMB2_HDR_FLAGS = 0x10"

definition SMB2_HDR_MESSAGE_ID :: nat where
  "SMB2_HDR_MESSAGE_ID = 0x18"

definition SMB2_HDR_BODY :: nat where
  "SMB2_HDR_BODY = 0x40"

definition SMB2_HDR_FLAG_ASYNC :: u32 where
  "SMB2_HDR_FLAG_ASYNC = 0x02"

definition SMB2_OP_NEGPROT :: u16 where
  "SMB2_OP_NEGPROT = 0x00"

definition SMB2_OP_SESSSETUP :: u16 where
  "SMB2_OP_SESSSETUP = 0x01"

definition SMB2_OP_CANCEL :: u16 where
  "SMB2_OP_CANCEL = 0x0c"

definition SMB2_MAGIC :: u32 where
  "SMB2_MAGIC = 0x424D53FE"

definition SMBD_SMB2_NUM_IOV_PER_REQ :: nat where
  "SMBD_SMB2_NUM_IOV_PER_REQ = 4"

definition SMBD_SMB2_HDR_IOV_OFS :: nat where
  "SMBD_SMB2_HDR_IOV_OFS = 1"

definition SMBD_SMB2_BODY_IOV_OFS :: nat where
  "SMBD_SMB2_BODY_IOV_OFS = 2"

lemmas smb2_constants = SMB2_HDR_PROTOCOL_ID_def SMB2_HDR_CREDIT_CHARGE_def SMB2_HDR_STATUS_def SMB2_HDR_OPCODE_def
  SMB2_HDR_CREDIT_def SMB2_HDR_FLAGS_def SMB2_HDR_MESSAGE_ID_def SMB2_HDR_BODY_def SMB2_HDR_FLAG_ASYNC_def
  SMB2_OP_NEGPROT_def SMB2_OP_SESSSETUP_def SMB2_OP_CANCEL_def SMB2_MAGIC_def SMBD_SMB2_NUM_IOV_PER_REQ_def
  SMBD_SMB2_HDR_IOV_OFS_def SMBD_SMB2_BODY_IOV_OFS_def

section \<open>The credits of a connection\<close>

record smb2_credits =
  seq_low :: u64
  seq_range :: u16
  cr_granted :: u16
  cr_max :: u16
  cr_bitmap :: bitmap
  multicredit :: bool

text \<open>The configured maximum is an \<open>int\<close> that is stored to 16 bits. \<open>None\<close> is
  \<open>NT_STATUS_NO_MEMORY\<close>, from the bitmap or from the event that is added after it.\<close>

definition smbd_initialize_smb2 :: "talloc \<Rightarrow> int \<Rightarrow> u64 \<Rightarrow> smb2_credits option" where
  "smbd_initialize_smb2 mem lp_smb2_max_credits expected_seq_low =
     (let cmax = (of_int lp_smb2_max_credits :: u16) in
      case bitmap_talloc mem (unat cmax) of
        None \<Rightarrow> None
      | Some bm \<Rightarrow>
          if talloc_fails mem 1 then None
          else Some \<lparr>seq_low = expected_seq_low, seq_range = 1, cr_granted = 1, cr_max = cmax,
                     cr_bitmap = bm, multicredit = False\<rparr>)"

section \<open>Requests\<close>

text \<open>The loop that moves the window over the used numbers at its start.\<close>

partial_function (option) move_window :: "smb2_credits \<Rightarrow> nat \<Rightarrow> smb2_credits option" where
  "move_window c offset =
     (if bitmap_query (cr_bitmap c) offset then
        let c' = c\<lparr>cr_bitmap := snd (bitmap_clear (cr_bitmap c) offset), seq_low := seq_low c + 1,
                   seq_range := seq_range c - 1\<rparr>
        in move_window c' (unat (seq_low c' mod ucast (cr_max c')))
      else Some c)"

text \<open>Whether the number is accepted, and the credits afterwards; \<open>None\<close> is a division by zero or
  a loop that does not end.\<close>

definition smb2_validate_sequence_number :: "smb2_credits \<Rightarrow> u64 \<Rightarrow> (bool \<times> smb2_credits) option" where
  "smb2_validate_sequence_number c seq_id =
     (if seq_id < seq_low c then Some (False, c)
      else if seq_id \<ge> seq_low c + ucast (seq_range c) then Some (False, c)
      else if cr_max c = 0 then None
      else
        let offset = unat (seq_id mod ucast (cr_max c)) in
        if bitmap_query (cr_bitmap c) offset then Some (False, c)
        else
          let c1 = c\<lparr>cr_bitmap := snd (bitmap_set (cr_bitmap c) offset)\<rparr> in
          if seq_id \<noteq> seq_low c then Some (True, c1)
          else map_option (\<lambda>c2. (True, c2)) (move_window c1 offset))"

fun validate_ids :: "smb2_credits \<Rightarrow> u64 \<Rightarrow> nat \<Rightarrow> (bool \<times> smb2_credits) option" where
  "validate_ids c seq_id 0 = Some (True, c)"
| "validate_ids c seq_id (Suc n) =
     (case smb2_validate_sequence_number c seq_id of
        None \<Rightarrow> None
      | Some (ok, c') \<Rightarrow> if \<not> ok then Some (False, c') else validate_ids c' (seq_id + 1) n)"

definition credit_charge_of :: "smb2_credits \<Rightarrow> u8 list \<Rightarrow> u16" where
  "credit_charge_of c inhdr = (if multicredit c then max (ucast (SVAL inhdr SMB2_HDR_CREDIT_CHARGE)) 1 else 1)"

definition smb2_validate_message_id :: "smb2_credits \<Rightarrow> u8 list \<Rightarrow> (bool \<times> smb2_credits) option" where
  "smb2_validate_message_id c inhdr =
     (let message_id = BVAL inhdr SMB2_HDR_MESSAGE_ID;
          opcode = (ucast (SVAL inhdr SMB2_HDR_OPCODE) :: u16);
          credit_charge = credit_charge_of c inhdr
      in if opcode = SMB2_OP_CANCEL then Some (True, c)
         else if cr_granted c < credit_charge then Some (False, c)
         else
           (case validate_ids c message_id (unat credit_charge) of
              None \<Rightarrow> None
            | Some (ok, c') \<Rightarrow>
                if \<not> ok then Some (False, c')
                else Some (True, c'\<lparr>cr_granted := cr_granted c' - credit_charge\<rparr>)))"

text \<open>The vectors of a request: a vector for the transport, then four for every request of the
  chain. A header or body vector beyond the end is never read by the server; the loop is \<open>None\<close>
  there.\<close>

function validate_vectors :: "smb2_credits \<Rightarrow> u8 list list \<Rightarrow> nat \<Rightarrow> (NTSTATUS \<times> smb2_credits) option" where
  "validate_vectors c vec idx =
     (if idx < length vec then
        if idx + SMBD_SMB2_BODY_IOV_OFS \<ge> length vec then None
        else
          let hdr = vec ! (idx + SMBD_SMB2_HDR_IOV_OFS);
              body = vec ! (idx + SMBD_SMB2_BODY_IOV_OFS)
          in if length hdr \<noteq> SMB2_HDR_BODY then Some (NT_STATUS_INVALID_PARAMETER, c)
             else if length body < 2 then Some (NT_STATUS_INVALID_PARAMETER, c)
             else if IVAL hdr SMB2_HDR_PROTOCOL_ID \<noteq> SMB2_MAGIC then Some (NT_STATUS_INVALID_PARAMETER, c)
             else
               (case smb2_validate_message_id c hdr of
                  None \<Rightarrow> None
                | Some (ok, c') \<Rightarrow>
                    if \<not> ok then Some (NT_STATUS_INVALID_PARAMETER, c')
                    else validate_vectors c' vec (idx + SMBD_SMB2_NUM_IOV_PER_REQ))
      else Some (NT_STATUS_OK, c))"
  by auto
termination
  by (relation "measure (\<lambda>(c, vec, idx). length vec - idx)") (auto simp: SMBD_SMB2_NUM_IOV_PER_REQ_def)

declare validate_vectors.simps [simp del]

definition smbd_smb2_request_validate :: "smb2_credits \<Rightarrow> u8 list list \<Rightarrow> (NTSTATUS \<times> smb2_credits) option" where
  "smbd_smb2_request_validate c vec =
     (if length vec < 1 + SMBD_SMB2_NUM_IOV_PER_REQ then Some (NT_STATUS_INVALID_PARAMETER, c)
      else validate_vectors c vec 1)"

text \<open>Large requests must pay for their size.\<close>

definition smbd_smb2_request_verify_creditcharge :: "smb2_credits \<Rightarrow> u8 list \<Rightarrow> u32 \<Rightarrow> NTSTATUS" where
  "smbd_smb2_request_verify_creditcharge c inhdr data_length =
     (let needed_charge = (ucast ((data_length - 1) div 65536 + 1) :: u16) in
      if needed_charge > credit_charge_of c inhdr then NT_STATUS_INVALID_PARAMETER else NT_STATUS_OK)"

section \<open>Replies\<close>

text \<open>The credits, the header of the reply, and whether the connection is terminated; \<open>None\<close> is the
  failed assertion.\<close>

definition smb2_set_operation_credit ::
    "smb2_credits \<Rightarrow> u8 list \<Rightarrow> u8 list \<Rightarrow> (smb2_credits \<times> u8 list \<times> bool) option" where
  "smb2_set_operation_credit c inhdr outhdr =
     (let current_max_credits = max (cr_max c) 1;
          credit_charge = credit_charge_of c inhdr;
          cmd = (ucast (SVAL inhdr SMB2_HDR_OPCODE) :: u16);
          credits_requested = max (ucast (SVAL inhdr SMB2_HDR_CREDIT) :: u16) 1;
          out_flags = IVAL outhdr SMB2_HDR_FLAGS;
          out_status = IVAL outhdr SMB2_HDR_STATUS
      in if \<not> cr_max c \<ge> cr_granted c then None
         else if cr_max c < credit_charge then Some (c, outhdr, True)
         else
           let wanted =
                 (if flag out_flags SMB2_HDR_FLAG_ASYNC then 0
                  else
                    let additional_possible = cr_max c - credit_charge;
                        additional_max =
                          (if cmd = SMB2_OP_NEGPROT then 0
                           else if cmd = SMB2_OP_SESSSETUP then (if out_status = 0 then cr_max c else 0)
                           else cr_max c);
                        additional_credits = min (credits_requested - 1) (min additional_max additional_possible)
                    in credit_charge + additional_credits);
               until_wrap = 0xFFFFFFFFFFFFFFFF - seq_low c;
               until_max = (if until_wrap > 0 then until_wrap - 1 else until_wrap);
               credits_possible = min until_max (ucast current_max_credits) - ucast (seq_range c);
               credits_granted = (ucast (min (ucast wanted) credits_possible) :: u16)
           in Some (c\<lparr>cr_granted := cr_granted c + credits_granted, seq_range := seq_range c + credits_granted\<rparr>,
                    SSVAL outhdr SMB2_HDR_CREDIT (ucast credits_granted), False))"

text \<open>All replies of a chain: the last one carries the sum of the credits.\<close>

function calculate_loop ::
    "smb2_credits \<Rightarrow> u8 list list \<Rightarrow> u8 list list \<Rightarrow> u16 \<Rightarrow> nat \<Rightarrow> (smb2_credits \<times> u8 list list \<times> bool) option" where
  "calculate_loop c invec outvec total_credits idx =
     (if idx < length outvec then
        let h = idx + SMBD_SMB2_HDR_IOV_OFS in
        if h \<ge> length outvec \<or> h \<ge> length invec then None
        else
          (case smb2_set_operation_credit c (invec ! h) (outvec ! h) of
             None \<Rightarrow> None
           | Some (c', outhdr, term) \<Rightarrow>
               let total = total_credits + ucast (SVAL outhdr SMB2_HDR_CREDIT);
                   shown = (if idx + SMBD_SMB2_NUM_IOV_PER_REQ < length outvec then 0 else total)
               in map_option (\<lambda>(c'', outvec', term'). (c'', outvec', term \<or> term'))
                    (calculate_loop c' invec (outvec[h := SSVAL outhdr SMB2_HDR_CREDIT (ucast shown)]) total
                      (idx + SMBD_SMB2_NUM_IOV_PER_REQ)))
      else Some (c, outvec, False))"
  by auto
termination
  by (relation "measure (\<lambda>(c, invec, outvec, total, idx). length outvec - idx)")
    (auto simp: SMBD_SMB2_NUM_IOV_PER_REQ_def)

declare calculate_loop.simps [simp del]

definition smb2_calculate_credits ::
    "smb2_credits \<Rightarrow> u8 list list \<Rightarrow> u8 list list \<Rightarrow> (smb2_credits \<times> u8 list list \<times> bool) option" where
  "smb2_calculate_credits c invec outvec = calculate_loop c invec outvec 0 1"

section \<open>The window as a set of used numbers\<close>

text \<open>The specification: the numbers that were used, and the first number that was not granted
  yet.\<close>

record seq_spec =
  used :: "nat set"
  limit :: nat

definition spec_accept :: "seq_spec \<Rightarrow> nat \<Rightarrow> bool \<times> seq_spec" where
  "spec_accept s i = (if i \<in> used s \<or> i \<ge> limit s then (False, s) else (True, s\<lparr>used := insert i (used s)\<rparr>))"

definition spec_grant :: "seq_spec \<Rightarrow> nat \<Rightarrow> seq_spec" where
  "spec_grant s n = s\<lparr>limit := limit s + n\<rparr>"

text \<open>The abstraction: everything below the window is used, and in the window what the bitmap
  says.\<close>

definition marks :: "smb2_credits \<Rightarrow> nat set" where
  "marks c = {j. bitmap_query (cr_bitmap c) j}"

definition seen :: "smb2_credits \<Rightarrow> nat set" where
  "seen c = {..<unat (seq_low c)} \<union>
     {i. unat (seq_low c) \<le> i \<and> i < unat (seq_low c) + unat (seq_range c) \<and> i mod unat (cr_max c) \<in> marks c}"

definition abs_credits :: "smb2_credits \<Rightarrow> seq_spec" where
  "abs_credits c = \<lparr>used = seen c, limit = unat (seq_low c) + unat (seq_range c)\<rparr>"

text \<open>The invariant of the window. The largest number is never granted: it belongs to the
  break notifications.\<close>

definition window_ok :: "smb2_credits \<Rightarrow> bool" where
  "window_ok c \<longleftrightarrow>
     cr_max c \<noteq> 0 \<and> bitmap_ok (cr_bitmap c) \<and> bm_n (cr_bitmap c) = unat (cr_max c) \<and>
     unat (seq_range c) \<le> unat (cr_max c) \<and> unat (seq_low c) + unat (seq_range c) < 2 ^ 64 - 1 \<and>
     marks c \<subseteq> (\<lambda>i. i mod unat (cr_max c)) ` {unat (seq_low c) ..< unat (seq_low c) + unat (seq_range c)}"

definition lowest_free :: "smb2_credits \<Rightarrow> bool" where
  "lowest_free c \<longleftrightarrow> unat (seq_low c) mod unat (cr_max c) \<notin> marks c"

definition outstanding :: "smb2_credits \<Rightarrow> nat" where
  "outstanding c = unat (seq_range c) - card (marks c)"

definition credits_ok :: "smb2_credits \<Rightarrow> bool" where
  "credits_ok c \<longleftrightarrow> window_ok c \<and> lowest_free c \<and> unat (cr_granted c) = outstanding c"

lemma mod_window:
  assumes "L \<le> i" "i < L + M" "L \<le> j" "j < L + M" "i mod M = j mod M"
  shows "i = (j :: nat)"
proof (rule ccontr)
  assume "i \<noteq> j"
  then consider "i < j" | "j < i" by linarith
  then show False
  proof cases
    case 1
    then have "M dvd j - i" using assms(5) mod_eq_dvd_iff_nat [of i j M] mod_eq_dvd_iff_nat [of j i M] by auto
    then show False using 1 assms dvd_imp_le [of M "j - i"] by simp
  next
    case 2
    then have "M dvd i - j" using assms(5) mod_eq_dvd_iff_nat [of i j M] mod_eq_dvd_iff_nat [of j i M] by auto
    then show False using 2 assms dvd_imp_le [of M "i - j"] by simp
  qed
qed

lemma unat_ucast_64 [simp]: "unat (ucast (w :: u16) :: u64) = unat w"
  by (simp add: unsigned_ucast_eq take_bit_nat_eq_self_iff unsigned_less [THEN less_trans])

lemma unat_mod_max: "cr_max c \<noteq> 0 \<Longrightarrow> unat (w mod ucast (cr_max c) :: u64) = unat w mod unat (cr_max c)"
  by (simp add: unat_mod_distrib)

lemma max_pos: "window_ok c \<Longrightarrow> 0 < unat (cr_max c)"
  by (simp add: window_ok_def unat_gt_0)

lemma window_marks_finite [simp]: "finite (marks c)"
  by (simp add: marks_def)

lemma window_marks_card: "window_ok c \<Longrightarrow> card (marks c) \<le> unat (seq_range c)"
  unfolding window_ok_def using surj_card_le [of "{unat (seq_low c) ..< unat (seq_low c) + unat (seq_range c)}"] by auto

text \<open>One turn of the loop: the window starts one number later.\<close>

definition moved :: "smb2_credits \<Rightarrow> smb2_credits" where
  "moved c = c\<lparr>cr_bitmap := snd (bitmap_clear (cr_bitmap c) (unat (seq_low c) mod unat (cr_max c))),
     seq_low := seq_low c + 1, seq_range := seq_range c - 1\<rparr>"

lemma moved_simps [simp]: "cr_max (moved c) = cr_max c" "cr_granted (moved c) = cr_granted c" "multicredit (moved c) = multicredit c"
  by (simp_all add: moved_def)

lemma moved_window:
  assumes "window_ok c" "\<not> lowest_free c"
  shows "unat (seq_low (moved c)) = Suc (unat (seq_low c))"
    and "Suc (unat (seq_range (moved c))) = unat (seq_range c)"
    and "marks (moved c) = marks c - {unat (seq_low c) mod unat (cr_max c)}"
    and "Suc (card (marks (moved c))) = card (marks c)"
    and "window_ok (moved c)"
proof -
  let ?L = "unat (seq_low c)" and ?R = "unat (seq_range c)" and ?M = "unat (cr_max c)"
  have M: "0 < ?M" "?R \<le> ?M" "?L + ?R < 2 ^ 64 - 1"
    and b: "bitmap_ok (cr_bitmap c)" "bm_n (cr_bitmap c) = ?M"
    and w: "marks c \<subseteq> (\<lambda>i. i mod ?M) ` {?L ..< ?L + ?R}" and q: "?L mod ?M \<in> marks c"
    using assms max_pos by (auto simp: window_ok_def lowest_free_def)
  then have R: "0 < ?R" by (cases "?R = 0") auto
  have l: "unat (1 :: u64) = 1" "unat (1 :: u16) = 1" by simp_all
  show low: "unat (seq_low (moved c)) = Suc ?L"
    using M(3) unat_add_lem [of "seq_low c" 1] l by (simp add: moved_def)
  have "(1 :: u16) \<le> seq_range c" using R by (simp add: word_le_nat_alt)
  then show range: "Suc (unat (seq_range (moved c))) = ?R"
    using R unat_sub [of 1 "seq_range c"] by (simp add: moved_def)
  show m: "marks (moved c) = marks c - {?L mod ?M}"
    using bm.marks_clear [of "cr_bitmap c" "?L mod ?M"] b M(1) by (simp add: marks_def moved_def)
  show "Suc (card (marks (moved c))) = card (marks c)"
    using m q card_Suc_Diff1 [of "marks c"] by simp
  have "marks (moved c) \<subseteq> (\<lambda>i. i mod ?M) ` {Suc ?L ..< ?L + ?R}"
  proof
    fix o1 assume "o1 \<in> marks (moved c)"
    then have o: "o1 \<in> marks c" "o1 \<noteq> ?L mod ?M" using m by auto
    obtain i where "?L \<le> i" "i < ?L + ?R" "o1 = i mod ?M" using subsetD [OF w o(1)] by auto
    moreover have "i \<noteq> ?L" using calculation(3) o(2) by auto
    ultimately show "o1 \<in> (\<lambda>i. i mod ?M) ` {Suc ?L ..< ?L + ?R}" by auto
  qed
  then show "window_ok (moved c)"
    using M b low range bm.clear_valid [OF b(1)] assms(1) by (auto simp: window_ok_def moved_def)
qed

lemma moved_seen:
  assumes "window_ok c" "\<not> lowest_free c"
  shows "seen (moved c) = seen c"
proof -
  let ?L = "unat (seq_low c)" and ?R = "unat (seq_range c)" and ?M = "unat (cr_max c)"
  note v = moved_window [OF assms]
  have M: "?R \<le> ?M" using assms(1) by (simp add: window_ok_def)
  have e: "unat (seq_low (moved c)) + unat (seq_range (moved c)) = ?L + ?R" using v(1,2) by simp
  have "i mod ?M \<in> marks (moved c) \<longleftrightarrow> i mod ?M \<in> marks c" if "Suc ?L \<le> i" "i < ?L + ?R" for i
    using mod_window [of ?L i ?M ?L] that M v(3) by auto
  moreover have "?L mod ?M \<in> marks c" using assms(2) by (simp add: lowest_free_def)
  ultimately show ?thesis
    using v(1,2) unfolding seen_def e moved_simps v(1) by (auto simp: less_Suc_eq le_Suc_eq Suc_le_eq) 
qed

text \<open>The loop ends, since every turn clears a bit, and then the window starts with a free number.
  What it keeps is collected in a relation.\<close>

definition same_window :: "smb2_credits \<Rightarrow> smb2_credits \<Rightarrow> bool" where
  "same_window c c' \<longleftrightarrow> abs_credits c' = abs_credits c \<and> outstanding c' = outstanding c \<and>
     cr_max c' = cr_max c \<and> cr_granted c' = cr_granted c \<and> multicredit c' = multicredit c"

lemma same_window_refl [simp]: "same_window c c"
  by (simp add: same_window_def)

lemma same_window_trans: "same_window a b \<Longrightarrow> same_window b c \<Longrightarrow> same_window a c"
  by (simp add: same_window_def)

lemma moved_same:
  assumes "window_ok c" "\<not> lowest_free c"
  shows "same_window c (moved c)"
  using moved_window(1,2,4) [OF assms] moved_seen [OF assms]
  by (simp add: same_window_def abs_credits_def outstanding_def)

lemma move_window_returns:
  assumes "window_ok c"
  shows "\<exists>c'. move_window c (unat (seq_low c) mod unat (cr_max c)) = Some c' \<and>
    window_ok c' \<and> lowest_free c' \<and> same_window c c'"
  using assms
proof (induction "card (marks c)" arbitrary: c)
  case 0
  then have "marks c = {}" by simp
  then show ?case using 0 by (subst move_window.simps) (auto simp: lowest_free_def marks_def)
next
  case (Suc n)
  show ?case
  proof (cases "lowest_free c")
    case True
    then show ?thesis using Suc.prems by (subst move_window.simps) (auto simp: lowest_free_def marks_def)
  next
    case False
    note m = moved_window [OF Suc.prems False]
    obtain c' where c': "move_window (moved c) (unat (seq_low (moved c)) mod unat (cr_max (moved c))) = Some c'"
      "window_ok c'" "lowest_free c'" "same_window (moved c) c'"
      using Suc.hyps(1) [of "moved c"] Suc.hyps(2) m(4,5) by auto
    have "cr_max c \<noteq> 0" using Suc.prems by (simp add: window_ok_def)
    then have "move_window c (unat (seq_low c) mod unat (cr_max c)) =
        move_window (moved c) (unat (seq_low (moved c)) mod unat (cr_max (moved c)))"
      using False unat_mod_max [of "moved c"]
      by (subst move_window.simps) (simp add: lowest_free_def marks_def moved_def Let_def)
    then show ?thesis using c' same_window_trans [OF moved_same [OF Suc.prems False]] by auto
  qed
qed

lemma marked_window:
  assumes "window_ok c" "i \<notin> seen c" "i < limit (abs_credits c)"
    and "c1 = c\<lparr>cr_bitmap := snd (bitmap_set (cr_bitmap c) (i mod unat (cr_max c)))\<rparr>"
  shows "window_ok c1" "seen c1 = insert i (seen c)" "Suc (outstanding c1) = outstanding c"
    and "i \<noteq> unat (seq_low c) \<Longrightarrow> lowest_free c \<Longrightarrow> lowest_free c1"
proof -
  let ?L = "unat (seq_low c)" and ?R = "unat (seq_range c)" and ?M = "unat (cr_max c)"
  have M: "0 < ?M" "?R \<le> ?M" and b: "bitmap_ok (cr_bitmap c)" "bm_n (cr_bitmap c) = ?M"
    and w: "marks c \<subseteq> (\<lambda>i. i mod ?M) ` {?L ..< ?L + ?R}"
    using assms(1) max_pos by (auto simp: window_ok_def)
  have i: "?L \<le> i" "i < ?L + ?R" "i mod ?M \<notin> marks c"
    using assms(2,3) by (auto simp: seen_def abs_credits_def)
  have m: "marks c1 = insert (i mod ?M) (marks c)"
    using bm.marks_set [OF b(1), of "i mod ?M"] b(2) M(1) by (simp add: assms(4) marks_def)
  have f: "seq_low c1 = seq_low c" "seq_range c1 = seq_range c" "cr_max c1 = cr_max c" by (simp_all add: assms(4))
  show w1: "window_ok c1"
    using assms(1) i bm.set_valid [OF b(1)] by (auto simp: window_ok_def f m) (simp_all add: assms(4))
  show "seen c1 = insert i (seen c)"
    using i M(2) mod_window [of ?L _ ?M i] by (auto simp: seen_def f m)
  have "card (marks c1) = Suc (card (marks c))" using m i(3) by simp
  then show "Suc (outstanding c1) = outstanding c"
    using window_marks_card [OF w1] by (simp add: outstanding_def f)
  show "i \<noteq> ?L \<Longrightarrow> lowest_free c \<Longrightarrow> lowest_free c1"
    using i M(2) mod_window [of ?L i ?M ?L] by (auto simp: lowest_free_def f m)
qed

text \<open>One number: the answer is that of the specification.\<close>

lemma seq_id_in_window:
  assumes "window_ok c"
  shows "w < seq_low c \<or> w \<ge> seq_low c + ucast (seq_range c) \<longleftrightarrow>
    unat w < unat (seq_low c) \<or> unat w \<ge> unat (seq_low c) + unat (seq_range c)"
proof -
  have "unat (seq_low c + ucast (seq_range c)) = unat (seq_low c) + unat (seq_range c)"
    using assms unat_add_lem [of "seq_low c" "ucast (seq_range c) :: u64"] by (simp add: window_ok_def)
  then show ?thesis by (simp add: word_less_nat_alt word_le_nat_alt)
qed

lemma validate_sequence_number_spec:
  assumes "window_ok c" "lowest_free c"
  obtains (Refused) "smb2_validate_sequence_number c w = Some (False, c)" "unat w \<in> seen c \<or> limit (abs_credits c) \<le> unat w"
  | (Accepted) c' where "smb2_validate_sequence_number c w = Some (True, c')" "unat w \<notin> seen c" "unat w < limit (abs_credits c)"
    "window_ok c'" "lowest_free c'" "abs_credits c' = (abs_credits c)\<lparr>used := insert (unat w) (seen c)\<rparr>"
    "Suc (outstanding c') = outstanding c" "cr_max c' = cr_max c" "cr_granted c' = cr_granted c" "multicredit c' = multicredit c"
proof (cases "unat w \<in> seen c \<or> limit (abs_credits c) \<le> unat w")
  case True
  have m: "cr_max c \<noteq> 0" using assms(1) by (simp add: window_ok_def)
  have "smb2_validate_sequence_number c w = Some (False, c)"
    using True seq_id_in_window [OF assms(1), of w] m
    by (auto simp: smb2_validate_sequence_number_def Let_def unat_mod_max seen_def marks_def abs_credits_def)
  then show ?thesis using Refused True by blast
next
  case False
  let ?c1 = "c\<lparr>cr_bitmap := snd (bitmap_set (cr_bitmap c) (unat w mod unat (cr_max c)))\<rparr>"
  have m: "cr_max c \<noteq> 0" using assms(1) by (simp add: window_ok_def)
  have F: "unat w \<notin> seen c" "unat w < limit (abs_credits c)" using False by simp_all
  note v = marked_window [OF assms(1) F refl]
  have e: "smb2_validate_sequence_number c w =
      (if w \<noteq> seq_low c then Some (True, ?c1) else map_option (\<lambda>c2. (True, c2)) (move_window ?c1 (unat w mod unat (cr_max c))))"
    using F seq_id_in_window [OF assms(1), of w] m
    by (auto simp: smb2_validate_sequence_number_def Let_def unat_mod_max seen_def marks_def abs_credits_def)
  show ?thesis
  proof (cases "w = seq_low c")
    case False
    then show ?thesis
      using Accepted [of ?c1] e F v assms(2) by (simp add: abs_credits_def word_unat_eq_iff)
  next
    case True
    then obtain c' where "move_window ?c1 (unat w mod unat (cr_max c)) = Some c'" "window_ok c'" "lowest_free c'" "same_window ?c1 c'"
      using move_window_returns [OF v(1)] by auto
    then show ?thesis
      using Accepted [of c'] e F v(2,3) True by (simp add: abs_credits_def same_window_def)
  qed
qed

section \<open>Requests keep the invariant\<close>

definition uses :: "smb2_credits \<Rightarrow> nat set \<Rightarrow> smb2_credits \<Rightarrow> bool" where
  "uses c ids c' \<longleftrightarrow> ids \<inter> seen c = {} \<and> abs_credits c' = (abs_credits c)\<lparr>used := seen c \<union> ids\<rparr> \<and>
     cr_max c' = cr_max c \<and> multicredit c' = multicredit c"

lemma abs_credits_used [simp]: "used (abs_credits c) = seen c"
  by (simp add: abs_credits_def)

lemma uses_seen: "uses c ids c' \<Longrightarrow> seen c' = seen c \<union> ids"
  by (metis abs_credits_used seq_spec.select_convs(1) seq_spec.surjective seq_spec.update_convs(1) uses_def)

lemma uses_limit: "uses c ids c' \<Longrightarrow> limit (abs_credits c') = limit (abs_credits c)"
  by (simp add: uses_def)

lemma uses_empty [simp]: "uses c {} c"
  by (simp add: uses_def abs_credits_def)

lemma uses_trans: "uses a i b \<Longrightarrow> uses b j c \<Longrightarrow> i \<inter> j = {} \<Longrightarrow> uses a (i \<union> j) c"
  using uses_seen [of a i b] by (auto simp: uses_def Un_assoc)

lemma uses_disjoint: "uses a i b \<Longrightarrow> uses b j c \<Longrightarrow> i \<inter> j = {}"
  using uses_seen [of a i b] by (auto simp: uses_def)

lemma validate_ids_spec:
  assumes "window_ok c" "lowest_free c"
  shows "\<exists>ok c'. validate_ids c w n = Some (ok, c') \<and>
    (ok \<longrightarrow> window_ok c' \<and> lowest_free c' \<and> uses c {unat w ..< unat w + n} c' \<and>
       outstanding c' + n = outstanding c \<and> cr_granted c' = cr_granted c)"
  using assms
proof (induction n arbitrary: c w)
  case 0
  then show ?case by (intro exI [of _ True] exI [of _ c]) simp
next
  case (Suc n)
  show ?case
  proof (cases rule: validate_sequence_number_spec [OF Suc.prems, of w, case_names Refused Accepted])
    case Refused
    then show ?thesis by auto
  next
    case (Accepted c1)
    have "limit (abs_credits c) < 2 ^ 64 - 1" using Suc.prems(1) by (simp add: window_ok_def abs_credits_def)
    then have w: "unat (w + 1) = Suc (unat w)" using Accepted(3) unat_add_lem [of w 1] by simp
    have u: "uses c {unat w} c1" using Accepted by (simp add: uses_def)
    obtain ok c' where v: "validate_ids c1 (w + 1) n = Some (ok, c')"
      "ok \<longrightarrow> window_ok c' \<and> lowest_free c' \<and> uses c1 {unat (w + 1) ..< unat (w + 1) + n} c' \<and>
         outstanding c' + n = outstanding c1 \<and> cr_granted c' = cr_granted c1"
      using Suc.IH [OF Accepted(4,5), of "w + 1"] by blast
    have e: "{unat w} \<union> {unat (w + 1) ..< unat (w + 1) + n} = {unat w ..< unat w + Suc n}" using w by auto
    have "uses c {unat w ..< unat w + Suc n} c'" if ok
      unfolding e [symmetric] using v(2) that u w by (intro uses_trans) auto
    then show ?thesis using v Accepted(1,7,9) by auto
  qed
qed

text \<open>The numbers that a request takes, and the numbers of a whole chain.\<close>

definition accepted_ids :: "smb2_credits \<Rightarrow> u8 list \<Rightarrow> nat list" where
  "accepted_ids c inhdr =
     (if (ucast (SVAL inhdr SMB2_HDR_OPCODE) :: u16) = SMB2_OP_CANCEL then []
      else [unat (BVAL inhdr SMB2_HDR_MESSAGE_ID) ..< unat (BVAL inhdr SMB2_HDR_MESSAGE_ID) + unat (credit_charge_of c inhdr)])"

function chain_ids :: "smb2_credits \<Rightarrow> u8 list list \<Rightarrow> nat \<Rightarrow> nat list" where
  "chain_ids c vec idx =
     (if idx < length vec
      then accepted_ids c (vec ! (idx + SMBD_SMB2_HDR_IOV_OFS)) @ chain_ids c vec (idx + SMBD_SMB2_NUM_IOV_PER_REQ)
      else [])"
  by auto
termination
  by (relation "measure (\<lambda>(c, vec, idx). length vec - idx)") (auto simp: SMBD_SMB2_NUM_IOV_PER_REQ_def)

declare chain_ids.simps [simp del]

lemma accepted_ids_cong: "multicredit c' = multicredit c \<Longrightarrow> accepted_ids c' = accepted_ids c"
  by (simp add: accepted_ids_def credit_charge_of_def fun_eq_iff)

lemma chain_ids_cong: "multicredit c' = multicredit c \<Longrightarrow> chain_ids c' vec idx = chain_ids c vec idx"
proof (induction c vec idx rule: chain_ids.induct)
  case (1 c vec idx)
  then show ?case
    using accepted_ids_cong [OF "1.prems"] by (simp add: chain_ids.simps [of c' vec idx] chain_ids.simps [of c vec idx])
qed

lemma validate_message_id_spec:
  assumes "credits_ok c"
  shows "\<exists>ok c'. smb2_validate_message_id c inhdr = Some (ok, c') \<and>
    (ok \<longrightarrow> credits_ok c' \<and> uses c (set (accepted_ids c inhdr)) c')"
proof -
  let ?mid = "BVAL inhdr SMB2_HDR_MESSAGE_ID" and ?n = "credit_charge_of c inhdr"
  let ?cancel = "(ucast (SVAL inhdr SMB2_HDR_OPCODE) :: u16) = SMB2_OP_CANCEL"
  consider (Simple) "?cancel \<or> cr_granted c < ?n" | (Ids) "\<not> ?cancel" "?n \<le> cr_granted c" by fastforce
  then show ?thesis
  proof cases
    case Simple
    then show ?thesis using assms by (auto simp: smb2_validate_message_id_def accepted_ids_def Let_def)
  next
    case Ids
    have w: "window_ok c" "lowest_free c" using assms by (simp_all add: credits_ok_def)
    obtain ok c' where v: "validate_ids c ?mid (unat ?n) = Some (ok, c')"
      "ok \<longrightarrow> window_ok c' \<and> lowest_free c' \<and> uses c {unat ?mid ..< unat ?mid + unat ?n} c' \<and>
         outstanding c' + unat ?n = outstanding c \<and> cr_granted c' = cr_granted c"
      using validate_ids_spec [OF w] by blast
    let ?c2 = "c'\<lparr>cr_granted := cr_granted c' - ?n\<rparr>"
    have f: "window_ok ?c2 = window_ok c'" "lowest_free ?c2 = lowest_free c'" "outstanding ?c2 = outstanding c'"
      "uses c ids ?c2 = uses c ids c'" for ids
      by (simp_all add: window_ok_def lowest_free_def outstanding_def marks_def uses_def abs_credits_def seen_def)
    have "unat (cr_granted c - ?n) = unat (cr_granted c) - unat ?n" using Ids(2) by (rule unat_sub)
    moreover have "unat (cr_granted c) = outstanding c" using assms by (simp add: credits_ok_def)
    moreover have "outstanding c' + unat ?n = outstanding c" "cr_granted c' = cr_granted c" if ok
      using v(2) that by simp_all
    ultimately have "unat (cr_granted c' - ?n) = outstanding c'" if ok using that by simp
    then have "credits_ok ?c2" if ok
      using v(2) that unfolding credits_ok_def f by simp
    then have "ok \<longrightarrow> credits_ok ?c2 \<and> uses c (set (accepted_ids c inhdr)) ?c2"
      using v(2) Ids(1) unfolding f(4) by (simp add: accepted_ids_def)
    moreover have "smb2_validate_message_id c inhdr = Some (if ok then (True, ?c2) else (False, c'))"
      using v(1) Ids by (simp add: smb2_validate_message_id_def Let_def not_less)
    ultimately show ?thesis by (cases ok) auto
  qed
qed

lemma validate_vectors_returns:
  assumes "credits_ok c" "length vec mod 4 = idx mod 4"
  shows "\<exists>status c'. validate_vectors c vec idx = Some (status, c')"
  using assms
proof (induction c vec idx rule: validate_vectors.induct)
  case (1 c vec idx)
  let ?hdr = "vec ! (idx + SMBD_SMB2_HDR_IOV_OFS)"
  obtain ok c1 where m: "smb2_validate_message_id c ?hdr = Some (ok, c1)" "ok \<longrightarrow> credits_ok c1"
    using validate_message_id_spec [OF "1.prems"(1)] by blast
  have b: "\<not> idx + SMBD_SMB2_BODY_IOV_OFS \<ge> length vec" if "idx < length vec"
  proof -
    have "4 dvd length vec - idx" using "1.prems"(2) that by (simp add: mod_eq_dvd_iff_nat)
    then have "4 \<le> length vec - idx" using that dvd_imp_le [of 4 "length vec - idx"] by simp
    then show ?thesis by (simp add: SMBD_SMB2_BODY_IOV_OFS_def)
  qed
  have i: "length vec mod 4 = (idx + SMBD_SMB2_NUM_IOV_PER_REQ) mod 4"
    using "1.prems"(2) by (simp add: SMBD_SMB2_NUM_IOV_PER_REQ_def)
  show ?case
  proof (cases "idx < length vec \<and> length ?hdr = SMB2_HDR_BODY \<and> 2 \<le> length (vec ! (idx + SMBD_SMB2_BODY_IOV_OFS)) \<and>
      IVAL ?hdr SMB2_HDR_PROTOCOL_ID = SMB2_MAGIC \<and> ok")
    case True
    then have "\<exists>status c'. validate_vectors c1 vec (idx + SMBD_SMB2_NUM_IOV_PER_REQ) = Some (status, c')"
      using "1.IH" [OF _ b refl refl _ _ _ m(1) refl] m(2) i by simp
    then show ?thesis using True b m(1) by (subst validate_vectors.simps) (simp add: Let_def)
  next
    case False
    then show ?thesis using b m(1) by (subst validate_vectors.simps) (auto simp: Let_def)
  qed
qed

lemma validate_vectors_uses:
  assumes "credits_ok c" "validate_vectors c vec idx = Some (NT_STATUS_OK, c')"
  shows "credits_ok c' \<and> distinct (chain_ids c vec idx) \<and> uses c (set (chain_ids c vec idx)) c'"
  using assms
proof (induction c vec idx rule: validate_vectors.induct)
  case (1 c vec idx)
  let ?hdr = "vec ! (idx + SMBD_SMB2_HDR_IOV_OFS)" and ?next = "idx + SMBD_SMB2_NUM_IOV_PER_REQ"
  show ?case
  proof (cases "idx < length vec")
    case False
    then have "chain_ids c vec idx = []" by (subst chain_ids.simps) simp
    then show ?thesis using "1.prems" False by (simp add: validate_vectors.simps [of c vec idx])
  next
    case True
    obtain ok c1 where m: "smb2_validate_message_id c ?hdr = Some (ok, c1)"
      "ok \<longrightarrow> credits_ok c1 \<and> uses c (set (accepted_ids c ?hdr)) c1"
      using validate_message_id_spec [OF "1.prems"(1)] by blast
    have r: "idx + SMBD_SMB2_BODY_IOV_OFS < length vec" "length ?hdr = SMB2_HDR_BODY"
      "2 \<le> length (vec ! (idx + SMBD_SMB2_BODY_IOV_OFS))" "IVAL ?hdr SMB2_HDR_PROTOCOL_ID = SMB2_MAGIC" ok
      "validate_vectors c1 vec ?next = Some (NT_STATUS_OK, c')"
      using "1.prems"(2) True m(1) by (auto simp: validate_vectors.simps [of c vec idx] Let_def split: if_splits)
    have u: "uses c (set (accepted_ids c ?hdr)) c1" "credits_ok c1" using m(2) r(5) by simp_all
    have "credits_ok c' \<and> distinct (chain_ids c1 vec ?next) \<and> uses c1 (set (chain_ids c1 vec ?next)) c'"
      using "1.IH" [OF True _ refl refl _ _ _ m(1) refl _ u(2) r(6)] r(1-5) by simp
    moreover have "chain_ids c1 vec ?next = chain_ids c vec ?next"
      using u(1) by (intro chain_ids_cong) (simp add: uses_def)
    ultimately have v: "credits_ok c'" "distinct (chain_ids c vec ?next)" "uses c1 (set (chain_ids c vec ?next)) c'"
      by simp_all
    have "distinct (accepted_ids c ?hdr)" by (simp add: accepted_ids_def)
    then show ?thesis
      using v uses_trans [OF u(1) v(3)] uses_disjoint [OF u(1) v(3)] True by (subst (1 2) chain_ids.simps) simp
  qed
qed

section \<open>Replies keep the invariant\<close>

lemma credits_ok_facts:
  assumes "credits_ok c"
  shows "cr_granted c \<le> cr_max c" "0 < unat (cr_max c)" "unat (cr_granted c) \<le> unat (seq_range c)"
    "unat (seq_range c) \<le> unat (cr_max c)" "unat (seq_low c) + unat (seq_range c) < 2 ^ 64 - 1"
  using assms max_pos [of c] by (auto simp: credits_ok_def window_ok_def outstanding_def word_le_nat_alt)

text \<open>How many credits the window has room for.\<close>

definition room :: "smb2_credits \<Rightarrow> nat" where
  "room c = min (2 ^ 64 - 2 - unat (seq_low c)) (unat (cr_max c)) - unat (seq_range c)"

lemma credits_possible:
  assumes "credits_ok c"
  shows "unat (min (if 0xFFFFFFFFFFFFFFFF - seq_low c > 0 then 0xFFFFFFFFFFFFFFFF - seq_low c - 1
        else 0xFFFFFFFFFFFFFFFF - seq_low c) (ucast (max (cr_max c) 1)) - ucast (seq_range c)) = room c"
proof -
  note f = credits_ok_facts [OF assms]
  have "1 \<le> cr_max c" using f(2) by (simp add: word_le_nat_alt)
  then have m: "max (cr_max c) 1 = cr_max c" by (simp add: max_def)
  let ?w = "0xFFFFFFFFFFFFFFFF - seq_low c"
  have "seq_low c \<le> 0xFFFFFFFFFFFFFFFF" using f(5) by (simp add: word_le_nat_alt)
  then have w: "unat ?w = 2 ^ 64 - 1 - unat (seq_low c)" by (simp add: unat_sub)
  then have p: "?w > 0" using f(5) by (simp add: word_less_nat_alt)
  then have w1: "unat (?w - 1) = 2 ^ 64 - 2 - unat (seq_low c)"
    using w by (simp add: unat_sub word_le_nat_alt word_less_nat_alt)
  have "unat (min (?w - 1) (ucast (cr_max c))) = min (2 ^ 64 - 2 - unat (seq_low c)) (unat (cr_max c))"
    using w1 by (simp add: min_def word_le_nat_alt)
  moreover have "ucast (seq_range c) \<le> min (?w - 1) (ucast (cr_max c))"
    using f(4,5) w1 by (simp add: word_le_nat_alt min_def) arith
  ultimately show ?thesis using p m by (simp add: unat_sub room_def)
qed

text \<open>Granting keeps the invariant as long as there is room.\<close>

definition grant :: "smb2_credits \<Rightarrow> u16 \<Rightarrow> smb2_credits" where
  "grant c g = c\<lparr>cr_granted := cr_granted c + g, seq_range := seq_range c + g\<rparr>"

lemma grant_spec:
  assumes "credits_ok c" "unat g \<le> room c"
  shows "credits_ok (grant c g)" "abs_credits (grant c g) = spec_grant (abs_credits c) (unat g)"
    "unat (cr_granted (grant c g)) = unat (cr_granted c) + unat g"
proof -
  let ?L = "unat (seq_low c)" and ?R = "unat (seq_range c)" and ?M = "unat (cr_max c)"
  note f = credits_ok_facts [OF assms(1)]
  have b: "?R + unat g \<le> ?M" "?L + ?R + unat g < 2 ^ 64 - 1"
    using assms(2) f(4,5) by (auto simp: room_def min_def split: if_splits)
  have "?M < 2 ^ 16" using unsigned_less [where 'a = nat, of "cr_max c"] by simp
  then have r: "unat (seq_range c + g) = ?R + unat g" and n: "unat (cr_granted c + g) = unat (cr_granted c) + unat g"
    using b(1) f(3) unat_add_lem [of "seq_range c" g] unat_add_lem [of "cr_granted c" g] by simp_all
  show "unat (cr_granted (grant c g)) = unat (cr_granted c) + unat g" using n by (simp add: grant_def)
  have s: "marks (grant c g) = marks c" "cr_max (grant c g) = cr_max c" "seq_low (grant c g) = seq_low c"
    "unat (seq_range (grant c g)) = ?R + unat g"
    using r by (simp_all add: grant_def marks_def)
  have w: "marks c \<subseteq> (\<lambda>i. i mod ?M) ` {?L ..< ?L + ?R}" and k: "window_ok c" using assms(1) by (simp_all add: credits_ok_def window_ok_def)
  then have "marks c \<subseteq> (\<lambda>i. i mod ?M) ` {?L ..< ?L + (?R + unat g)}" by fastforce
  then have "window_ok (grant c g)" using k b s by (simp add: window_ok_def) (simp add: grant_def)
  moreover have "outstanding (grant c g) = outstanding c + unat g"
    using window_marks_card [OF k] s by (simp add: outstanding_def)
  ultimately show "credits_ok (grant c g)"
    using assms(1) n s by (simp add: credits_ok_def lowest_free_def) (simp add: grant_def)
  have "i mod ?M \<notin> marks c" if "?L + ?R \<le> i" "i < ?L + (?R + unat g)" for i
  proof
    assume "i mod ?M \<in> marks c"
    then obtain j where "?L \<le> j" "j < ?L + ?R" "i mod ?M = j mod ?M" using subsetD [OF w] by fastforce
    then show False using mod_window [of ?L i ?M j] that b(1) by simp
  qed
  then have "seen (grant c g) = seen c" using s by (auto simp: seen_def) (meson not_le)
  then show "abs_credits (grant c g) = spec_grant (abs_credits c) (unat g)"
    using s by (simp add: abs_credits_def spec_grant_def)
qed

text \<open>A reply grants what fits, at least the charge of the request when it is the first reply.\<close>

lemma charge_pos: "1 \<le> unat (credit_charge_of c inhdr)"
proof -
  have "1 \<le> credit_charge_of c inhdr" by (simp add: credit_charge_of_def)
  then show ?thesis by (simp add: word_le_nat_alt)
qed

lemma set_operation_credit_spec:
  assumes "credits_ok c"
  obtains (Terminated) "smb2_set_operation_credit c inhdr outhdr = Some (c, outhdr, True)" "cr_max c < credit_charge_of c inhdr"
  | (Granted) g where "credit_charge_of c inhdr \<le> cr_max c" "unat g \<le> room c"
    "smb2_set_operation_credit c inhdr outhdr = Some (grant c g, SSVAL outhdr SMB2_HDR_CREDIT (ucast g), False)"
    "\<not> flag (IVAL outhdr SMB2_HDR_FLAGS) SMB2_HDR_FLAG_ASYNC \<Longrightarrow> min (unat (credit_charge_of c inhdr)) (room c) \<le> unat g"
proof (cases "cr_max c < credit_charge_of c inhdr")
  case True
  then show ?thesis using Terminated credits_ok_facts(1) [OF assms] by (simp add: smb2_set_operation_credit_def Let_def)
next
  case False
  let ?charge = "credit_charge_of c inhdr" and ?cmd = "ucast (SVAL inhdr SMB2_HDR_OPCODE) :: u16"
  define add where "add = min (max (ucast (SVAL inhdr SMB2_HDR_CREDIT) :: u16) 1 - 1)
    (min (if ?cmd = SMB2_OP_NEGPROT then 0 else if ?cmd = SMB2_OP_SESSSETUP
           then (if IVAL outhdr SMB2_HDR_STATUS = 0 then cr_max c else 0) else cr_max c) (cr_max c - ?charge))"
  define wanted where "wanted = (if flag (IVAL outhdr SMB2_HDR_FLAGS) SMB2_HDR_FLAG_ASYNC then 0 else ?charge + add)"
  let ?possible = "min (if 0xFFFFFFFFFFFFFFFF - seq_low c > 0 then 0xFFFFFFFFFFFFFFFF - seq_low c - 1
        else 0xFFFFFFFFFFFFFFFF - seq_low c) (ucast (max (cr_max c) 1)) - ucast (seq_range c) :: u64"
  define g where "g = (ucast (min (ucast wanted) ?possible) :: u16)"
  note p = credits_possible [OF assms]
  have "unat (min (ucast wanted) ?possible) = min (unat wanted) (room c)"
    using p by (simp add: min_def word_le_nat_alt)
  moreover have "unat wanted < 2 ^ 16" using unsigned_less [where 'a = nat, of wanted] by simp
  ultimately have g: "unat g = min (unat wanted) (room c)"
    by (simp add: g_def unsigned_ucast_eq take_bit_nat_eq_self_iff)
  have n: "\<not> \<not> cr_granted c \<le> cr_max c" using credits_ok_facts(1) [OF assms] by simp
  have e: "smb2_set_operation_credit c inhdr outhdr = Some (grant c g, SSVAL outhdr SMB2_HDR_CREDIT (ucast g), False)"
    unfolding smb2_set_operation_credit_def Let_def g_def wanted_def add_def grant_def if_not_P [OF n] if_not_P [OF False] ..
  have "unat ?charge \<le> unat (?charge + add)"
  proof -
    have "add \<le> cr_max c - ?charge" unfolding add_def by (rule min.coboundedI2, rule min.cobounded2)
    then have "unat add \<le> unat (cr_max c) - unat ?charge" 
      using False unat_sub [of ?charge "cr_max c"] by (simp add: word_le_nat_alt not_less)
    moreover have "unat (cr_max c) < 2 ^ 16" using unsigned_less [where 'a = nat, of "cr_max c"] by simp
    moreover have "unat ?charge \<le> unat (cr_max c)" using False by (simp add: word_less_nat_alt)
    ultimately have "unat ?charge + unat add < 2 ^ 16" by linarith
    then show ?thesis using unat_add_lem [of ?charge add] by simp
  qed
  then show ?thesis using Granted [of g] False g e by (auto simp: wanted_def)
qed

definition grants :: "smb2_credits \<Rightarrow> nat \<Rightarrow> smb2_credits \<Rightarrow> bool" where
  "grants c n c' \<longleftrightarrow> credits_ok c' \<and> n \<le> room c \<and> room c' = room c - n \<and>
     abs_credits c' = spec_grant (abs_credits c) n \<and> unat (cr_granted c') = unat (cr_granted c) + n \<and>
     cr_max c' = cr_max c \<and> multicredit c' = multicredit c"

lemma grants_0: "credits_ok c \<Longrightarrow> grants c 0 c"
  by (simp add: grants_def spec_grant_def)

lemma grants_trans: "grants a m b \<Longrightarrow> grants b n c \<Longrightarrow> grants a (m + n) c"
  by (auto simp: grants_def spec_grant_def add.assoc)

lemma grants_seen: "grants c n c' \<Longrightarrow> seen c' = seen c"
  by (metis abs_credits_used grants_def seq_spec.select_convs(1) seq_spec.surjective seq_spec.update_convs(2) spec_grant_def)

lemma grant_grants:
  assumes "credits_ok c" "unat g \<le> room c"
  shows "grants c (unat g) (grant c g)"
proof -
  note s = grant_spec [OF assms]
  have "unat (seq_low (grant c g)) + unat (seq_range (grant c g)) = unat (seq_low c) + unat (seq_range c) + unat g"
    using s(2) by (simp add: abs_credits_def spec_grant_def)
  then have "unat (seq_range (grant c g)) = unat (seq_range c) + unat g" by (simp add: grant_def)
  then have "room (grant c g) = room c - unat g" by (simp add: room_def grant_def)
  then show ?thesis using s assms(2) by (simp add: grants_def) (simp add: grant_def)
qed

lemma set_operation_credit_grants:
  assumes "credits_ok c" "smb2_set_operation_credit c inhdr outhdr = Some (c', outhdr', term)"
  shows "\<exists>n. grants c n c' \<and> (\<not> term \<longrightarrow> outhdr' = SSVAL outhdr SMB2_HDR_CREDIT (of_nat n))"
proof (cases rule: set_operation_credit_spec [OF assms(1), of inhdr outhdr, case_names Terminated Granted])
  case Terminated
  then show ?thesis using assms grants_0 by auto
next
  case (Granted g)
  have "ucast g = (of_nat (unat g) :: u32)" by (simp add: unsigned_of_nat)
  then show ?thesis using Granted assms(2) grant_grants [OF assms(1) Granted(2)] by auto
qed

lemma set_operation_credit_works:
  assumes "credits_ok c"
  shows "\<exists>c' h t. smb2_set_operation_credit c inhdr outhdr = Some (c', h, t) \<and> length h = length outhdr"
  by (cases rule: set_operation_credit_spec [OF assms, of inhdr outhdr, case_names Terminated Granted]) auto

text \<open>A chain of replies: the headers are long enough and there is a request for every reply.\<close>

definition replies_ok :: "u8 list list \<Rightarrow> u8 list list \<Rightarrow> nat \<Rightarrow> bool" where
  "replies_ok invec outvec idx \<longleftrightarrow> length outvec mod 4 = idx mod 4 \<and> length outvec \<le> length invec \<and>
     (\<forall>k. idx + 4 * k < length outvec \<longrightarrow> 16 \<le> length (outvec ! (idx + 4 * k + 1)))"

lemma replies_ok_bound: "replies_ok invec outvec idx \<Longrightarrow> idx < length outvec \<Longrightarrow> idx + 4 \<le> length outvec"
proof -
  assume r: "replies_ok invec outvec idx" and l: "idx < length outvec"
  have "4 dvd length outvec - idx" using r l by (simp add: replies_ok_def mod_eq_dvd_iff_nat)
  then show ?thesis using l dvd_imp_le [of 4 "length outvec - idx"] by simp
qed

lemma replies_ok_next:
  assumes "replies_ok invec outvec idx" "length h = length (outvec ! (idx + 1))"
  shows "replies_ok invec (outvec[idx + 1 := h]) (idx + 4)"
proof -
  have "16 \<le> length (outvec ! (idx + 4 + 4 * k + 1))" if "idx + 4 + 4 * k < length outvec" for k
  proof -
    have e: "idx + 4 + 4 * k = idx + 4 * Suc k" by simp
    show ?thesis using assms(1) that unfolding replies_ok_def e by blast
  qed
  then show ?thesis using assms(1) by (simp add: replies_ok_def)
qed

lemma calculate_loop_end:
  "length outvec \<le> idx \<Longrightarrow> calculate_loop c invec outvec s idx = Some (c, outvec, False)"
  by (subst calculate_loop.simps) simp

lemma calculate_loop_works:
  assumes "credits_ok c" "replies_ok invec outvec idx"
  shows "\<exists>c' outvec' term n. calculate_loop c invec outvec sum0 idx = Some (c', outvec', term) \<and> grants c n c'"
  using assms
proof (induction c invec outvec sum0 idx rule: calculate_loop.induct)
  case (1 c invec outvec sum0 idx)
  show ?case
  proof (cases "idx < length outvec")
    case False
    then show ?thesis using grants_0 [OF "1.prems"(1)] by (subst calculate_loop.simps) auto
  next
    case True
    have b: "\<not> (idx + SMBD_SMB2_HDR_IOV_OFS \<ge> length outvec \<or> idx + SMBD_SMB2_HDR_IOV_OFS \<ge> length invec)"
      using replies_ok_bound [OF "1.prems"(2) True] "1.prems"(2) by (simp add: replies_ok_def SMBD_SMB2_HDR_IOV_OFS_def)
    obtain c1 h t where s: "smb2_set_operation_credit c (invec ! (idx + SMBD_SMB2_HDR_IOV_OFS))
        (outvec ! (idx + SMBD_SMB2_HDR_IOV_OFS)) = Some (c1, h, t)" "length h = length (outvec ! (idx + 1))"
      using set_operation_credit_works [OF "1.prems"(1), of "invec ! (idx + SMBD_SMB2_HDR_IOV_OFS)"
          "outvec ! (idx + SMBD_SMB2_HDR_IOV_OFS)"] unfolding SMBD_SMB2_HDR_IOV_OFS_def by blast
    obtain m where m: "grants c m c1" using set_operation_credit_grants [OF "1.prems"(1) s(1)] by blast
    have c1: "credits_ok c1" using m by (simp add: grants_def)
    let ?total = "sum0 + ucast (SVAL h SMB2_HDR_CREDIT)"
    let ?shown = "if idx + SMBD_SMB2_NUM_IOV_PER_REQ < length outvec then 0 else ?total"
    let ?out = "outvec[idx + SMBD_SMB2_HDR_IOV_OFS := SSVAL h SMB2_HDR_CREDIT (ucast ?shown)]"
    have r: "replies_ok invec ?out (idx + SMBD_SMB2_NUM_IOV_PER_REQ)"
      using replies_ok_next [OF "1.prems"(2), of "SSVAL h SMB2_HDR_CREDIT (ucast ?shown)"] s(2)
      by (simp add: SMBD_SMB2_HDR_IOV_OFS_def SMBD_SMB2_NUM_IOV_PER_REQ_def)
    obtain c' out' t' n where l: "calculate_loop c1 invec ?out ?total (idx + SMBD_SMB2_NUM_IOV_PER_REQ) = Some (c', out', t')"
      "grants c1 n c'"
      using "1.IH" [OF True refl b s(1) refl refl refl refl c1 r] by blast
    have "calculate_loop c invec outvec sum0 idx = Some (c', out', t \<or> t')"
      using True b s(1) l(1) by (subst calculate_loop.simps) (simp add: Let_def)
    then show ?thesis using grants_trans [OF m l(2)] by blast
  qed
qed

text \<open>The sums in the headers of the chain. The last header is the third vector from the end.\<close>

definition credit_of :: "u8 list \<Rightarrow> u32" where
  "credit_of hdr = SVAL hdr SMB2_HDR_CREDIT"

lemma credit_of_SSVAL [simp]:
  "16 \<le> length hdr \<Longrightarrow> credit_of (SSVAL hdr SMB2_HDR_CREDIT v) = v AND 0xFFFF"
  by (simp add: credit_of_def SMB2_HDR_CREDIT_def byteorder_simps)

lemma and_u16: "(ucast (w :: u16) :: u32) AND 0xFFFF = ucast w"
  by (rule bit_word_eqI) (auto simp: low_byte bit_simps dest: bit_imp_le_length)

lemma of_nat_and_u16: "n < 2 ^ 16 \<Longrightarrow> (of_nat n :: u32) AND 0xFFFF = of_nat n"
  by (simp add: low_byte flip: take_bit_eq_mask) (simp add: take_bit_of_nat take_bit_nat_eq_self)

lemma calculate_loop_sums:
  assumes "credits_ok c" "replies_ok invec outvec idx" "calculate_loop c invec outvec sum0 idx = Some (c', outvec', False)"
    and "unat sum0 + room c < 2 ^ 16"
  shows "length outvec' = length outvec \<and> (\<forall>p < idx. outvec' ! p = outvec ! p) \<and>
    (\<exists>n. grants c n c' \<and> (idx < length outvec \<longrightarrow> credit_of (outvec' ! (length outvec - 3)) = of_nat (unat sum0 + n))) \<and>
    (\<forall>k. idx + 4 * k + 4 < length outvec \<longrightarrow> credit_of (outvec' ! (idx + 4 * k + 1)) = 0)"
  using assms
proof (induction c invec outvec sum0 idx rule: calculate_loop.induct)
  case (1 c invec outvec sum0 idx)
  show ?case
  proof (cases "idx < length outvec")
    case False
    then show ?thesis
      using grants_0 [OF "1.prems"(1)] "1.prems"(3) by (auto simp: calculate_loop.simps [of c invec outvec sum0 idx])
  next
    case True
    let ?h = "idx + SMBD_SMB2_HDR_IOV_OFS" and ?next = "idx + SMBD_SMB2_NUM_IOV_PER_REQ"
    have i: "?h = idx + 1" "?next = idx + 4" by (simp_all add: SMBD_SMB2_HDR_IOV_OFS_def SMBD_SMB2_NUM_IOV_PER_REQ_def)
    note l4 = replies_ok_bound [OF "1.prems"(2) True]
    have b: "\<not> (?h \<ge> length outvec \<or> ?h \<ge> length invec)"
      using l4 "1.prems"(2) by (simp add: replies_ok_def i)
    have l16: "16 \<le> length (outvec ! (idx + 1))"
      using "1.prems"(2) True unfolding replies_ok_def by (metis add.right_neutral mult_0_right)
    obtain c1 hd t where s: "smb2_set_operation_credit c (invec ! ?h) (outvec ! ?h) = Some (c1, hd, t)" "length hd = length (outvec ! ?h)"
      using set_operation_credit_works [OF "1.prems"(1)] by blast
    let ?sum = "sum0 + ucast (SVAL hd SMB2_HDR_CREDIT)"
    let ?shown = "if ?next < length outvec then 0 else ?sum"
    let ?out = "outvec[?h := SSVAL hd SMB2_HDR_CREDIT (ucast ?shown)]"
    obtain t' where l: "calculate_loop c1 invec ?out ?sum ?next = Some (c', outvec', t')" and t: "\<not> t" "\<not> t'"
      using "1.prems"(3) True b s(1) by (auto simp: calculate_loop.simps [of c invec outvec sum0 idx] Let_def)
    obtain m where m: "grants c m c1" "hd = SSVAL (outvec ! ?h) SMB2_HDR_CREDIT (of_nat m)"
      using set_operation_credit_grants [OF "1.prems"(1) s(1)] t(1) by blast
    have m16: "unat sum0 + m < 2 ^ 16" "m < 2 ^ 16" using m(1) "1.prems"(4) by (auto simp: grants_def)
    have "SVAL hd SMB2_HDR_CREDIT = of_nat m"
      using credit_of_SSVAL [OF l16] m(2) of_nat_and_u16 [OF m16(2)] by (simp add: credit_of_def i)
    moreover have "(ucast (of_nat m :: u32) :: u16) = of_nat m"
      using m16(2) by (simp add: word_unat_eq_iff unsigned_ucast_eq unsigned_of_nat take_bit_nat_eq_self)
    ultimately have e: "?sum = sum0 + of_nat m" by simp
    have "unat (of_nat m :: u16) = m" using m16(2) by (simp add: unsigned_of_nat take_bit_nat_eq_self)
    then have sum: "unat ?sum = unat sum0 + m" unfolding e using unat_add_lem [of sum0 "of_nat m"] m16(1) by simp
    have c1: "credits_ok c1" using m(1) by (simp add: grants_def)
    have r: "replies_ok invec ?out ?next"
      using replies_ok_next [OF "1.prems"(2), of "SSVAL hd SMB2_HDR_CREDIT (ucast ?shown)"] s(2) by (simp add: i)
    have "unat ?sum + room c1 < 2 ^ 16" using m(1) "1.prems"(4) sum by (simp add: grants_def)
    then obtain n where v: "length outvec' = length outvec" "\<And>p. p < ?next \<Longrightarrow> outvec' ! p = ?out ! p" "grants c1 n c'"
      "?next < length outvec \<Longrightarrow> credit_of (outvec' ! (length outvec - 3)) = of_nat (unat ?sum + n)"
      "\<And>k. ?next + 4 * k + 4 < length outvec \<Longrightarrow> credit_of (outvec' ! (?next + 4 * k + 1)) = 0"
      using "1.IH" [OF True refl b s(1) refl refl refl refl c1 r l [unfolded eq_False [THEN iffD2, OF t(2)]]] by auto
    have h: "outvec' ! (idx + 1) = SSVAL hd SMB2_HDR_CREDIT (ucast ?shown)" using v(2) [of "idx + 1"] b by (simp add: i)
    have h16: "16 \<le> length hd" using s(2) l16 by (simp add: i)
    have last: "credit_of (outvec' ! (length outvec - 3)) = of_nat (unat sum0 + (m + n))"
    proof (cases "?next < length outvec")
      case True
      then show ?thesis using v(4) sum by (simp add: add.assoc)
    next
      case False
      then have "length outvec = idx + 4" using l4 by (simp add: i)
      moreover have "c' = c1" using l calculate_loop_end [of ?out ?next c1 invec ?sum] False by simp
      then have "n = 0" using v(3) by (simp add: grants_def)
      moreover have "credit_of (outvec' ! (idx + 1)) = ucast ?sum" using False h h16 by (simp add: and_u16)
      moreover have "(ucast ?sum :: u32) = of_nat (unat ?sum)" by (simp add: unsigned_of_nat)
      ultimately show ?thesis using sum by simp
    qed
    have "credit_of (outvec' ! (idx + 4 * k + 1)) = 0" if "idx + 4 * k + 4 < length outvec" for k
    proof (cases k)
      case 0
      then show ?thesis using h h16 that by (simp add: i)
    next
      case (Suc j)
      then show ?thesis using v(5) [of j] that by (simp add: i add.assoc)
    qed
    moreover have "outvec' ! p = outvec ! p" if "p < idx" for p using v(2) [of p] that by (simp add: i)
    ultimately show ?thesis using v(1) last grants_trans [OF m(1) v(3)] by blast
  qed
qed

lemma calculate_loop_grants:
  assumes "credits_ok c" "calculate_loop c invec outvec sum0 idx = Some (c', outvec', t)"
  shows "\<exists>n. grants c n c'"
  using assms
proof (induction c invec outvec sum0 idx arbitrary: t rule: calculate_loop.induct)
  case (1 c invec outvec sum0 idx)
  let ?h = "idx + SMBD_SMB2_HDR_IOV_OFS"
  show ?case
  proof (cases "idx < length outvec")
    case False
    then show ?thesis using "1.prems" grants_0 calculate_loop_end [of outvec idx c invec sum0] by auto
  next
    case True
    then have b: "\<not> (?h \<ge> length outvec \<or> ?h \<ge> length invec)"
      using "1.prems"(2) by (auto simp: calculate_loop.simps [of c invec outvec sum0 idx] Let_def)
    obtain c1 hd t1 where s: "smb2_set_operation_credit c (invec ! ?h) (outvec ! ?h) = Some (c1, hd, t1)"
      using set_operation_credit_works [OF "1.prems"(1)] by blast
    obtain m where m: "grants c m c1" using set_operation_credit_grants [OF "1.prems"(1) s] by blast
    then have c1: "credits_ok c1" by (simp add: grants_def)
    let ?sum = "sum0 + ucast (SVAL hd SMB2_HDR_CREDIT)"
    let ?shown = "if idx + SMBD_SMB2_NUM_IOV_PER_REQ < length outvec then 0 else ?sum"
    obtain t' where "calculate_loop c1 invec (outvec[?h := SSVAL hd SMB2_HDR_CREDIT (ucast ?shown)]) ?sum
        (idx + SMBD_SMB2_NUM_IOV_PER_REQ) = Some (c', outvec', t')"
      using "1.prems"(2) True b s by (auto simp: calculate_loop.simps [of c invec outvec sum0 idx] Let_def)
    then obtain n where "grants c1 n c'" using "1.IH" [OF True refl b s refl refl refl refl c1] by blast
    then show ?thesis using grants_trans [OF m] by blast
  qed
qed

section \<open>Connections\<close>

text \<open>What happens on a connection that is not terminated, with the numbers that requests take. A
  failed request and a charge above the maximum terminate the connection.\<close>

inductive smb2_step :: "smb2_credits \<Rightarrow> nat list \<Rightarrow> smb2_credits \<Rightarrow> bool" where
  Request: "smbd_smb2_request_validate c vec = Some (NT_STATUS_OK, c') \<Longrightarrow> smb2_step c (chain_ids c vec 1) c'"
| Replies: "smb2_calculate_credits c invec outvec = Some (c', outvec', False) \<Longrightarrow> smb2_step c [] c'"
| Interim: "smb2_set_operation_credit c inhdr outhdr = Some (c', outhdr', False) \<Longrightarrow> smb2_step c [] c'"
| Negotiated: "smb2_step c [] (c\<lparr>multicredit := True\<rparr>)"

inductive smb2_run :: "smb2_credits \<Rightarrow> nat list \<Rightarrow> smb2_credits \<Rightarrow> bool" where
  Start: "smb2_run c [] c"
| Step: "smb2_run c ids c' \<Longrightarrow> smb2_step c' ids' c'' \<Longrightarrow> smb2_run c (ids @ ids') c''"

lemma multicredit_ok [simp]: "credits_ok (c\<lparr>multicredit := b\<rparr>) = credits_ok c" "seen (c\<lparr>multicredit := b\<rparr>) = seen c"
  by (simp_all add: credits_ok_def window_ok_def lowest_free_def outstanding_def marks_def seen_def)

lemma smb2_step_ok:
  assumes "smb2_step c ids c'" "credits_ok c"
  shows "credits_ok c' \<and> distinct ids \<and> set ids \<inter> seen c = {} \<and> seen c' = seen c \<union> set ids \<and> cr_max c' = cr_max c"
  using assms(1)
proof cases
  case (Request vec)
  then have "validate_vectors c vec 1 = Some (NT_STATUS_OK, c')"
    by (cases "length vec < 1 + SMBD_SMB2_NUM_IOV_PER_REQ") (simp_all add: smbd_smb2_request_validate_def)
  note u = validate_vectors_uses [OF assms(2) this]
  then show ?thesis using uses_seen [of c _ c'] unfolding Request(1) uses_def by metis
next
  case (Replies invec outvec outvec')
  then obtain n where "grants c n c'"
    using calculate_loop_grants [OF assms(2)] unfolding smb2_calculate_credits_def by blast
  then show ?thesis using Replies(1) grants_seen [of c n c'] by (simp add: grants_def)
next
  case (Interim inhdr outhdr outhdr')
  then obtain n where "grants c n c'" using set_operation_credit_grants [OF assms(2)] by blast
  then show ?thesis using Interim(1) grants_seen [of c n c'] by (simp add: grants_def)
next
  case Negotiated
  then show ?thesis using assms(2) by simp
qed

lemma smb2_run_ok:
  assumes "smb2_run c ids c'" "credits_ok c"
  shows "credits_ok c' \<and> distinct ids \<and> set ids \<inter> seen c = {} \<and> seen c' = seen c \<union> set ids \<and> cr_max c' = cr_max c"
  using assms
proof (induction rule: smb2_run.induct)
  case (Step c ids c' ids' c'')
  then show ?case using smb2_step_ok [OF Step.hyps(2)] by auto
qed simp

lemma initialize_ok:
  assumes "smbd_initialize_smb2 mem m low = Some c" "(of_int m :: u16) \<noteq> 0" "unat low < 2 ^ 64 - 2"
  shows "credits_ok c" "seen c = {..<unat low}" "cr_max c = of_int m"
proof -
  have e: "c = \<lparr>seq_low = low, seq_range = 1, cr_granted = 1, cr_max = of_int m,
      cr_bitmap = \<lparr>bm_n = unat (of_int m :: u16), bm_b = replicate ((unat (of_int m :: u16) + 31) div 32) 0\<rparr>, multicredit = False\<rparr>"
    using assms(1) by (simp add: smbd_initialize_smb2_def bitmap_talloc_def Let_def split: if_splits)
  have M: "1 \<le> unat (of_int m :: u16)" using assms(2) by (simp add: Suc_le_eq unat_gt_0)
  have m: "marks c = {}" using word_index by (auto simp: marks_def e query_iff)
  have f: "seq_low c = low" "seq_range c = 1" "cr_granted c = 1" "cr_max c = of_int m" "bitmap_ok (cr_bitmap c)"
    "bm_n (cr_bitmap c) = unat (of_int m :: u16)"
    by (simp_all add: e bitmap_ok_def)
  show "cr_max c = of_int m" by (rule f(4))
  show "seen c = {..<unat low}" by (simp add: seen_def m f)
  have "window_ok c" unfolding window_ok_def f m using M assms(2,3) f(5) by simp
  then show "credits_ok c" by (simp add: credits_ok_def lowest_free_def outstanding_def m f)
qed

lemma seen_below: "seen c \<subseteq> {..<limit (abs_credits c)}"
  by (auto simp: seen_def abs_credits_def)

lemma card_seen:
  assumes "window_ok c"
  shows "card (seen c) = unat (seq_low c) + card (marks c)"
proof -
  let ?L = "unat (seq_low c)" and ?R = "unat (seq_range c)" and ?M = "unat (cr_max c)"
  let ?W = "{i. ?L \<le> i \<and> i < ?L + ?R \<and> i mod ?M \<in> marks c}"
  have R: "?R \<le> ?M" and w: "marks c \<subseteq> (\<lambda>i. i mod ?M) ` {?L ..< ?L + ?R}"
    using assms by (simp_all add: window_ok_def)
  have "bij_betw (\<lambda>i. i mod ?M) ?W (marks c)"
    unfolding bij_betw_def inj_on_def using mod_window [of ?L _ ?M] R w by fastforce
  then have "card ?W = card (marks c)" by (rule bij_betw_same_card)
  moreover have "finite ?W" by (rule finite_subset [of _ "{..<?L + ?R}"]) auto
  ultimately show ?thesis unfolding seen_def by (subst card_Un_disjoint) auto
qed

lemma no_credits_no_window:
  assumes "credits_ok c" "cr_granted c = 0"
  shows "seq_range c = 0"
proof (rule ccontr)
  let ?L = "unat (seq_low c)" and ?R = "unat (seq_range c)" and ?M = "unat (cr_max c)"
  let ?W = "(\<lambda>i. i mod ?M) ` {?L ..< ?L + ?R}"
  assume "seq_range c \<noteq> 0"
  then have R: "0 < ?R" by (simp add: unat_gt_0)
  have w: "marks c \<subseteq> ?W" "?L mod ?M \<notin> marks c" "card (marks c) \<ge> ?R"
    using assms by (auto simp: credits_ok_def window_ok_def lowest_free_def outstanding_def)
  have "card ?W \<le> ?R" using card_image_le [of "{?L ..< ?L + ?R}" "\<lambda>i. i mod ?M"] by simp
  then have "marks c = ?W" using w(1,3) by (intro card_subset_eq) (auto dest: card_mono [rotated])
  moreover have "?L mod ?M \<in> ?W" using R by auto
  ultimately show False using w(2) by simp
qed

text \<open>A connection with at most eight credits, and the header of its first request.\<close>

definition sample_credits :: smb2_credits where
  "sample_credits = \<lparr>seq_low = 0, seq_range = 1, cr_granted = 1, cr_max = 8, cr_bitmap = \<lparr>bm_n = 8, bm_b = [0]\<rparr>,
     multicredit = False\<rparr>"

definition sample_header :: "u8 list" where
  "sample_header = [0xFE, 0x53, 0x4D, 0x42] @ replicate 10 0 @ [31, 0] @ replicate 48 0"

lemma sample_init: "smbd_initialize_smb2 (\<lambda>_. Some []) 8 0 = Some sample_credits"
  by (simp add: smbd_initialize_smb2_def bitmap_talloc_def sample_credits_def Let_def)

lemma sample_credits_ok: "credits_ok sample_credits"
  by (rule initialize_ok(1) [OF sample_init]) simp_all

lemma sample_header_fields:
  "length sample_header = 64" "IVAL sample_header 0 = SMB2_MAGIC" "SVAL sample_header SMB2_HDR_OPCODE = 0"
  "SVAL sample_header SMB2_HDR_CREDIT = 31" "IVAL sample_header SMB2_HDR_FLAGS = 0" "BVAL sample_header SMB2_HDR_MESSAGE_ID = 0"
  by (simp_all add: sample_header_def smb2_constants CVAL_def SVAL_def IVAL_def BVAL_def nth_append)

lemma sample_validate:
  "smb2_validate_sequence_number sample_credits 0 =
     Some (True, \<lparr>seq_low = 1, seq_range = 0, cr_granted = 1, cr_max = 8, cr_bitmap = \<lparr>bm_n = 8, bm_b = [0]\<rparr>, multicredit = False\<rparr>)"
  by (simp add: smb2_validate_sequence_number_def sample_credits_def bitmap_query_def bitmap_set_def bitmap_clear_def
      flag_def Let_def move_window.simps)

definition sample_used :: "u16 \<Rightarrow> smb2_credits" where
  "sample_used g = \<lparr>seq_low = 1, seq_range = g, cr_granted = g, cr_max = 8, cr_bitmap = \<lparr>bm_n = 8, bm_b = [0]\<rparr>, multicredit = False\<rparr>"

lemma sample_message: "smb2_validate_message_id sample_credits sample_header = Some (True, sample_used 0)"
  using sample_validate
  by (simp add: smb2_validate_message_id_def credit_charge_of_def sample_header_fields SMB2_OP_CANCEL_def Let_def)
    (simp add: sample_credits_def sample_used_def)

definition sample_vector :: "u8 list list" where
  "sample_vector = [[], [], sample_header, [36, 0], []]"

lemma sample_request:
  "smbd_smb2_request_validate sample_credits sample_vector = Some (NT_STATUS_OK, sample_used 0)"
  "chain_ids sample_credits sample_vector 1 = [0]"
proof -
  note iov = SMBD_SMB2_NUM_IOV_PER_REQ_def SMBD_SMB2_HDR_IOV_OFS_def SMBD_SMB2_BODY_IOV_OFS_def
  have i: "1 + SMBD_SMB2_HDR_IOV_OFS = 2" "1 + SMBD_SMB2_BODY_IOV_OFS = 3" "1 + SMBD_SMB2_NUM_IOV_PER_REQ = 5"
    by (simp_all add: iov)
  have v: "length sample_vector = 5" "sample_vector ! 2 = sample_header" "length (sample_vector ! 3) = 2"
    by (simp_all add: sample_vector_def)
  have "validate_vectors (sample_used 0) sample_vector 5 = Some (NT_STATUS_OK, sample_used 0)"
    by (subst validate_vectors.simps) (simp add: v)
  then have "validate_vectors sample_credits sample_vector 1 = Some (NT_STATUS_OK, sample_used 0)"
    unfolding validate_vectors.simps [of sample_credits sample_vector 1] i v
    by (simp add: v sample_message Let_def sample_header_fields SMB2_HDR_BODY_def SMB2_HDR_PROTOCOL_ID_def)
  then show "smbd_smb2_request_validate sample_credits sample_vector = Some (NT_STATUS_OK, sample_used 0)"
    by (simp add: smbd_smb2_request_validate_def v iov)
  have "accepted_ids sample_credits sample_header = [0]"
    by (simp add: accepted_ids_def sample_header_fields credit_charge_of_def SMB2_OP_CANCEL_def) (simp add: sample_credits_def)
  moreover have "chain_ids sample_credits sample_vector 5 = []" by (subst chain_ids.simps) (simp add: v)
  ultimately show "chain_ids sample_credits sample_vector 1 = [0]"
    unfolding chain_ids.simps [of sample_credits sample_vector 1] i v by simp
qed

lemma sample_run: "smb2_run sample_credits [0] (sample_used 0)"
  using smb2_run.Step [OF smb2_run.Start smb2_step.Request [OF sample_request(1)]] sample_request(2) by simp

lemma sample_reply:
  "smb2_set_operation_credit (sample_used 0) sample_header (replicate 64 0) =
     Some (sample_used 1, SSVAL (replicate 64 0) SMB2_HDR_CREDIT 1, False)"
  by code_simp

definition sample_replies :: "u8 list list" where
  "sample_replies = [[], [], replicate 64 0, [], []]"

lemma sample_replies_ok: "replies_ok sample_vector sample_replies 1"
proof -
  have "16 \<le> length (sample_replies ! (1 + 4 * k + 1))" if "1 + 4 * k < length sample_replies" for k
    using that by (cases k) (simp_all add: sample_replies_def)
  then show ?thesis by (simp add: replies_ok_def sample_vector_def sample_replies_def)
qed

lemma sample_calculate:
  "\<exists>outvec'. smb2_calculate_credits (sample_used 0) sample_vector sample_replies = Some (sample_used 1, outvec', False)"
proof -
  have "smb2_calculate_credits (sample_used 0) sample_vector sample_replies =
      Some (sample_used 1, [[], [], SSVAL (replicate 64 0) SMB2_HDR_CREDIT 1, [], []], False)"
    by code_simp
  then show ?thesis by blast
qed

section \<open>Properties\<close>

text \<open>C5: the sliding window with its bitmap implements a set of used numbers below a limit. A
  number is accepted exactly when it is below the limit and was not used, and then it is used; a
  reply moves the limit, by no more than there is room for, and forgets nothing.\<close>

theorem sequence_window_refines:
  assumes "credits_ok c"
  shows "(\<exists>ok c'. smb2_validate_sequence_number c w = Some (ok, c') \<and>
      spec_accept (abs_credits c) (unat w) = (ok, abs_credits c')) \<and>
    (\<exists>n c' outhdr' term. smb2_set_operation_credit c inhdr outhdr = Some (c', outhdr', term) \<and>
      abs_credits c' = spec_grant (abs_credits c) n \<and> n \<le> room c)"
proof
  have w: "window_ok c" "lowest_free c" using assms by (simp_all add: credits_ok_def)
  show "\<exists>ok c'. smb2_validate_sequence_number c w = Some (ok, c') \<and>
      spec_accept (abs_credits c) (unat w) = (ok, abs_credits c')"
    by (cases rule: validate_sequence_number_spec [OF w, of w, case_names Refused Accepted])
      (auto simp: spec_accept_def)
  show "\<exists>n c' outhdr' term. smb2_set_operation_credit c inhdr outhdr = Some (c', outhdr', term) \<and>
      abs_credits c' = spec_grant (abs_credits c) n \<and> n \<le> room c"
    using set_operation_credit_works [OF assms, of inhdr outhdr] set_operation_credit_grants [OF assms]
    by (fastforce simp: grants_def)
qed

theorem sequence_window_refines_witness:
  "credits_ok sample_credits \<and> fst (spec_accept (abs_credits sample_credits) 0)"
  using sequence_window_refines [OF sample_credits_ok, of 0, THEN conjunct1] sample_credits_ok sample_validate by auto

text \<open>C6: no message id is accepted twice. Whatever requests, replies and interim replies a
  connection sees, the ids that its requests took are all different, none is below the first
  expected id, and the largest id, which the server uses for break notifications, is not among
  them.\<close>

theorem message_ids_used_once:
  assumes "smbd_initialize_smb2 mem m low = Some c0" "(of_int m :: u16) \<noteq> 0" "unat low < 2 ^ 64 - 2"
    and "smb2_run c0 ids c"
  shows "distinct ids \<and> set ids \<subseteq> {unat low ..< 2 ^ 64 - 1}"
proof -
  note i = initialize_ok [OF assms(1-3)]
  note r = smb2_run_ok [OF assms(4) i(1)]
  have "limit (abs_credits c) < 2 ^ 64 - 1" using credits_ok_facts(5) r by (simp add: abs_credits_def)
  moreover have "i < limit (abs_credits c)" if "i \<in> set ids" for i using r seen_below [of c] that by blast
  moreover have "unat low \<le> i" if "i \<in> set ids" for i using r i(2) that by (metis IntI empty_iff lessThan_iff not_le)
  ultimately have "set ids \<subseteq> {unat low ..< 2 ^ 64 - 1}" by fastforce
  then show ?thesis using r by simp
qed

theorem message_ids_used_once_witness:
  "smb2_run sample_credits [0] (sample_used 0) \<and> distinct [0 :: nat] \<and> set [0] \<subseteq> {0 :: nat ..< 2 ^ 64 - 1}"
  using message_ids_used_once [OF sample_init, of "[0]" "sample_used 0"] sample_run by simp

text \<open>C7: the counters stay in their bounds. In every state of a connection the credits of the
  client are the numbers of the window that were not used; they fit into the window, the window
  into the maximum, and the window ends below the largest number. None of the 16 and 64 bit
  subtractions of the server wraps.\<close>

theorem credits_within_bounds:
  assumes "smbd_initialize_smb2 mem m low = Some c0" "(of_int m :: u16) \<noteq> 0" "unat low < 2 ^ 64 - 2"
    and "smb2_run c0 ids c"
  shows "unat (cr_granted c) + card (seen c) = unat (seq_low c) + unat (seq_range c) \<and>
    cr_granted c \<le> seq_range c \<and> seq_range c \<le> cr_max c \<and> unat (seq_low c) + unat (seq_range c) < 2 ^ 64 - 1"
proof -
  have c: "credits_ok c" using smb2_run_ok [OF assms(4) initialize_ok(1) [OF assms(1-3)]] by simp
  then have "window_ok c" "unat (cr_granted c) = outstanding c" by (simp_all add: credits_ok_def)
  then have "unat (cr_granted c) + card (seen c) = unat (seq_low c) + unat (seq_range c)"
    using card_seen [of c] window_marks_card [of c] by (simp add: outstanding_def)
  then show ?thesis using credits_ok_facts [OF c] by (simp add: word_le_nat_alt)
qed

theorem credits_within_bounds_witness:
  "smb2_run sample_credits [0] (sample_used 0) \<and> card (seen (sample_used 0)) = 1"
  using credits_within_bounds [OF sample_init, of "[0]" "sample_used 0"] sample_run by (simp add: sample_used_def)

text \<open>C21: on every connection the validation of a well formed chain of requests and the crediting of
  its replies return: the loop that moves the window ends, and the assertion on the granted
  credits holds.\<close>

theorem credit_processing_returns:
  assumes "smbd_initialize_smb2 mem m low = Some c0" "(of_int m :: u16) \<noteq> 0" "unat low < 2 ^ 64 - 2"
    and "smb2_run c0 ids c" "length vec mod 4 = 1" "replies_ok invec outvec 1"
  shows "(\<exists>status c'. smbd_smb2_request_validate c vec = Some (status, c')) \<and>
    (\<exists>c' outvec' term. smb2_calculate_credits c invec outvec = Some (c', outvec', term))"
proof -
  have c: "credits_ok c" using smb2_run_ok [OF assms(4) initialize_ok(1) [OF assms(1-3)]] by simp
  show ?thesis
    using validate_vectors_returns [OF c, of vec 1] assms(5) calculate_loop_works [OF c assms(6)]
    by (fastforce simp: smbd_smb2_request_validate_def smb2_calculate_credits_def)
qed

theorem credit_processing_returns_witness:
  "\<exists>status c' c'' outvec' term. smbd_smb2_request_validate (sample_used 0) sample_vector = Some (status, c') \<and>
    smb2_calculate_credits (sample_used 0) sample_vector sample_replies = Some (c'', outvec', term)"
proof -
  have "(of_int 8 :: u16) \<noteq> 0" "unat (0 :: u64) < 2 ^ 64 - 2" "length sample_vector mod 4 = 1"
    by (simp_all add: sample_vector_def)
  from credit_processing_returns [OF sample_init this(1,2) sample_run this(3) sample_replies_ok] show ?thesis by blast
qed

text \<open>C22: a client is never left without credits. After every reply that is not the final reply of
  an asynchronous request the client has at least one credit, as long as there are sequence numbers.\<close>

theorem client_never_starves:
  assumes "smbd_initialize_smb2 mem m low = Some c0" "(of_int m :: u16) \<noteq> 0" "unat low < 2 ^ 64 - 2"
    and "smb2_run c0 ids c" "unat (seq_low c) < 2 ^ 64 - 2"
    and "smb2_set_operation_credit c inhdr outhdr = Some (c', outhdr', False)"
    and "\<not> flag (IVAL outhdr SMB2_HDR_FLAGS) SMB2_HDR_FLAG_ASYNC"
  shows "0 < cr_granted c'"
proof -
  have c: "credits_ok c" using smb2_run_ok [OF assms(4) initialize_ok(1) [OF assms(1-3)]] by simp
  show ?thesis
  proof (cases rule: set_operation_credit_spec [OF c, of inhdr outhdr, case_names Terminated Granted])
    case Terminated
    then show ?thesis using assms(6) by simp
  next
    case (Granted g)
    have r: "unat (cr_granted c') = unat (cr_granted c) + unat g"
      using grant_spec(3) [OF c Granted(2)] Granted(3) assms(6) by simp
    have "1 \<le> room c" if "cr_granted c = 0"
      using no_credits_no_window [OF c that] assms(5) credits_ok_facts(2) [OF c] by (simp add: room_def)
    then have "0 < unat g" if "cr_granted c = 0"
      using Granted(4) [OF assms(7)] charge_pos [of c inhdr] that by (simp add: min_def split: if_splits)
    then show ?thesis using r by (cases "cr_granted c = 0") (simp_all add: word_less_nat_alt unat_gt_0)
  qed
qed

theorem client_never_starves_witness:
  "0 < cr_granted (sample_used 1)"
proof -
  have "(of_int 8 :: u16) \<noteq> 0" "unat (0 :: u64) < 2 ^ 64 - 2" "unat (seq_low (sample_used 0)) < 2 ^ 64 - 2"
    "\<not> flag (IVAL (replicate 64 0) SMB2_HDR_FLAGS) SMB2_HDR_FLAG_ASYNC"
    by (simp_all add: sample_used_def smb2_constants IVAL_def SVAL_def CVAL_def flag_def)
  from client_never_starves [OF sample_init this(1,2) sample_run this(3) sample_reply this(4)] show ?thesis .
qed

text \<open>C23: in a chain of replies the header of the last one carries exactly the credits that the whole
  chain granted, and the others carry none.\<close>

theorem chain_credits_in_last_reply:
  assumes "credits_ok c" "replies_ok invec outvec 1" "1 < length outvec"
    and "smb2_calculate_credits c invec outvec = Some (c', outvec', False)"
  shows "credit_of (outvec' ! (length outvec - 3)) = of_nat (unat (cr_granted c') - unat (cr_granted c)) \<and>
    cr_granted c \<le> cr_granted c' \<and> (\<forall>k. 4 * k + 5 < length outvec \<longrightarrow> credit_of (outvec' ! (4 * k + 2)) = 0)"
proof -
  have "room c < 2 ^ 16" using unsigned_less [where 'a = nat, of "cr_max c"] by (simp add: room_def)
  then have "unat (0 :: u16) + room c < 2 ^ 16" by simp
  note s = calculate_loop_sums [OF assms(1,2) assms(4) [unfolded smb2_calculate_credits_def] this]
  obtain n where n: "grants c n c'" "credit_of (outvec' ! (length outvec - 3)) = of_nat n"
    using s assms(3) by auto
  have "credit_of (outvec' ! (4 * k + 2)) = 0" if "4 * k + 5 < length outvec" for k
  proof -
    have "1 + 4 * k + 4 < length outvec" "1 + 4 * k + 1 = 4 * k + 2" using that by simp_all
    then show ?thesis using s by metis
  qed
  then show ?thesis using n by (simp add: grants_def word_le_nat_alt)
qed

theorem chain_credits_in_last_reply_witness:
  "\<exists>outvec'. smb2_calculate_credits (sample_used 0) sample_vector sample_replies = Some (sample_used 1, outvec', False) \<and>
    credit_of (outvec' ! 2) = 1"
proof -
  obtain outvec' where c: "smb2_calculate_credits (sample_used 0) sample_vector sample_replies = Some (sample_used 1, outvec', False)"
    using sample_calculate by blast
  have "credits_ok (sample_used 0)" using smb2_run_ok [OF sample_run sample_credits_ok] by simp
  from chain_credits_in_last_reply [OF this sample_replies_ok _ c] have "credit_of (outvec' ! 2) = 1"
    by (simp add: sample_replies_def sample_used_def numeral_2_eq_2)
  then show ?thesis using c by blast
qed

text \<open>C39: a request must pay one credit for every 64 kilobytes: for sizes up to 0xFFFF0000 bytes the
  charge is accepted exactly when it covers the size.\<close>

theorem creditcharge_covers_size:
  assumes "data_length \<le> 0xFFFF0000"
  shows "smbd_smb2_request_verify_creditcharge c inhdr data_length = NT_STATUS_OK \<longleftrightarrow>
    unat data_length \<le> 65536 * unat (credit_charge_of c inhdr)"
proof (cases "data_length = 0")
  case True
  have z: "(65536 :: u16) = 0" by code_simp
  have "\<not> w < (65536 :: u16)" for w by (subst z) simp
  then show ?thesis unfolding True by (simp add: smbd_smb2_request_verify_creditcharge_def Let_def)
next
  case False
  then have n: "1 \<le> unat data_length" by (simp add: Suc_le_eq unat_gt_0)
  have l: "unat data_length \<le> 0xFFFF0000" using assms by (simp add: word_le_nat_alt)
  have "unat (data_length - 1) = unat data_length - 1" using n by (simp add: unat_sub word_le_nat_alt)
  then have d: "unat ((data_length - 1) div 65536) = (unat data_length - 1) div 65536" by (simp add: unat_div)
  have b: "(unat data_length - 1) div 65536 < 65535" using l by (simp add: div_less_iff_less_mult)
  then have "unat ((data_length - 1) div 65536 + 1) = (unat data_length - 1) div 65536 + 1"
    using d unat_add_lem [of "(data_length - 1) div 65536" 1] by simp
  then have "unat (ucast ((data_length - 1) div 65536 + 1) :: u16) = (unat data_length - 1) div 65536 + 1"
    using b by (simp add: unsigned_ucast_eq take_bit_nat_eq_self)
  then have "smbd_smb2_request_verify_creditcharge c inhdr data_length = NT_STATUS_OK \<longleftrightarrow>
      (unat data_length - 1) div 65536 + 1 \<le> unat (credit_charge_of c inhdr)"
    by (simp add: smbd_smb2_request_verify_creditcharge_def Let_def word_less_nat_alt not_less)
  also have "\<dots> \<longleftrightarrow> unat data_length \<le> 65536 * unat (credit_charge_of c inhdr)"
    using n less_eq_div_iff_mult_less_eq div_less_iff_less_mult [of 65536 "unat data_length - 1" "unat (credit_charge_of c inhdr)"]
    by auto
  finally show ?thesis .
qed

theorem creditcharge_covers_size_witness:
  "smbd_smb2_request_verify_creditcharge sample_credits sample_header 65536 = NT_STATUS_OK"
  using creditcharge_covers_size [of 65536 sample_credits sample_header] charge_pos [of sample_credits sample_header] by simp

text \<open>Above that size the needed charge does not fit into its 16 bits and one credit is enough; and
  a configured maximum that is a multiple of 65536 is stored as 0, so that the first request
  divides by zero.\<close>

lemma creditcharge_truncated:
  "smbd_smb2_request_verify_creditcharge sample_credits sample_header 0xFFFFFFFF = NT_STATUS_OK"
  by code_simp

lemma max_credits_truncated:
  "(case smbd_initialize_smb2 (\<lambda>_. Some []) 65536 0 of
      Some c \<Rightarrow> smb2_validate_message_id c sample_header = None | None \<Rightarrow> False)"
proof -
  obtain c where c: "smbd_initialize_smb2 (\<lambda>_. Some []) 65536 0 = Some c"
    by (simp add: smbd_initialize_smb2_def bitmap_talloc_def Let_def)
  then have "cr_max c = 0" "seq_low c = 0" "seq_range c = 1" "cr_granted c = 1" "\<not> multicredit c"
    by (auto simp: smbd_initialize_smb2_def bitmap_talloc_def Let_def)
  then show ?thesis
    using c by (simp add: smb2_validate_message_id_def credit_charge_of_def sample_header_fields SMB2_OP_CANCEL_def
        smb2_validate_sequence_number_def Let_def)
qed

end
