(* ===== verification/Spec2Isabelle.thy ===== *)
theory Spec2Isabelle
  imports Inheritance Lock_Count Share_Mode Smb2_Credits
begin

text \<open>
  A verification of parts of Samba, the SMB file server: who may access an object, which locks and
  share modes on a file exclude each other, and which message ids an SMB2 client may use.

  \<^bold>\<open>The program.\<close> A client's request arrives at one of many \<open>smbd\<close> processes. For SMB2 the server
  first takes the message id of the request out of a window of granted ids and later grants new ones
  in the reply (\<open>source3/smbd/smb2_server.c\<close>). Opening a file compares the caller's security token
  with the file's security descriptor (\<open>libcli/security\<close>); a new file gets a descriptor made from that
  of its directory. The opens of a file are recorded in its share mode record
  (\<open>source3/locking/locking.c\<close>), which all processes share and lock while they work on it; opens
  that do not share the file with each other are refused. Reading, writing and locking ranges of bytes
  goes through the lock database (\<open>source3/locking/brlock.c\<close>). A process is named by a server id
  (\<open>lib/util/server_id.c\<close>), so that entries of dead processes can be told from those of living ones.
  The directory server uses the same token and descriptor code with object trees
  (\<open>libcli/security/access_check.c\<close>, \<open>create_descriptor.c\<close>).

  \<^bold>\<open>The theories.\<close> Each one models the functions of the files it names under the names of the source
  and proves what they achieve. Loops are recursive functions whose names end in \<open>_loop\<close>.

  \<^item> \<open>Samba_Prelude\<close>: machine integers as words, status codes, the test \<open>flag w m\<close> for \<open>if (w & m)\<close>,
    the order \<open>mask_le\<close> of masks, and the locale \<open>codec\<close> of a printer with its parser.
  \<^item> \<open>C_Library\<close>: what the sources use of \<open>snprintf\<close>, \<open>strtoul\<close> and \<open>sscanf\<close>; printing and reading
    numbers are inverse.
  \<^item> \<open>Dom_Sid\<close> (\<open>dom_sid.c\<close>, parts of \<open>util_sid.c\<close>): comparison, RIDs, domains, the string form. The
    string form is a codec; equality of SIDs is characterised by their significant parts.
  \<^item> \<open>Security_Token\<close> (\<open>security_token.c\<close>, \<open>privileges.c\<close>): the SIDs and privileges of a caller;
    the locale \<open>sid_membership\<close> is the interface that the access check uses.
  \<^item> \<open>Security_Desc\<close> (\<open>security_descriptor.c\<close>, \<open>secdesc.c\<close>, \<open>secace.c\<close>, \<open>secacl.c\<close>, \<open>uuid.c\<close>,
    \<open>ndr_sec_helper.c\<close>): entries, lists and descriptors; copying, comparing, editing, canonical
    order, and what a client may see of a descriptor.
  \<^item> \<open>Access_Check\<close> (\<open>access_check.c\<close>, \<open>object_tree.c\<close>): \<open>se_access_check\<close>,
    \<open>se_file_access_check\<close> and \<open>sec_access_check_ds\<close>. Each is related to \<open>policy_grants\<close>, which decides
    every right on its own by the first entry that applies to the caller.
  \<^item> \<open>Inheritance\<close> (\<open>secdesc.c\<close>, \<open>create_descriptor.c\<close>): the descriptor of a new object, and that the
    policy of a new file is what the directory's inheritable entries say.
  \<^item> \<open>Byteorder\<close> (\<open>byteorder.h\<close>) and \<open>Server_Id\<close> (\<open>server_id.c\<close>): integers in buffers; server ids with
    their marshalled and printed forms, both codecs.
  \<^item> \<open>Brl_Types\<close>, \<open>Brlock\<close>, \<open>Brlock_Posix\<close>, \<open>Brlock_Windows\<close>, \<open>Brlock_Db\<close> (\<open>brlock.c\<close>): the lock
    array of a file and its operations; the invariant \<open>brl_inv\<close> of mutual exclusion; POSIX locks as
    functions from bytes to lock types; Windows locks; records, caching, durable handles, waking up
    waiting processes.
  \<^item> \<open>Locking\<close> (\<open>locking.c\<close>, \<open>blocking.c\<close>, first part): the calls of the request handlers, their
    interleaving by all processes as the step relation \<open>locking_step\<close>, and exclusion in every
    reachable database; the check of reads and writes.
  \<^item> \<open>Lock_Count\<close>: the lock counter of a handle (\<open>current_lock_count\<close> in \<open>locking.c\<close>) along any
    interleaving of its requests with the steps of other handles (\<open>handle_reachable\<close>), and what
    closing the handle leaves in the database.
  \<^item> \<open>Share_Mode\<close> (\<open>locking.c\<close>, second part, and \<open>open.c\<close>): the entries of a share mode record, the
    lease table that they index, delete on close tokens, and the check of an open against them. The
    function \<open>entries\<close> gives every entry its lease; the table operations are shown on that list.
  \<^item> \<open>Bitmap\<close> (\<open>bitmap.c\<close>): bit pools; the locale \<open>bit_store\<close> is a set of numbers below a bound.
  \<^item> \<open>Smb2_Credits\<close> (\<open>smb2_server.c\<close>): the window of message ids on top of a bitmap. It refines a
    set of used ids below a limit; on every run of a connection no id is taken twice, counters stay in
    their bounds, processing returns, and the client is never left without a credit.

  \<^bold>\<open>Conventions.\<close> C structures are records, enumerations datatypes, \<open>uintN_t\<close> words of \<open>N\<close> bits, so that
  wrap-around is that of the machine. An array with its counter is a list. A pointer that may be \<open>NULL\<close>
  is an \<open>option\<close>. A function that can fail an assertion, panic, divide by zero or read outside of an
  array returns an \<open>option\<close> whose \<open>None\<close> is that event; theorems that a call works say that the result
  is \<open>Some\<close>. Allocations are answered by a stream \<open>talloc\<close>, of which any element may be a failure.
  Calls of the system and of other programs are parameters (\<open>brl_env\<close>, \<open>db_env\<close>, \<open>exists\<close> for
  \<open>serverid_exists\<close>), and messages to other processes are returned as lists of events.

  \<^bold>\<open>Bounds and loops.\<close> All loops but one are structural or have a termination proof. The loop
  \<open>move_window\<close> that advances the credit window is a \<open>partial_function\<close>; property
  \<open>credit_processing_returns\<close> shows that it ends on every run. Bitmap indices are natural numbers, since
  the number of bits is an \<open>int\<close> and the search stays below its range. The lease table has fewer than
  \<open>2^32 - 1\<close> entries, for its indices are 32 bits wide with the largest one as a marker. Theorems on lock
  ranges, and the step relation, ask for requests that end below \<open>2^64\<close>; what happens at the end of the offsets is shown by lemmas
  \<open>windows_end_of_offsets_not_exclusive\<close> and \<open>posix_lock_to_end_is_lost\<close>.

  \<^bold>\<open>Not modelled.\<close> Marshalling generated from IDL, the databases (tdb, ctdb) below the records, memory
  and event libraries, sockets, signing and encryption, and system calls: their results are
  parameters. Of the request handlers only the calls into the parts above are modelled; the handlers
  around them are path name and file system operations. Granting and breaking oplocks and leases, and
  the write times of a share mode record, are left out. The client tools, RPC servers, the
  Active Directory database, Kerberos and printing are separate programs around these parts.
\<close>

end
